(* ===== verification/Prelude.thy ===== *)
theory Prelude
  imports Main "HOL-Library.Word" "HOL-Library.AList" "HOL-Library.Multiset"
    "HOL-Library.List_Lexorder" "HOL-Library.Product_Lexorder"
begin

text \<open>
  Shared vocabulary of the development: the fixed-width integers of the code, byte strings,
  the 128-bit value of a pair of 64-bit words, and the lemmas on words, lists and association
  lists that the component theories use.
\<close>

unbundle bit_operations_syntax

section \<open>Machine types\<close>

type_synonym u8 = "8 word"
type_synonym u16 = "16 word"
type_synonym u32 = "32 word"
type_synonym u64 = "64 word"
type_synonym u128 = "128 word"

text \<open>A \<open>std::string\<close> or a POD of \<open>n\<close> chars is the list of its bytes.\<close>

type_synonym bytes = "u8 list"

abbreviation UINT64_MAX :: u64 where "UINT64_MAX \<equiv> 0xFFFFFFFFFFFFFFFF"
abbreviation UINT32_MAX :: u32 where "UINT32_MAX \<equiv> 0xFFFFFFFF"

named_theorems unat_arith_simps \<open>reading word operations that do not wrap as operations on nat\<close>

section \<open>Words read as natural numbers\<close>

lemma unat_u64_less: "unat (x :: u64) < 18446744073709551616"
  using unsigned_less [of x] by simp

lemma unat_u32_less: "unat (x :: u32) < 4294967296"
  using unsigned_less [of x] by simp

lemma unat_u8_less: "unat (x :: u8) < 256"
  using unsigned_less [of x] by simp

lemma unat_add_nowrap:
  fixes x y :: "'a::len word"
  assumes "unat x + unat y < 2 ^ LENGTH('a)"
  shows "unat (x + y) = unat x + unat y"
  using assms by (simp add: unat_word_ariths)

lemma unat_mult_nowrap:
  fixes x y :: "'a::len word"
  assumes "unat x * unat y < 2 ^ LENGTH('a)"
  shows "unat (x * y) = unat x * unat y"
  using assms by (simp add: unat_word_ariths)

lemma unat_sub_nowrap:
  fixes x y :: "'a::len word"
  assumes "unat y \<le> unat x"
  shows "unat (x - y) = unat x - unat y"
  using assms by (metis unat_sub word_le_nat_alt)

lemma unat_drop_bit: "unat (drop_bit n (x :: 'a::len word)) = unat x div 2 ^ n"
  unfolding unat_drop_bit_eq by (rule drop_bit_eq_div)

lemma unat_and_mask: "unat (x AND mask n :: 'a::len word) = unat x mod 2 ^ n"
  by (metis take_bit_eq_mask take_bit_eq_mod unsigned_take_bit_eq)

lemma unat_push_bit:
  fixes x :: "'a::len word"
  shows "unat (push_bit n x) = unat x * 2 ^ n mod 2 ^ LENGTH('a)"
  by (simp only: unsigned_push_bit_eq) (simp only: push_bit_eq_mult take_bit_eq_mod)

text \<open>A disjunction of words without common bits is their sum.\<close>

lemma or_push_bit_low:
  fixes x y :: "'a::len word"
  assumes "unat y < 2 ^ n"
  shows "push_bit n x OR y = push_bit n x + y"
proof -
  have "y = take_bit n y"
    using assms by (metis take_bit_nat_eq_self unsigned_take_bit_eq word_unat_eq_iff)
  then have low: "bit y k \<Longrightarrow> k < n" for k
    by (metis bit_take_bit_iff)
  have "push_bit n x AND y = 0"
    by (rule bit_word_eqI) (use low in \<open>fastforce simp: bit_simps\<close>)
  then show ?thesis
    by (simp only: disjunctive_add_eq_or)
qed

section \<open>128-bit values\<close>

definition val128 :: "u64 \<Rightarrow> u64 \<Rightarrow> nat" where
  "val128 hi lo = unat hi * 2 ^ 64 + unat lo"

lemma val128_less: "val128 hi lo < 2 ^ 128"
proof -
  have "unat hi \<le> 2 ^ 64 - 1" using unat_u64_less [of hi] by simp
  then have "unat hi * 2 ^ 64 \<le> (2 ^ 64 - 1) * 2 ^ 64" by (rule mult_le_mono1)
  then show ?thesis using unat_u64_less [of lo] by (simp add: val128_def)
qed

section \<open>Byte strings and vectors\<close>

text \<open>The value of a byte string read in little-endian order.\<close>

definition le_val :: "bytes \<Rightarrow> nat" where
  "le_val bs = foldr (\<lambda>b v. unat b + 256 * v) bs 0"

text \<open>\<open>std::vector::resize(n, x)\<close>.\<close>

definition resize :: "nat \<Rightarrow> 'a \<Rightarrow> 'a list \<Rightarrow> 'a list" where
  "resize n x xs = take n xs @ replicate (n - length xs) x"

lemma length_resize [simp]: "length (resize n x xs) = n"
  by (simp add: resize_def)

lemma le_val_simps [simp]:
  "le_val [] = 0"
  "le_val (b # bs) = unat b + 256 * le_val bs"
  by (simp_all add: le_val_def)

lemma le_val_less: "le_val bs < 256 ^ length bs"
proof (induction bs)
  case (Cons b bs)
  then have "Suc (le_val bs) * 256 \<le> 256 ^ length bs * 256" by (intro mult_le_mono1) simp
  then show ?case using unat_u8_less [of b] by simp
qed simp

lemma le_val_append: "le_val (xs @ ys) = le_val xs + 256 ^ length xs * le_val ys"
  by (induction xs) (simp_all add: algebra_simps)

section \<open>Machines and invariants\<close>

text \<open>
  A component whose operations keep an invariant keeps it along every sequence of operations.
\<close>

locale machine =
  fixes step :: "'op \<Rightarrow> 'state \<Rightarrow> 'state" and inv :: "'state \<Rightarrow> bool"
  assumes step_inv: "inv s \<Longrightarrow> inv (step op s)"
begin

lemma run_inv: "inv s \<Longrightarrow> inv (fold step ops s)"
  by (induction ops arbitrary: s) (simp_all add: step_inv)

end

end
