(* ===== verification/IntUtil.thy ===== *)
theory IntUtil
  imports Prelude
begin

text \<open>
  The wide integer arithmetic of \<^verbatim>\<open>contrib/epee/include/int-util.h\<close>: 64x64-bit multiplication to
  128 bits, division of a 128-bit value by a 32-bit and by a 64-bit divisor.
  Out-parameters are returned as further components of the result.
\<close>

definition hi_dword :: "u64 \<Rightarrow> u64" where
  "hi_dword val = drop_bit 32 val"

definition lo_dword :: "u64 \<Rightarrow> u64" where
  "lo_dword val = val AND 0xFFFFFFFF"

text \<open>\<open>mul128 multiplier multiplicand\<close> is \<open>(product_lo, product_hi)\<close>.\<close>

definition mul128 :: "u64 \<Rightarrow> u64 \<Rightarrow> u64 \<times> u64" where
  "mul128 multiplier multiplicand =
     (let a = hi_dword multiplier;
          b = lo_dword multiplier;
          c = hi_dword multiplicand;
          d = lo_dword multiplicand;
          ac = a * c;
          ad = a * d;
          bc = b * c;
          bd = b * d;
          adbc = ad + bc;
          adbc_carry = (if adbc < ad then 1 else 0);
          product_lo = bd + push_bit 32 adbc;
          product_lo_carry = (if product_lo < bd then 1 else 0);
          product_hi = ac + drop_bit 32 adbc + push_bit 32 adbc_carry + product_lo_carry
      in (product_lo, product_hi))"

text \<open>\<open>div_with_reminder dividend divisor remainder\<close> is \<open>(quotient, remainder')\<close>.\<close>

definition div_with_reminder :: "u64 \<Rightarrow> u32 \<Rightarrow> u32 \<Rightarrow> u64 \<times> u32" where
  "div_with_reminder dividend divisor remainder =
     (let dividend = dividend OR push_bit 32 (ucast remainder)
      in (dividend div ucast divisor, ucast (dividend mod ucast divisor)))"

text \<open>\<open>div128_32 hi lo divisor\<close> is \<open>(remainder, quotient_hi, quotient_lo)\<close>.\<close>

definition div128_32 :: "u64 \<Rightarrow> u64 \<Rightarrow> u32 \<Rightarrow> u32 \<times> u64 \<times> u64" where
  "div128_32 dividend_hi dividend_lo divisor =
     (let (q3, r3) = div_with_reminder (hi_dword dividend_hi) divisor 0;
          (q2, r2) = div_with_reminder (lo_dword dividend_hi) divisor r3;
          (q1, r1) = div_with_reminder (hi_dword dividend_lo) divisor r2;
          (q0, r0) = div_with_reminder (lo_dword dividend_lo) divisor r1
      in (r0, push_bit 32 q3 OR q2, push_bit 32 q1 OR q0))"

text \<open>\<open>shl128 hi lo\<close> is \<open>(carry, hi', lo')\<close>.\<close>

definition shl128 :: "u64 \<Rightarrow> u64 \<Rightarrow> bool \<times> u64 \<times> u64" where
  "shl128 hi lo =
     (drop_bit 63 hi \<noteq> 0, push_bit 1 hi + drop_bit 63 lo, push_bit 1 lo)"

text \<open>One pass of the loop of \<open>div128_64\<close> over \<open>(remainder, dividend_hi, dividend_lo)\<close>.\<close>

definition div128_64_step :: "u64 \<Rightarrow> u64 \<times> u64 \<times> u64 \<Rightarrow> u64 \<times> u64 \<times> u64" where
  "div128_64_step divisor = (\<lambda>(remainder, dividend_hi, dividend_lo).
     let carry = drop_bit 63 remainder \<noteq> 0;
         remainder = push_bit 1 remainder;
         (out, dividend_hi, dividend_lo) = shl128 dividend_hi dividend_lo;
         remainder = (if out then remainder OR 1 else remainder)
     in if carry \<or> remainder \<ge> divisor
        then (remainder - divisor, dividend_hi, dividend_lo OR 1)
        else (remainder, dividend_hi, dividend_lo))"

text \<open>\<open>div128_64 hi lo divisor\<close> is \<open>(remainder, quotient_hi, quotient_lo)\<close>.\<close>

definition div128_64 :: "u64 \<Rightarrow> u64 \<Rightarrow> u64 \<Rightarrow> u64 \<times> u64 \<times> u64" where
  "div128_64 dividend_hi dividend_lo divisor =
     (div128_64_step divisor ^^ 128) (0, dividend_hi, dividend_lo)"

section \<open>Halves of a 64-bit word\<close>

lemma unat_hi_dword: "unat (hi_dword x) = unat x div 2 ^ 32"
  unfolding hi_dword_def by (rule unat_drop_bit)

lemma unat_lo_dword: "unat (lo_dword x) = unat x mod 2 ^ 32"
proof -
  have "(0xFFFFFFFF :: u64) = mask 32" by (simp add: mask_eq_exp_minus_1)
  then show ?thesis unfolding lo_dword_def by (metis unat_and_mask)
qed

lemma hi_dword_less: "unat (hi_dword x) < 2 ^ 32"
  using unat_u64_less [of x] by (simp add: unat_hi_dword less_mult_imp_div_less)

lemma lo_dword_less: "unat (lo_dword x) < 2 ^ 32"
  by (simp add: unat_lo_dword)

lemma dwords: "unat x = unat (hi_dword x) * 2 ^ 32 + unat (lo_dword x)"
  by (simp add: unat_hi_dword unat_lo_dword)

lemma mult_dwords:
  fixes a b :: u64
  assumes "unat a < 2 ^ 32" "unat b < 2 ^ 32"
  shows "unat (a * b) = unat a * unat b" and "unat a * unat b \<le> (2 ^ 32 - 1) * (2 ^ 32 - 1)"
proof -
  show le: "unat a * unat b \<le> (2 ^ 32 - 1) * (2 ^ 32 - 1)"
    using assms by (intro mult_le_mono) auto
  then show "unat (a * b) = unat a * unat b"
    by (intro unat_mult_nowrap) simp
qed

section \<open>Multiplication\<close>

lemma recombine:
  fixes ac ad bc bd q r c1 c2 lo :: nat
  assumes "q * 2 ^ 32 + r + c1 * 2 ^ 64 = ad + bc" and "lo + c2 * 2 ^ 64 = bd + r * 2 ^ 32"
  shows "(ac + q + c1 * 2 ^ 32 + c2) * 2 ^ 64 + lo = ac * 2 ^ 64 + (ad + bc) * 2 ^ 32 + bd"
  using assms by simp

text \<open>Addition with the carry the code derives from \<open>x + y < x\<close>.\<close>

lemma add_carry:
  fixes x y :: u64
  shows "unat (x + y) + unat (if x + y < x then 1 else 0 :: u64) * 2 ^ 64 = unat x + unat y"
proof -
  have "unat (x + y) = (unat x + unat y) mod 2 ^ 64" by (simp add: unat_word_ariths)
  moreover have "unat x + unat y < 2 ^ 65"
    using unat_u64_less [of x] unat_u64_less [of y] by simp
  moreover note unat_u64_less [of x] unat_u64_less [of y]
  ultimately show ?thesis
    by (cases "unat x + unat y < 2 ^ 64") (auto simp: word_less_nat_alt mod_if)
qed

lemma mul128_val:
  "val128 (snd (mul128 a b)) (fst (mul128 a b)) = unat a * unat b"
proof -
  define ac where "ac = hi_dword a * hi_dword b"
  define ad where "ad = hi_dword a * lo_dword b"
  define bc where "bc = lo_dword a * hi_dword b"
  define bd where "bd = lo_dword a * lo_dword b"
  define adbc where "adbc = ad + bc"
  define c1 :: u64 where "c1 = (if adbc < ad then 1 else 0)"
  define lo where "lo = bd + push_bit 32 adbc"
  define c2 :: u64 where "c2 = (if lo < bd then 1 else 0)"
  define hi where "hi = ac + drop_bit 32 adbc + push_bit 32 c1 + c2"
  have eq: "mul128 a b = (lo, hi)"
    by (simp add: mul128_def Let_def ac_def ad_def bc_def bd_def adbc_def c1_def lo_def c2_def hi_def)
  note halves = hi_dword_less [of a] lo_dword_less [of a] hi_dword_less [of b] lo_dword_less [of b]
  note prods = mult_dwords [OF halves(1) halves(3), folded ac_def]
    mult_dwords [OF halves(1) halves(4), folded ad_def]
    mult_dwords [OF halves(2) halves(3), folded bc_def]
    mult_dwords [OF halves(2) halves(4), folded bd_def]
  have s1: "unat adbc + unat c1 * 2 ^ 64 = unat ad + unat bc"
    using add_carry [of ad bc] by (simp only: adbc_def c1_def)
  have pb: "unat (push_bit 32 adbc) = unat adbc mod 2 ^ 32 * 2 ^ 32"
    by (simp only: unat_push_bit) (simp flip: mod_mult_mult2)
  have s2: "unat lo + unat c2 * 2 ^ 64 = unat bd + unat adbc mod 2 ^ 32 * 2 ^ 32"
    using add_carry [of bd "push_bit 32 adbc"] unfolding pb by (simp only: lo_def c2_def)
  define H where "H = unat ac + unat adbc div 2 ^ 32 + unat c1 * 2 ^ 32 + unat c2"
  have H: "H * 2 ^ 64 + unat lo = unat a * unat b"
  proof -
    have "unat a * unat b = unat ac * 2 ^ 64 + (unat ad + unat bc) * 2 ^ 32 + unat bd"
      by (subst dwords [of a], subst dwords [of b]) (simp add: prods algebra_simps)
    with recombine [OF _ s2, of "unat adbc div 2 ^ 32" "unat c1"] s1 show ?thesis
      unfolding H_def by simp
  qed
  have "H * 2 ^ 64 < 2 ^ 64 * 2 ^ 64"
    using H mult_strict_mono' [OF unat_u64_less [of a] unat_u64_less [of b]] by simp
  then have Hless: "H < 2 ^ 64" by simp
  have "unat (push_bit 32 c1) = unat c1 * 2 ^ 32"
    by (simp add: c1_def)
  with Hless have "unat hi = H"
    unfolding hi_def H_def by (simp add: unat_word_ariths unat_drop_bit)
  with H show ?thesis by (simp add: eq val128_def)
qed


section \<open>Division by a 32-bit divisor\<close>

lemma unat_ucast_u32 [simp]: "unat (ucast (x :: u32) :: u64) = unat x"
  using unat_u32_less [of x] by (simp add: unsigned_ucast_eq take_bit_nat_eq_self)

lemma div_with_reminder_correct:
  fixes dividend :: u64
  assumes "unat dividend < 2 ^ 32" and "remainder < divisor"
    and "div_with_reminder dividend divisor remainder = (q, r)"
  shows "unat q = (unat remainder * 2 ^ 32 + unat dividend) div unat divisor"
    and "unat r = (unat remainder * 2 ^ 32 + unat dividend) mod unat divisor"
    and "unat q < 2 ^ 32" and "r < divisor"
proof -
  let ?n = "unat remainder * 2 ^ 32 + unat dividend"
  let ?w = "dividend OR push_bit 32 (ucast remainder :: u64)"
  have rd: "unat remainder < unat divisor" using assms(2) by (simp add: word_less_nat_alt)
  have "unat (push_bit 32 (ucast remainder :: u64)) = unat remainder * 2 ^ 32"
    by (simp only: unat_push_bit) (use unat_u32_less [of remainder] in simp)
  moreover have "?w = push_bit 32 (ucast remainder) + dividend"
    using or_push_bit_low [OF assms(1)] by (simp only: or.commute)
  ultimately have w: "unat ?w = ?n"
    using assms(1) unat_u32_less [of remainder] by (simp add: unat_word_ariths)
  have q: "q = ?w div ucast divisor" and r: "r = ucast (?w mod ucast divisor :: u64)"
    using assms(3) by (simp_all add: div_with_reminder_def Let_def)
  show q': "unat q = ?n div unat divisor" by (simp add: q unat_div_distrib w)
  have "?n mod unat divisor < unat divisor" using rd by (intro mod_less_divisor) simp
  then have "?n mod unat divisor < 2 ^ 32" using unat_u32_less [of divisor] by simp
  then show r': "unat r = ?n mod unat divisor"
    by (simp add: r unsigned_ucast_eq unat_mod_distrib w take_bit_nat_eq_self)
  show "r < divisor" using rd by (simp add: word_less_nat_alt r')
  have "?n < unat divisor * 2 ^ 32"
  proof -
    have "(unat remainder + 1) * 2 ^ 32 \<le> unat divisor * 2 ^ 32" using rd by (intro mult_le_mono1) simp
    then show ?thesis using assms(1) by simp
  qed
  then show "unat q < 2 ^ 32" by (simp add: q' less_mult_imp_div_less mult.commute)
qed


text \<open>One digit of a long division in base \<open>b\<close>.\<close>

lemma long_division_step:
  fixes x v b d q r :: nat
  assumes "x div d = q" and "x mod d = r"
  shows "(x * b + v) div d = q * b + (r * b + v) div d" and "(x * b + v) mod d = (r * b + v) mod d"
proof -
  have "x = q * d + r" using assms by (metis div_mult_mod_eq)
  then have e: "x * b + v = (r * b + v) + (q * b) * d" by (simp add: algebra_simps)
  show "(x * b + v) mod d = (r * b + v) mod d" unfolding e by (rule mod_mult_self1)
  show "(x * b + v) div d = q * b + (r * b + v) div d"
  proof (cases "d = 0")
    case True
    with assms(1) show ?thesis by auto
  next
    case False
    then show ?thesis unfolding e by (rule div_mult_self1)
  qed
qed

lemma div128_32_val:
  assumes "divisor \<noteq> 0" and "div128_32 hi lo divisor = (r, q_hi, q_lo)"
  shows "val128 q_hi q_lo = val128 hi lo div unat divisor
    \<and> unat r = val128 hi lo mod unat divisor"
proof -
  let ?d = "unat divisor" and ?B = "2 ^ 32 :: nat"
  obtain q3 r3 where e3: "div_with_reminder (hi_dword hi) divisor 0 = (q3, r3)" by force
  obtain q2 r2 where e2: "div_with_reminder (lo_dword hi) divisor r3 = (q2, r2)" by force
  obtain q1 r1 where e1: "div_with_reminder (hi_dword lo) divisor r2 = (q1, r1)" by force
  obtain q0 r0 where e0: "div_with_reminder (lo_dword lo) divisor r1 = (q0, r0)" by force
  have z: "(0 :: u32) < divisor" using assms(1) by (simp add: word_gt_0)
  note d3 = div_with_reminder_correct [OF hi_dword_less z e3]
  note d2 = div_with_reminder_correct [OF lo_dword_less d3(4) e2]
  note d1 = div_with_reminder_correct [OF hi_dword_less d2(4) e1]
  note d0 = div_with_reminder_correct [OF lo_dword_less d1(4) e0]
  have join: "unat (push_bit 32 x OR y) = unat x * ?B + unat y"
    if "unat x < ?B" "unat y < ?B" for x y :: u64
    using that by (subst or_push_bit_low) (simp_all only: unat_word_ariths unat_push_bit, simp)
  have q: "q_hi = push_bit 32 q3 OR q2" "q_lo = push_bit 32 q1 OR q0" "r = r0"
    using assms(2) by (simp_all add: div128_32_def e3 e2 e1 e0)
  have v: "val128 hi lo =
      ((unat (hi_dword hi) * ?B + unat (lo_dword hi)) * ?B + unat (hi_dword lo)) * ?B + unat (lo_dword lo)"
    by (simp only: val128_def, subst dwords [of hi], subst dwords [of lo]) simp
  have "val128 q_hi q_lo = ((unat q3 * ?B + unat q2) * ?B + unat q1) * ?B + unat q0"
    by (simp add: q val128_def join [OF d3(3) d2(3)] join [OF d1(3) d0(3)])
  moreover have "unat (hi_dword hi) div ?d = unat q3" "unat (hi_dword hi) mod ?d = unat r3"
    using d3(1,2) by simp_all
  note long_division_step [OF this, of ?B "unat (lo_dword hi)", folded d2(1,2)]
  note long_division_step [OF this, of ?B "unat (hi_dword lo)", folded d1(1,2)]
  note long_division_step [OF this, of ?B "unat (lo_dword lo)", folded d0(1,2), folded v]
  ultimately show ?thesis by (simp add: q)
qed

section \<open>Division by a 64-bit divisor\<close>

lemma unat_top_bit: "unat (drop_bit 63 (x :: u64)) = (if 2 ^ 63 \<le> unat x then 1 else 0)"
proof -
  have "unat x div 2 ^ 63 < 2" using unat_u64_less [of x] by (simp add: less_mult_imp_div_less)
  then show ?thesis by (simp only: unat_drop_bit) (auto simp: div_if)
qed

lemma top_bit_iff: "drop_bit 63 (x :: u64) \<noteq> 0 \<longleftrightarrow> 2 ^ 63 \<le> unat x"
  using unat_top_bit [of x] by (metis unat_0 unat_gt_0 zero_neq_one less_numeral_extra(3))

lemma unat_double: "unat (push_bit 1 (x :: u64)) = 2 * unat x - (if 2 ^ 63 \<le> unat x then 2 ^ 64 else 0)"
  using unat_u64_less [of x] by (simp only: unat_push_bit) (auto simp: mod_if)

lemma even_plus_bit:
  fixes x :: u64
  shows "unat (push_bit 1 x OR 1) = unat (push_bit 1 x) + 1"
proof -
  have "push_bit 1 x OR 1 = push_bit 1 x + 1" by (rule or_push_bit_low) simp
  moreover have "unat (push_bit 1 x) + 1 < 2 ^ 64"
    using unat_u64_less [of x] by (simp only: unat_double) auto
  then have "unat (push_bit 1 x + 1) = unat (push_bit 1 x) + unat (1 :: u64)"
    by (intro unat_add_nowrap) simp
  ultimately show ?thesis by (simp only: unat_1)
qed

lemma shl128_correct:
  assumes "shl128 hi lo = (c, hi', lo')"
  shows "val128 hi' lo' = 2 * val128 hi lo mod 2 ^ 128"
    and "c \<longleftrightarrow> 2 ^ 128 \<le> 2 * val128 hi lo" and "lo' = push_bit 1 lo"
proof -
  have eqs: "c \<longleftrightarrow> 2 ^ 63 \<le> unat hi" "hi' = push_bit 1 hi + drop_bit 63 lo" "lo' = push_bit 1 lo"
    using assms top_bit_iff [of hi] by (auto simp: shl128_def)
  show "lo' = push_bit 1 lo" by fact
  show "c \<longleftrightarrow> 2 ^ 128 \<le> 2 * val128 hi lo"
    using eqs(1) unat_u64_less [of lo] unat_u64_less [of hi] by (auto simp: val128_def)
  have h: "unat hi' = unat (push_bit 1 hi) + (if 2 ^ 63 \<le> unat lo then 1 else 0)"
    using unat_u64_less [of hi]
    by (simp only: eqs unat_add_nowrap unat_top_bit [symmetric])
       (subst unat_add_nowrap, auto simp only: unat_double unat_top_bit, auto)
  have "2 * val128 hi lo mod 2 ^ 128 = 2 * val128 hi lo - (if 2 ^ 63 \<le> unat hi then 2 ^ 128 else 0)"
    using unat_u64_less [of hi] unat_u64_less [of lo] by (auto simp: val128_def mod_if)
  then show "val128 hi' lo' = 2 * val128 hi lo mod 2 ^ 128"
    using unat_u64_less [of hi] unat_u64_less [of lo]
    by (simp only: val128_def h eqs(3) unat_double) auto
qed


text \<open>
  One pass, on numbers: \<open>b\<close> is the bit shifted out of the dividend and \<open>R\<close> the remainder with
  that bit appended, both of which may need a 65th bit.
\<close>

lemma div128_64_step_correct:
  assumes step: "div128_64_step d (rem, hi, lo) = (rem', hi', lo')" and less: "unat rem < unat d"
    and b: "b = (if 2 ^ 128 \<le> 2 * val128 hi lo then 1 else 0)"
    and R: "R = 2 * unat rem + b"
    and e: "e = (if unat d \<le> R then 1 else 0)"
  shows "unat rem' = R - e * unat d" and "val128 hi' lo' = 2 * val128 hi lo mod 2 ^ 128 + e"
proof -
  obtain c hi1 lo1 where shl: "shl128 hi lo = (c, hi1, lo1)" by (metis prod_cases3)
  note s = shl128_correct [OF shl]
  define rem1 where "rem1 = (if c then push_bit 1 rem OR 1 else push_bit 1 rem)"
  have rem1: "unat rem1 = R - (if 2 ^ 63 \<le> unat rem then 2 ^ 64 else 0)"
    using s(2) by (auto simp only: rem1_def even_plus_bit unat_double R b split: if_splits) simp
  have dl: "unat d < 2 ^ 64" using unat_u64_less [of d] by simp
  have cond: "(2 ^ 63 \<le> unat rem \<or> d \<le> rem1) \<longleftrightarrow> e = 1"
    using dl by (auto simp: word_le_nat_alt rem1 e R)
  have res: "(rem', hi', lo') = (if e = 1 then (rem1 - d, hi1, lo1 OR 1) else (rem1, hi1, lo1))"
    using step unfolding div128_64_step_def
    by (simp only: prod.case shl Let_def rem1_def [symmetric] top_bit_iff cond split: if_splits)
  show "unat rem' = R - e * unat d"
  proof (cases "e = 1")
    case True
    then have "unat d \<le> R" by (auto simp: e split: if_splits)
    then have "unat (rem1 - d) = R - unat d"
      using less dl b by (auto simp: unat_sub_if_size word_size rem1 R split: if_splits)
    then show ?thesis using res True by simp
  next
    case False
    then have "\<not> 2 ^ 63 \<le> unat rem" "e = 0" using cond e by (auto split: if_splits)
    then show ?thesis using res rem1 by simp
  qed
  show "val128 hi' lo' = 2 * val128 hi lo mod 2 ^ 128 + e"
  proof (cases "e = 1")
    case True
    then have "hi' = hi1" "unat lo' = unat lo1 + 1"
      using res even_plus_bit [of lo] by (auto simp only: s(3) if_True prod.inject refl)
    then have "val128 hi' lo' = val128 hi1 lo1 + 1" by (simp add: val128_def)
    then show ?thesis by (simp only: s(1) True)
  next
    case False
    then have "e = 0" using e by (auto split: if_splits)
    then show ?thesis using res s(1) by simp
  qed
qed


text \<open>
  After \<open>i\<close> passes the top \<open>i\<close> bits of the dividend \<open>D\<close> have been divided: their quotient is in the
  low \<open>i\<close> bits of the register, above it the bits still to come.
\<close>

definition div128_64_inv :: "nat \<Rightarrow> nat \<Rightarrow> nat \<Rightarrow> u64 \<times> u64 \<times> u64 \<Rightarrow> bool" where
  "div128_64_inv D d i = (\<lambda>(rem, hi, lo).
     unat rem = D div 2 ^ (128 - i) mod d \<and>
     val128 hi lo = D mod 2 ^ (128 - i) * 2 ^ i + D div 2 ^ (128 - i) div d)"

lemma shift_out:
  fixes D d m i :: nat
  assumes "m + i = 127" and "D < 2 ^ 128" and "0 < d"
  defines "T \<equiv> 2 * (D mod 2 ^ Suc m * 2 ^ i + D div 2 ^ Suc m div d)"
  shows "T mod 2 ^ 128 = D mod 2 ^ m * 2 ^ Suc i + 2 * (D div 2 ^ Suc m div d)"
    and "(2 ^ 128 \<le> T) \<longleftrightarrow> D div 2 ^ m mod 2 = 1"
proof -
  let ?b = "D div 2 ^ m mod 2" and ?q = "D div 2 ^ Suc m div d"
  let ?rest = "D mod 2 ^ m * 2 ^ Suc i + 2 * ?q"
  have p: "(2::nat) ^ 128 = 2 ^ m * 2 ^ Suc i" 
  proof -
    have "m + Suc i = 128" using assms(1) by simp
    then show ?thesis by (metis power_add)
  qed
  have "D mod 2 ^ Suc m = D mod 2 ^ m + 2 ^ m * ?b"
    using mod_mult2_eq [of D "2 ^ m" 2] by (simp add: mult.commute)
  then have T: "T = ?b * 2 ^ 128 + ?rest"
    unfolding T_def p by (simp add: algebra_simps)
  have "D div 2 ^ Suc m < 2 ^ i"
    using assms(2) [unfolded p] by (intro less_mult_imp_div_less) (simp add: ac_simps)
  then have "?q < 2 ^ i" using div_le_dividend le_less_trans by blast
  moreover have "D mod 2 ^ m * 2 ^ Suc i \<le> (2 ^ m - 1) * 2 ^ Suc i"
    using mod_less_divisor [of "2 ^ m" D, OF zero_less_power [OF zero_less_numeral]]
    by (intro mult_le_mono1) linarith
  moreover have "(2 ^ m - 1) * 2 ^ Suc i + 2 ^ Suc i = (2::nat) ^ 128"
    unfolding p by (simp add: diff_mult_distrib)
  ultimately have less: "?rest < 2 ^ 128" unfolding power_Suc by linarith
  show "T mod 2 ^ 128 = ?rest" unfolding T using less by simp
  show "(2 ^ 128 \<le> T) \<longleftrightarrow> ?b = 1"
    unfolding T using less by (cases "?b = 0") auto
qed

lemma quotient_bit:
  fixes n d b e R :: nat
  assumes "R = 2 * (n mod d) + b" and "e = (if d \<le> R then 1 else 0)" and "b \<le> 1" and "0 < d"
  shows "(2 * n + b) div d = 2 * (n div d) + e" and "(2 * n + b) mod d = R - e * d"
proof -
  obtain q r where n: "n = q * d + r" and r: "r = n mod d" and q: "q = n div d"
    by (metis div_mult_mod_eq)
  have rd: "r < d" using r assms(4) by simp
  have R: "R = 2 * r + b" using assms(1) r by simp
  have "2 * n + b = (R - e * d) + (2 * q + e) * d"
    using assms(2) by (auto simp: n R algebra_simps)
  moreover have "R - e * d < d" using rd assms(2,3) by (auto simp: R)
  ultimately show "(2 * n + b) div d = 2 * (n div d) + e" and "(2 * n + b) mod d = R - e * d"
    by (simp_all add: q)
qed

lemma div128_64_inv_step:
  assumes inv: "div128_64_inv D (unat d) i s" and "i < 128" "D < 2 ^ 128" "d \<noteq> 0"
  shows "div128_64_inv D (unat d) (Suc i) (div128_64_step d s)"
proof -
  obtain rem hi lo where s: "s = (rem, hi, lo)" by (cases s)
  obtain rem' hi' lo' where step: "div128_64_step d (rem, hi, lo) = (rem', hi', lo')"
    by (metis prod_cases3)
  define m where "m = 127 - i"
  have m: "m + i = 127" "128 - i = Suc m" "128 - Suc i = m" using assms(2) by (auto simp: m_def)
  have d: "0 < unat d" using assms(4) by (simp add: unat_gt_0)
  let ?n = "D div 2 ^ Suc m" and ?b = "D div 2 ^ m mod 2"
  have rem: "unat rem = ?n mod unat d" and val: "val128 hi lo = D mod 2 ^ Suc m * 2 ^ i + ?n div unat d"
    using inv by (simp_all add: s div128_64_inv_def m)
  note out = shift_out [OF m(1) assms(3) d, folded val]
  define R where "R = 2 * unat rem + ?b"
  define e :: nat where "e = (if unat d \<le> R then 1 else 0)"
  have "?b = (if 2 ^ 128 \<le> 2 * val128 hi lo then 1 else 0)" using out(2) by auto
  moreover have less: "unat rem < unat d" using rem d by simp
  ultimately have res: "unat rem' = R - e * unat d"
      "val128 hi' lo' = D mod 2 ^ m * 2 ^ Suc i + (2 * (?n div unat d) + e)"
    using div128_64_step_correct [OF step _ _ R_def e_def] out(1) by auto
  have "D div 2 ^ m = 2 * ?n + ?b"
    using div_mult2_eq [of D "2 ^ m" 2] mult_div_mod_eq [of 2 "D div 2 ^ m"]
    by (simp only: power_Suc mult.commute)
  then have "D div 2 ^ m div unat d = 2 * (?n div unat d) + e"
      "D div 2 ^ m mod unat d = R - e * unat d"
    using quotient_bit [OF R_def [unfolded rem] e_def _ d] by simp_all
  then show ?thesis using res unfolding s step div128_64_inv_def prod.case m(3) by simp
qed

lemma div128_64_val:
  assumes "divisor \<noteq> 0" and "div128_64 hi lo divisor = (r, q_hi, q_lo)"
  shows "val128 q_hi q_lo = val128 hi lo div unat divisor
    \<and> unat r = val128 hi lo mod unat divisor"
proof -
  let ?D = "val128 hi lo" and ?s = "\<lambda>i. (div128_64_step divisor ^^ i) (0, hi, lo)"
  have "div128_64_inv ?D (unat divisor) i (?s i)" if "i \<le> 128" for i
    using that
  proof (induction i)
    case 0
    then show ?case using val128_less [of hi lo] by (simp add: div128_64_inv_def)
  next
    case (Suc i)
    then show ?case using div128_64_inv_step [OF Suc.IH] val128_less assms(1) by simp
  qed
  from this [of 128] show ?thesis
    using assms(2) unfolding div128_64_def div128_64_inv_def by (simp only: order_refl prod.case) simp
qed

section \<open>The contract of the wide operations\<close>

text \<open>
  The callers multiply two 64-bit words to 128 bits and divide the product by a 64-bit word. The
  contract of the pair of operations gives them the exact floor of the quotient.
\<close>

locale wide_arith =
  fixes mul :: "u64 \<Rightarrow> u64 \<Rightarrow> u64 \<times> u64"
    and divide :: "u64 \<Rightarrow> u64 \<Rightarrow> u64 \<Rightarrow> u64 \<times> u64 \<times> u64"
  assumes mul_val: "mul a b = (lo, hi) \<Longrightarrow> val128 hi lo = unat a * unat b"
    and divide_val: "d \<noteq> 0 \<Longrightarrow> divide hi lo d = (r, q_hi, q_lo) \<Longrightarrow>
      val128 q_hi q_lo = val128 hi lo div unat d \<and> unat r = val128 hi lo mod unat d"
begin

lemma muldiv:
  assumes "d \<noteq> 0" and "mul a b = (lo, hi)" and "divide hi lo d = (r, q_hi, q_lo)"
  shows "val128 q_hi q_lo = unat a * unat b div unat d"
  using divide_val [OF assms(1,3)] mul_val [OF assms(2)] by simp

lemma muldiv_fits:
  assumes "d \<noteq> 0" and "mul a b = (lo, hi)" and "divide hi lo d = (r, q_hi, q_lo)"
    and "unat a * unat b div unat d < 2 ^ 64"
  shows "q_hi = 0" and "unat q_lo = unat a * unat b div unat d"
proof -
  have v: "unat q_hi * 2 ^ 64 + unat q_lo = unat a * unat b div unat d"
    using muldiv [OF assms(1-3)] by (simp only: val128_def)
  then have "unat q_hi = 0" using assms(4) by (cases "unat q_hi") auto
  then show "q_hi = 0" and "unat q_lo = unat a * unat b div unat d"
    using v by (simp_all add: unat_eq_zero)
qed

lemma mul_high_zero:
  assumes "mul a b = (lo, hi)"
  shows "hi = 0 \<longleftrightarrow> unat a * unat b < 2 ^ 64"
    and "hi = 0 \<Longrightarrow> unat lo = unat a * unat b"
proof -
  have v: "unat hi * 2 ^ 64 + unat lo = unat a * unat b"
    using mul_val [OF assms] by (simp only: val128_def)
  show "hi = 0 \<Longrightarrow> unat lo = unat a * unat b" using v by simp
  have "unat hi = 0 \<longleftrightarrow> unat a * unat b < 2 ^ 64"
    using v unat_u64_less [of lo] by (cases "unat hi") auto
  then show "hi = 0 \<longleftrightarrow> unat a * unat b < 2 ^ 64" by (simp add: unat_eq_zero)
qed

end

interpretation wide: wide_arith mul128 div128_64
proof
  show "val128 hi lo = unat a * unat b" if "mul128 a b = (lo, hi)" for a b lo hi
    using mul128_val [of a b] that by simp
qed (rule div128_64_val)

section \<open>Correctness\<close>

text \<open>
  C14. Multiplying two 64-bit words with \<^const>\<open>mul128\<close> and dividing the product with
  \<^const>\<open>div128_64\<close> gives the exact 128-bit quotient and the exact remainder, for every
  nonzero divisor.
\<close>
theorem mul128_div128_64_correct:
  assumes "divisor \<noteq> 0" and "mul128 a b = (lo, hi)"
    and "div128_64 hi lo divisor = (r, q_hi, q_lo)"
  shows "val128 q_hi q_lo = unat a * unat b div unat divisor
    \<and> unat r = unat a * unat b mod unat divisor"
  using wide.divide_val [OF assms(1,3)] wide.mul_val [OF assms(2)] by simp

theorem mul128_div128_64_correct_witness:
  "let (lo, hi) = mul128 18446744073709551615 18446744073709551614; (r, q_hi, q_lo) = div128_64 hi lo 7
   in val128 q_hi q_lo = 18446744073709551615 * 18446744073709551614 div 7
     \<and> unat r = 18446744073709551615 * 18446744073709551614 mod 7"
  using mul128_div128_64_correct
    [of 7 "18446744073709551615" "18446744073709551614" "fst (mul128 18446744073709551615 18446744073709551614)"
        "snd (mul128 18446744073709551615 18446744073709551614)"]
  by (auto simp: Let_def split: prod.splits)

end
