(* ===== verification/Difficulty.thy ===== *)
theory Difficulty
  imports IntUtil
begin

text \<open>
  Proof-of-work difficulty, \<^verbatim>\<open>src/cryptonote_basic/difficulty.cpp\<close>: the test of a hash against a
  difficulty, with the 64-bit carry chain and with 512-bit integers, and the next difficulty from
  the timestamps and cumulative difficulties of the last blocks. The fixed-width integers of
  \<^verbatim>\<open>boost::multiprecision\<close> are words of the same width, an \<open>assert\<close> that fails is \<^const>\<open>None\<close>.
\<close>

type_synonym difficulty_type = u128

definition DIFFICULTY_WINDOW_V2 :: nat where "DIFFICULTY_WINDOW_V2 = 60"
definition DIFFICULTY_CUT :: nat where "DIFFICULTY_CUT = 6"

text \<open>\<open>mul a b\<close> is \<open>(low, high)\<close>; the x86-64 build calls \<^const>\<open>mul128\<close>, the others the portable code.\<close>

definition mul :: "u64 \<Rightarrow> u64 \<Rightarrow> u64 \<times> u64" where
  "mul a b = mul128 a b"

definition mul_portable :: "u64 \<Rightarrow> u64 \<Rightarrow> u64 \<times> u64" where
  "mul_portable a b =
     (let aLow = a AND 0xFFFFFFFF;
          aHigh = drop_bit 32 a;
          bLow = b AND 0xFFFFFFFF;
          bHigh = drop_bit 32 b;
          res = aLow * bLow;
          lowRes1 = res AND 0xFFFFFFFF;
          carry = drop_bit 32 res;
          res = aHigh * bLow + carry;
          highResHigh1 = drop_bit 32 res;
          highResLow1 = res AND 0xFFFFFFFF;
          res = aLow * bHigh;
          lowRes2 = res AND 0xFFFFFFFF;
          carry = drop_bit 32 res;
          res = aHigh * bHigh + carry;
          highResHigh2 = drop_bit 32 res;
          highResLow2 = res AND 0xFFFFFFFF;
          r = highResLow1 + lowRes2;
          carry = drop_bit 32 r;
          low = push_bit 32 r OR lowRes1;
          r = highResHigh1 + highResLow2 + carry;
          d3 = r AND 0xFFFFFFFF;
          carry = drop_bit 32 r;
          r = highResHigh2 + carry;
          high = d3 OR push_bit 32 r
      in (low, high))"

definition cadd :: "u64 \<Rightarrow> u64 \<Rightarrow> bool" where
  "cadd a b \<longleftrightarrow> a + b < a"

definition cadc :: "u64 \<Rightarrow> u64 \<Rightarrow> bool \<Rightarrow> bool" where
  "cadc a b c \<longleftrightarrow> a + b < a \<or> (c \<and> a + b = - 1)"

text \<open>The \<open>i\<close>-th little-endian 64-bit word of a hash, \<open>swap64le(((const uint64_t *) &hash)[i])\<close>.\<close>

definition hash_word :: "bytes \<Rightarrow> nat \<Rightarrow> u64" where
  "hash_word hash i = word_of_nat (le_val (take 8 (drop (8 * i) hash)))"

definition check_hash_64 :: "bytes \<Rightarrow> u64 \<Rightarrow> bool" where
  "check_hash_64 hash difficulty =
     (let (top, high) = mul (hash_word hash 3) difficulty
      in if high \<noteq> 0 then False
         else
           let (low, cur) = mul (hash_word hash 0) difficulty;
               (low, high) = mul (hash_word hash 1) difficulty;
               carry = cadd cur low;
               cur = high;
               (low, high) = mul (hash_word hash 2) difficulty;
               carry = cadc cur low carry;
               carry = cadc high top carry
           in \<not> carry)"

definition max64bit :: difficulty_type where
  "max64bit = 0xFFFFFFFFFFFFFFFF"

definition max128bit :: "256 word" where
  "max128bit = mask 128"

definition max256bit :: "512 word" where
  "max256bit = mask 256"

definition check_hash_128 :: "bytes \<Rightarrow> difficulty_type \<Rightarrow> bool" where
  "check_hash_128 hash difficulty =
     (let hashVal = fold (\<lambda>i v. push_bit 64 v OR ucast (hash_word hash (3 - i))) [0..<4] (0 :: 512 word)
      in hashVal * ucast difficulty \<le> max256bit)"

definition check_hash :: "bytes \<Rightarrow> difficulty_type \<Rightarrow> bool" where
  "check_hash hash difficulty =
     (if difficulty \<le> max64bit then check_hash_64 hash (ucast difficulty)
      else check_hash_128 hash difficulty)"

text \<open>The range \<open>[cut_begin, cut_end)\<close> of the sorted timestamps that is used.\<close>

definition cut_range :: "nat \<Rightarrow> nat \<times> nat" where
  "cut_range len =
     (if len \<le> DIFFICULTY_WINDOW_V2 - 2 * DIFFICULTY_CUT then (0, len)
      else
        let cut_begin = (len - (DIFFICULTY_WINDOW_V2 - 2 * DIFFICULTY_CUT) + 1) div 2
        in (cut_begin, cut_begin + (DIFFICULTY_WINDOW_V2 - 2 * DIFFICULTY_CUT)))"

definition next_difficulty_64 :: "u64 list \<Rightarrow> u64 list \<Rightarrow> u64 \<Rightarrow> u64 option" where
  "next_difficulty_64 timestamps cumulative_difficulties target_seconds =
     (let (timestamps, cumulative_difficulties) =
        (if length timestamps > DIFFICULTY_WINDOW_V2
         then (resize DIFFICULTY_WINDOW_V2 0 timestamps, resize DIFFICULTY_WINDOW_V2 0 cumulative_difficulties)
         else (timestamps, cumulative_difficulties));
        len = length timestamps
      in if len \<noteq> length cumulative_difficulties then None
         else if len \<le> 1 then Some 1
         else
           let timestamps = sort timestamps;
               (cut_begin, cut_end) = cut_range len;
               time_span = timestamps ! (cut_end - 1) - timestamps ! cut_begin;
               time_span = (if time_span = 0 then 1 else time_span);
               total_work = cumulative_difficulties ! (cut_end - 1) - cumulative_difficulties ! cut_begin
           in if total_work = 0 then None
              else
                let (low, high) = mul total_work target_seconds
                in if high \<noteq> 0 \<or> low + time_span - 1 < low then Some 0
                   else Some ((low + time_span - 1) div time_span))"

definition next_difficulty :: "u64 list \<Rightarrow> difficulty_type list \<Rightarrow> u64 \<Rightarrow> difficulty_type option" where
  "next_difficulty timestamps cumulative_difficulties target_seconds =
     (let (timestamps, cumulative_difficulties) =
        (if length timestamps > DIFFICULTY_WINDOW_V2
         then (resize DIFFICULTY_WINDOW_V2 0 timestamps, resize DIFFICULTY_WINDOW_V2 0 cumulative_difficulties)
         else (timestamps, cumulative_difficulties));
        len = length timestamps
      in if len \<noteq> length cumulative_difficulties then None
         else if len \<le> 1 then Some 1
         else
           let timestamps = sort timestamps;
               (cut_begin, cut_end) = cut_range len;
               time_span = timestamps ! (cut_end - 1) - timestamps ! cut_begin;
               time_span = (if time_span = 0 then 1 else time_span);
               total_work = cumulative_difficulties ! (cut_end - 1) - cumulative_difficulties ! cut_begin
           in if total_work = 0 then None
              else
                let res = (ucast total_work * ucast target_seconds + ucast time_span - 1) div ucast time_span
                  :: 256 word
                in if res > max128bit then Some 0 else Some (ucast res))"

section \<open>The portable multiplication\<close>

lemma portable_digits:
  fixes B aL aH bL bH :: nat
  defines "p \<equiv> aL * bL" defines "q \<equiv> aH * bL + p div B"
  defines "s \<equiv> aL * bH" defines "t \<equiv> aH * bH + s div B"
  defines "r \<equiv> q mod B + s mod B" defines "u \<equiv> q div B + t mod B + r div B"
  defines "v \<equiv> t div B + u div B"
  shows "(aH * B + aL) * (bH * B + bL)
    = p mod B + B * (r mod B) + B * B * (u mod B) + B * B * B * v"
proof -
  have digit: "x * n = x * (n mod B) + x * B * (n div B)" for x n :: nat
    by (metis add_mult_distrib2 mod_mult_div_eq mult.assoc)
  have e: "B * (aH * bL) + B * (p div B) = B * q" "B * (q mod B) + B * (s mod B) = B * r"
    "B * B * (aH * bH) + B * B * (s div B) = B * B * t"
    "B * B * (q div B) + B * B * (t mod B) + B * B * (r div B) = B * B * u"
    "B * B * B * v = B * B * B * (t div B) + B * B * B * (u div B)"
    by (simp_all add: q_def t_def r_def u_def v_def distrib_left)
  have "(aH * B + aL) * (bH * B + bL) = B * B * (aH * bH) + B * (aH * bL) + B * s + p"
    by (simp add: s_def p_def algebra_simps)
  then show ?thesis
    using e digit [of 1 p] digit [of B q] digit [of B s] digit [of B r]
      digit [of "B * B" t] digit [of "B * B" u] by (simp only: mult_1)
qed

lemma muladd_dwords:
  fixes a b c :: u64
  assumes "unat a < 2 ^ 32" "unat b < 2 ^ 32" "unat c < 2 ^ 32"
  shows "unat (a * b + c) = unat a * unat b + unat c"
  using mult_dwords [OF assms(1,2)] assms(3) by (subst unat_add_nowrap) simp_all

lemma unat_combine:
  fixes x y :: u64
  assumes "unat y < 2 ^ 32"
  shows "unat (push_bit 32 x OR y) = 2 ^ 32 * (unat x mod 2 ^ 32) + unat y"
proof -
  have p: "unat (push_bit 32 x) = 2 ^ 32 * (unat x mod 2 ^ 32)"
    by (simp only: unat_push_bit mult.commute [of "2 ^ 32"]) (simp flip: mod_mult_mult2)
  have "unat x mod 2 ^ 32 < 2 ^ 32" by simp
  then have "unat (push_bit 32 x + y) = unat (push_bit 32 x) + unat y"
    using assms by (intro unat_add_nowrap) (simp only: p, simp)
  then show ?thesis by (simp only: or_push_bit_low [OF assms] p)
qed

lemma mul_portable_val:
  "val128 (snd (mul_portable a b)) (fst (mul_portable a b)) = unat a * unat b"
proof -
  define aL aH bL bH where "aL = lo_dword a" and "aH = hi_dword a" and "bL = lo_dword b" and "bH = hi_dword b"
  define p where "p = aL * bL" define q where "q = aH * bL + hi_dword p"
  define s where "s = aL * bH" define t where "t = aH * bH + hi_dword s"
  define r where "r = lo_dword q + lo_dword s"
  define u where "u = hi_dword q + lo_dword t + hi_dword r"
  define v where "v = hi_dword t + hi_dword u"
  have eq: "mul_portable a b = (push_bit 32 r OR lo_dword p, push_bit 32 v OR lo_dword u)"
    by (simp only: mul_portable_def Let_def p_def q_def s_def t_def r_def u_def v_def
        aL_def aH_def bL_def bH_def hi_dword_def lo_dword_def or.commute [of "_ AND _" "push_bit _ _"])
  have less [simp]: "unat aL < 2 ^ 32" "unat aH < 2 ^ 32" "unat bL < 2 ^ 32" "unat bH < 2 ^ 32"
    by (simp_all only: aL_def aH_def bL_def bH_def hi_dword_less lo_dword_less)
  note small = hi_dword_less lo_dword_less
  have dig: "unat p = unat aL * unat bL" "unat q = unat aH * unat bL + unat p div 2 ^ 32"
    "unat s = unat aL * unat bH" "unat t = unat aH * unat bH + unat s div 2 ^ 32"
    unfolding q_def t_def
    by (simp_all only: muladd_dwords less small) (simp_all only: unat_hi_dword p_def s_def mult_dwords less)
  have r: "unat r = unat q mod 2 ^ 32 + unat s mod 2 ^ 32"
    unfolding r_def using small(2) [of q] small(2) [of s]
    by (subst unat_add_nowrap) (simp_all add: unat_lo_dword)
  have u: "unat u = unat q div 2 ^ 32 + unat t mod 2 ^ 32 + unat r div 2 ^ 32"
    unfolding u_def using small(1) [of q] small(2) [of t] small(1) [of r]
    by (simp add: unat_add_nowrap unat_lo_dword unat_hi_dword)
  have v: "unat v = unat t div 2 ^ 32 + unat u div 2 ^ 32"
    unfolding v_def using small(1) [of t] small(1) [of u]
    by (simp add: unat_add_nowrap unat_hi_dword)
  have "unat a * unat b = (unat aH * 2 ^ 32 + unat aL) * (unat bH * 2 ^ 32 + unat bL)"
    by (simp only: dwords [of a] dwords [of b] aL_def aH_def bL_def bH_def)
  also have "\<dots> = unat p mod 2 ^ 32 + 2 ^ 32 * (unat r mod 2 ^ 32) + 2 ^ 32 * 2 ^ 32 * (unat u mod 2 ^ 32)
      + 2 ^ 32 * 2 ^ 32 * 2 ^ 32 * unat v"
    using portable_digits [of "unat aH" "2 ^ 32" "unat aL" "unat bH" "unat bL"]
    by (simp only: dig r u v)
  finally have total: "unat a * unat b = \<dots>" .
  have "unat a * unat b < 2 ^ 64 * 2 ^ 64"
    using mult_strict_mono' [OF unat_u64_less [of a] unat_u64_less [of b]] by simp
  then have "unat v mod 2 ^ 32 = unat v" using total by simp
  then show ?thesis
    unfolding eq val128_def fst_conv snd_conv unat_combine [OF small(2)] unat_lo_dword total
    by simp
qed

lemma val128_inject: "val128 hi lo = val128 hi' lo' \<longleftrightarrow> hi = hi' \<and> lo = lo'"
proof
  assume eq: "val128 hi lo = val128 hi' lo'"
  have "unat hi = val128 hi lo div 2 ^ 64" "unat lo = val128 hi lo mod 2 ^ 64" for hi lo
    using unat_u64_less [of lo] by (simp_all add: val128_def)
  with eq show "hi = hi' \<and> lo = lo'" by (metis word_unat_eq_iff)
qed simp

text \<open>
  The portable 32-bit-limb multiplication and the x86-64 one return the same two words for all
  operands.
\<close>
theorem mul_portable_eq: "mul_portable a b = mul a b"
  using mul_portable_val [of a b] mul128_val [of a b] unfolding mul_def
  by (metis prod_eq_iff val128_inject)

section \<open>The test of a hash against a difficulty\<close>

lemma unat_hash_word: "unat (hash_word h i) = le_val (take 8 (drop (8 * i) h))"
proof -
  have "le_val (take 8 (drop (8 * i) h)) < 256 ^ length (take 8 (drop (8 * i) h))" by (rule le_val_less)
  also have "\<dots> \<le> 256 ^ 8" by (rule power_increasing) simp_all
  finally show ?thesis unfolding hash_word_def by (simp add: unat_of_nat)
qed

lemma hash_words:
  assumes "length h = 32"
  shows "le_val h = unat (hash_word h 0) + 2 ^ 64 * (unat (hash_word h 1)
    + 2 ^ 64 * (unat (hash_word h 2) + 2 ^ 64 * unat (hash_word h 3)))"
proof -
  have split: "le_val xs = le_val (take 8 xs) + 2 ^ 64 * le_val (drop 8 xs)" if "8 \<le> length xs" for xs
    using le_val_append [of "take 8 xs" "drop 8 xs"] that by simp
  have "le_val h = le_val (take 8 h) + 2 ^ 64 * (le_val (take 8 (drop 8 h))
      + 2 ^ 64 * (le_val (take 8 (drop 16 h)) + 2 ^ 64 * le_val (drop 24 h)))"
    using split [of h] split [of "drop 8 h"] split [of "drop 16 h"] assms by simp
  moreover have "take 8 (drop 24 h) = drop 24 h" using assms by simp
  ultimately show ?thesis by (simp add: unat_hash_word)
qed

lemma cadd_iff: "cadd a b \<longleftrightarrow> 2 ^ 64 \<le> unat a + unat b"
  using add_carry [of a b] unat_u64_less [of "a + b"] unat_u64_less [of a] unat_u64_less [of b]
  unfolding cadd_def by (cases "a + b < a") auto

lemma cadc_iff: "cadc a b c \<longleftrightarrow> 2 ^ 64 \<le> unat a + unat b + of_bool c"
proof -
  have "a + b = - 1 \<longleftrightarrow> unat (a + b) = 2 ^ 64 - 1"
    by (simp add: word_unat_eq_iff unsigned_minus_1_eq_mask mask_eq_exp_minus_1)
  then show ?thesis
    using add_carry [of a b] unat_u64_less [of "a + b"] unat_u64_less [of a] unat_u64_less [of b]
    unfolding cadc_def by (cases "a + b < a"; cases c) auto
qed

text \<open>A digit below the base does not matter for a comparison with a multiple of the base.\<close>

lemma carry_less:
  fixes r U Y B :: nat
  assumes "0 < B"
  shows "r + B * U < B * Y \<longleftrightarrow> U + r div B < Y"
  using assms div_less_iff_less_mult [of B "r + B * U" Y] by (simp add: ac_simps)

lemma carry_bit:
  fixes x B :: nat
  assumes "x < 2 * B"
  shows "x div B = of_bool (B \<le> x)"
proof (cases "B \<le> x")
  case True
  then have "x div B = 1" using assms by (intro div_nat_eqI) simp_all
  then show ?thesis using True by simp
qed simp

text \<open>The carry chain over the digits of a product: the sum stays below \<open>B ^ 4\<close>.\<close>

lemma carry_chain:
  fixes B lo0 hi0 lo1 hi1 lo2 hi2 top :: nat
  assumes "lo0 < B" "hi0 < B" "lo1 < B" "hi1 < B" "lo2 < B" "hi2 < B" "top < B"
  defines "c1 \<equiv> of_bool (B \<le> hi0 + lo1) :: nat"
  defines "c2 \<equiv> of_bool (B \<le> hi1 + lo2 + c1) :: nat"
  shows "lo0 + B * (hi0 + lo1 + B * (hi1 + lo2 + B * (hi2 + top))) < B * (B * (B * B))
    \<longleftrightarrow> \<not> B \<le> hi2 + top + c2"
proof -
  have B: "0 < B" using assms(1) by simp
  have c: "c1 \<le> 1" "c2 \<le> 1" by (simp_all add: c1_def c2_def)
  have d1: "(hi0 + lo1) div B = c1" unfolding c1_def using assms by (intro carry_bit) simp
  have d2: "(hi1 + lo2 + c1) div B = c2" unfolding c2_def using assms c by (intro carry_bit) simp
  have "hi1 + lo2 + B * (hi2 + top) + c1 = (hi1 + lo2 + c1) + B * (hi2 + top)" by simp
  then show ?thesis
    using assms(1) by (simp only: carry_less [OF B] d1 div_less add_0_right)
      (simp add: carry_less [OF B] d2 not_le)
qed

lemma check_hash_64_iff:
  assumes "length h = 32"
  shows "check_hash_64 h d \<longleftrightarrow> le_val h * unat d < 2 ^ 256"
proof -
  let ?w = "\<lambda>i. unat (hash_word h i) * unat d" and ?B = "2 ^ 64 :: nat"
  obtain lo0 hi0 lo1 hi1 lo2 hi2 top hi3 where
    m: "mul (hash_word h 0) d = (lo0, hi0)" "mul (hash_word h 1) d = (lo1, hi1)"
      "mul (hash_word h 2) d = (lo2, hi2)" "mul (hash_word h 3) d = (top, hi3)"
    by (metis surj_pair)
  note v = m [unfolded mul_def, THEN wide.mul_val, unfolded val128_def]
  have val: "le_val h * unat d = ?w 0 + ?B * (?w 1 + ?B * (?w 2 + ?B * ?w 3))"
    unfolding hash_words [OF assms] by (simp add: algebra_simps)
  have pow: "(2::nat) ^ 256 = ?B * (?B * (?B * ?B))" by simp
  show ?thesis
  proof (cases "hi3 = 0")
    case True
    have sum: "le_val h * unat d = unat lo0 + ?B * (unat hi0 + unat lo1
        + ?B * (unat hi1 + unat lo2 + ?B * (unat hi2 + unat top)))"
      unfolding val v [symmetric] True by (simp add: algebra_simps)
    have l: "unat x < ?B" for x :: u64 using unat_u64_less [of x] by simp
    have code: "check_hash_64 h d = (\<not> cadc hi2 top (cadc hi1 lo2 (cadd hi0 lo1)))"
      unfolding check_hash_64_def m using True by simp
    show ?thesis unfolding code sum pow cadc_iff cadd_iff
      using carry_chain [OF l [of lo0] l [of hi0] l [of lo1] l [of hi1] l [of lo2] l [of hi2] l [of top]]
      by blast
  next
    case False
    then have "?B \<le> ?w 3" using m(4) [unfolded mul_def, THEN wide.mul_high_zero(1)] by simp
    then have "?B * (?B * (?B * ?B)) \<le> ?B * (?B * (?B * ?w 3))"
      by (intro mult_le_mono2)
    also have "\<dots> \<le> le_val h * unat d" unfolding val by (simp only: distrib_left)
    finally show ?thesis using False unfolding pow by (simp add: check_hash_64_def m)
  qed
qed


lemma unat_shift_or_512:
  fixes v :: "512 word" and y :: u64
  assumes "unat v < 2 ^ 192"
  shows "unat (push_bit 64 v OR ucast y) = unat y + 2 ^ 64 * unat v"
    and "unat (push_bit 64 v OR ucast y) < 2 ^ 64 * 2 ^ 192"
proof -
  have y: "unat (ucast y :: 512 word) = unat y"
    using unat_u64_less [of y] by (simp add: unsigned_ucast_eq take_bit_nat_eq_self)
  have p: "unat (push_bit 64 v) = 2 ^ 64 * unat v"
    using assms by (simp only: unat_push_bit) simp
  have le: "2 ^ 64 * unat v \<le> 2 ^ 64 * (2 ^ 192 - 1)" using assms by (intro mult_le_mono2) simp
  have "push_bit 64 v OR ucast y = push_bit 64 v + ucast y"
    using unat_u64_less [of y] by (intro or_push_bit_low) (simp add: y)
  moreover have "unat (push_bit 64 v + ucast y) = 2 ^ 64 * unat v + unat y"
    using le unat_u64_less [of y] by (subst unat_add_nowrap) (simp_all add: p y del: push_bit_of_0)
  ultimately show "unat (push_bit 64 v OR ucast y) = unat y + 2 ^ 64 * unat v"
    and "unat (push_bit 64 v OR ucast y) < 2 ^ 64 * 2 ^ 192"
    using le unat_u64_less [of y] by simp_all
qed

lemma check_hash_128_iff:
  assumes "length h = 32"
  shows "check_hash_128 h d \<longleftrightarrow> le_val h * unat d < 2 ^ 256"
proof -
  define f where "f = (\<lambda>(v :: 512 word) y. push_bit 64 v OR ucast (y :: u64))"
  let ?w = "hash_word h"
  define V where "V = f (f (f (f 0 (?w 3)) (?w 2)) (?w 1)) (?w 0)"
  have code: "check_hash_128 h d \<longleftrightarrow> V * ucast d \<le> mask 256"
    by (simp add: check_hash_128_def max256bit_def V_def f_def upt_conv_Cons numeral_eq_Suc)
  have f: "unat (f v y) = unat y + 2 ^ 64 * unat v" if "unat v < 2 ^ 192" for v y
    using that by (simp only: f_def unat_shift_or_512)
  have step: "unat (f v y) < 2 ^ 64 * B" if "unat v < B" "B \<le> 2 ^ 192" for v y and B :: nat
  proof -
    have "2 ^ 64 * unat v + 2 ^ 64 \<le> 2 ^ 64 * B" using that(1) by simp
    then show ?thesis using that unat_u64_less [of y] f [of v y] by simp
  qed
  have b: "unat (f 0 (?w 3)) < 2 ^ 64 * 1" by (rule step) simp_all
  have b2: "unat (f (f 0 (?w 3)) (?w 2)) < 2 ^ 64 * (2 ^ 64 * 1)" by (rule step [OF b]) simp
  have b3: "unat (f (f (f 0 (?w 3)) (?w 2)) (?w 1)) < 2 ^ 64 * (2 ^ 64 * (2 ^ 64 * 1))"
    by (rule step [OF b2]) simp
  have V: "unat V = le_val h"
    unfolding V_def hash_words [OF assms] using b b2 b3 by (simp add: f)
  have dl: "unat d < 2 ^ 128" using unsigned_less [of d] by simp
  then have d: "unat (ucast d :: 512 word) = unat d"
    by (simp add: unsigned_ucast_eq take_bit_nat_eq_self)
  have "le_val h < 2 ^ 256" using le_val_less [of h] assms by simp
  then have "le_val h * unat d < 2 ^ 256 * 2 ^ 128"
    using dl by (intro mult_strict_mono') simp_all
  then have "unat (V * ucast d) = le_val h * unat d"
    by (subst unat_mult_nowrap) (simp_all add: V d)
  moreover have "unat (mask 256 :: 512 word) = 2 ^ 256 - 1" by (simp add: mask_eq_exp_minus_1)
  ultimately show ?thesis by (simp only: code word_le_nat_alt) auto
qed

text \<open>
  C13. A 32-byte hash passes the test against a difficulty exactly when the little-endian number it
  spells, times the difficulty, is below 2 to the power 256. This holds for the 64-bit carry chain
  and for the 512-bit path alike, so the path the difficulty selects does not matter.
\<close>
theorem check_hash_correct:
  assumes "length h = 32"
  shows "check_hash h d \<longleftrightarrow> le_val h * unat d < 2 ^ 256"
proof (cases "d \<le> max64bit")
  case True
  then have "unat (ucast d :: u64) = unat d"
    by (simp add: max64bit_def word_le_nat_alt unsigned_ucast_eq take_bit_nat_eq_self)
  then show ?thesis using True by (simp add: check_hash_def check_hash_64_iff [OF assms])
qed (simp add: check_hash_def check_hash_128_iff [OF assms])

theorem check_hash_correct_witness:
  "check_hash (replicate 32 255) 1 \<and> \<not> check_hash (replicate 32 255) 2"
proof -
  have "le_val (replicate n 255) + 1 = 256 ^ n" for n by (induction n) simp_all
  from this [of 32] show ?thesis
    using check_hash_correct [of "replicate 32 255" 1] check_hash_correct [of "replicate 32 255" 2] by simp
qed

section \<open>The next difficulty\<close>

lemma cut_range_bounds:
  assumes "2 \<le> len" and "len \<le> DIFFICULTY_WINDOW_V2" and "cut_range len = (b, e)"
  shows "b + 2 \<le> e" and "e \<le> len"
  using assms by (auto simp: cut_range_def DIFFICULTY_WINDOW_V2_def DIFFICULTY_CUT_def Let_def split: if_splits)

text \<open>
  The window of blocks the next difficulty is computed from, stated on its own: of the first 60 entries, the middle
  48, with the odd one left out at the front; the work done between the ends of these and the time it took, at least
  one second.
\<close>

definition middle :: "'a list \<Rightarrow> 'a list" where
  "middle xs = take 48 (drop ((length xs - 48 + 1) div 2) xs)"

definition work_window :: "u64 list \<Rightarrow> 'a::len word list \<Rightarrow> nat \<times> nat" where
  "work_window timestamps cds =
     (let ts = middle (sort (take 60 timestamps));
          ds = middle (take 60 cds)
      in (unat (last ds - hd ds), max 1 (unat (last ts - hd ts))))"

lemma middle_ends:
  assumes "2 \<le> length xs" and "length xs \<le> 60" and "cut_range (length xs) = (b, e)"
  shows "hd (middle xs) = xs ! b" and "last (middle xs) = xs ! (e - 1)"
proof -
  have be: "b = (length xs - 48 + 1) div 2" "e = b + min 48 (length xs)"
    using assms(3) by (auto simp: cut_range_def DIFFICULTY_WINDOW_V2_def DIFFICULTY_CUT_def Let_def min_def split: if_splits)
  have m: "middle xs = take 48 (drop b xs)" by (simp add: middle_def be(1))
  have fits: "b + min 48 (length xs) \<le> length xs" unfolding be(1) using assms(1) by (cases "length xs \<le> 48") auto
  then have len: "length (middle xs) = min 48 (length xs)" by (simp add: m)
  then have ne: "middle xs \<noteq> []" using assms(1) by auto
  then show "hd (middle xs) = xs ! b" by (simp add: m hd_drop_conv_nth)
  have "last (middle xs) = middle xs ! (min 48 (length xs) - 1)" using ne len by (simp add: last_conv_nth)
  also have "\<dots> = drop b xs ! (min 48 (length xs) - 1)" using assms(1) by (simp add: m)
  also have "\<dots> = xs ! (e - 1)" using assms(1) fits by (subst nth_drop) (auto simp: be(2))
  finally show "last (middle xs) = xs ! (e - 1)" .
qed

lemma work_window_cut:
  assumes "length cds = length ts" and "2 \<le> length ts" and "cut_range (length (take DIFFICULTY_WINDOW_V2 ts)) = (b, e)"
  shows "work_window ts cds = (unat (cds ! (e - 1) - cds ! b),
    max 1 (unat (sort (take DIFFICULTY_WINDOW_V2 ts) ! (e - 1) - sort (take DIFFICULTY_WINDOW_V2 ts) ! b)))"
proof -
  let ?n = "length (take DIFFICULTY_WINDOW_V2 ts)"
  have n: "2 \<le> ?n" "?n \<le> DIFFICULTY_WINDOW_V2" using assms(2) by (auto simp: DIFFICULTY_WINDOW_V2_def)
  note be = cut_range_bounds [OF n assms(3)]
  have cut: "cut_range (length (sort (take 60 ts))) = (b, e)" "cut_range (length (take 60 cds)) = (b, e)"
    using assms(1,3) by (simp_all add: DIFFICULTY_WINDOW_V2_def)
  have "hd (middle (take 60 cds)) = cds ! b" "last (middle (take 60 cds)) = cds ! (e - 1)"
    using middle_ends [OF _ _ cut(2)] assms(1,2) be n by (auto simp: DIFFICULTY_WINDOW_V2_def)
  moreover have "hd (middle (sort (take 60 ts))) = sort (take 60 ts) ! b" "last (middle (sort (take 60 ts))) = sort (take 60 ts) ! (e - 1)"
    using middle_ends [OF _ _ cut(1)] assms(2) by auto
  ultimately show ?thesis by (simp add: work_window_def DIFFICULTY_WINDOW_V2_def)
qed

lemma ceil_256:
  fixes w :: u128 and t s :: u64
  assumes "s \<noteq> 0"
  shows "unat ((ucast w * ucast t + ucast s - 1) div ucast s :: 256 word)
    = (unat w * unat t + unat s - 1) div unat s"
proof -
  have l: "unat w < 2 ^ 128" "unat t < 2 ^ 64" "unat s < 2 ^ 64" "0 < unat s"
    using unsigned_less [of w] unsigned_less [of t] unsigned_less [of s] assms by (simp_all add: unat_gt_0)
  then have u: "unat (ucast w :: 256 word) = unat w" "unat (ucast t :: 256 word) = unat t"
      "unat (ucast s :: 256 word) = unat s"
    by (simp_all add: unsigned_ucast_eq take_bit_nat_eq_self)
  have "unat w * unat t < 2 ^ 128 * 2 ^ 64" using l by (intro mult_strict_mono') simp_all
  then have "unat (ucast w * ucast t + ucast s :: 256 word) = unat w * unat t + unat s"
    using l by (simp add: unat_add_nowrap unat_mult_nowrap u)
  moreover from this have "unat (ucast w * ucast t + ucast s - 1 :: 256 word) = unat w * unat t + unat s - 1"
    using l by (subst unat_sub_nowrap) simp_all
  ultimately show ?thesis by (simp add: unat_div_distrib u)
qed

lemma window_resize:
  assumes "length cds = length ts"
  shows "(if length ts > DIFFICULTY_WINDOW_V2
      then (resize DIFFICULTY_WINDOW_V2 0 ts, resize DIFFICULTY_WINDOW_V2 0 cds) else (ts, cds))
    = (take DIFFICULTY_WINDOW_V2 ts, take DIFFICULTY_WINDOW_V2 cds)"
  using assms by (simp add: resize_def)

text \<open>What both versions compute before they multiply: the work, and the span as a nonzero word.\<close>

lemma work_windowE:
  assumes "length cds = length ts" and "2 \<le> length ts" and "work_window ts cds = (work, span)"
  obtains b e w s where
    "cut_range (length (take DIFFICULTY_WINDOW_V2 ts)) = (b, e)"
    "(length (take DIFFICULTY_WINDOW_V2 ts) \<le> 1) = False"
    "take DIFFICULTY_WINDOW_V2 cds ! (e - 1) - take DIFFICULTY_WINDOW_V2 cds ! b = w"
    "(if sort (take DIFFICULTY_WINDOW_V2 ts) ! (e - 1) - sort (take DIFFICULTY_WINDOW_V2 ts) ! b = 0 then 1
      else sort (take DIFFICULTY_WINDOW_V2 ts) ! (e - 1) - sort (take DIFFICULTY_WINDOW_V2 ts) ! b) = s"
    "unat w = work" "s \<noteq> 0" "unat s = span"
proof -
  let ?n = "length (take DIFFICULTY_WINDOW_V2 ts)"
  obtain b e where cut: "cut_range ?n = (b, e)" by fastforce
  have n: "2 \<le> ?n" "?n \<le> DIFFICULTY_WINDOW_V2"
    using assms(2) by (auto simp: DIFFICULTY_WINDOW_V2_def)
  note be = cut_range_bounds [OF n cut]
  define d where "d = sort (take DIFFICULTY_WINDOW_V2 ts) ! (e - 1) - sort (take DIFFICULTY_WINDOW_V2 ts) ! b"
  have ww: "work = unat (cds ! (e - 1) - cds ! b)" "span = max 1 (unat d)"
    using assms(3) work_window_cut [OF assms(1,2) cut] by (simp_all add: d_def)
  have "take DIFFICULTY_WINDOW_V2 cds ! (e - 1) - take DIFFICULTY_WINDOW_V2 cds ! b = cds ! (e - 1) - cds ! b"
    using be by (subst (1 2) nth_take) auto
  moreover have "unat (if d = 0 then 1 else d) = span"
    unfolding ww by (auto simp: max_def unat_eq_zero Suc_le_eq unat_gt_0)
  moreover have "(?n \<le> 1) = False" using n by auto
  ultimately show ?thesis
    using that [OF cut _ _ refl] ww(1) unfolding d_def [symmetric] by auto
qed

lemma next_difficulty_eq:
  assumes "length cds = length ts" and "2 \<le> length ts" and "work_window ts cds = (work, span)"
    and "0 < work"
  shows "next_difficulty ts cds target = Some (let q = (work * unat target + span - 1) div span
     in if q < 2 ^ 128 then word_of_nat q else 0)"
proof -
  obtain b e w s where w: "cut_range (length (take DIFFICULTY_WINDOW_V2 ts)) = (b, e)"
    "(length (take DIFFICULTY_WINDOW_V2 ts) \<le> 1) = False"
    "take DIFFICULTY_WINDOW_V2 cds ! (e - 1) - take DIFFICULTY_WINDOW_V2 cds ! b = w"
    "(if sort (take DIFFICULTY_WINDOW_V2 ts) ! (e - 1) - sort (take DIFFICULTY_WINDOW_V2 ts) ! b = 0 then 1
      else sort (take DIFFICULTY_WINDOW_V2 ts) ! (e - 1) - sort (take DIFFICULTY_WINDOW_V2 ts) ! b) = s"
    and nz: "unat w = work" "s \<noteq> 0" "unat s = span"
    by (rule work_windowE [OF assms(1-3)])
  have w0: "w \<noteq> 0" using nz(1) assms(4) by auto
  define res :: "256 word" where "res = (ucast w * ucast target + ucast s - 1) div ucast s"
  have len: "(length (take DIFFICULTY_WINDOW_V2 ts) \<noteq> length (take DIFFICULTY_WINDOW_V2 cds)) = False"
    using assms(1) by simp
  have code: "next_difficulty ts cds target = (if res > max128bit then Some 0 else Some (ucast res))"
    using w0
    unfolding next_difficulty_def window_resize [OF assms(1)] Let_def prod.case len if_False w
      res_def [symmetric] by simp
  have r: "unat res = (work * unat target + span - 1) div span"
    unfolding res_def by (subst ceil_256 [OF nz(2)]) (simp only: nz)
  have m: "unat max128bit = 2 ^ 128 - 1" by (simp add: max128bit_def mask_eq_exp_minus_1)
  have gt: "res > max128bit \<longleftrightarrow> \<not> unat res < 2 ^ 128"
    unfolding word_less_nat_alt m by auto
  have "ucast res = (word_of_nat (unat res) :: u128)"
    by (simp add: word_unat_eq_iff unsigned_ucast_eq unat_of_nat take_bit_eq_mod)
  then show ?thesis unfolding code gt r Let_def by simp
qed

lemma next_difficulty_64_eq:
  assumes "length cds = length ts" and "2 \<le> length ts" and "work_window ts cds = (work, span)"
    and "0 < work"
  shows "next_difficulty_64 ts cds target = Some (if work * unat target + span - 1 < 2 ^ 64
     then word_of_nat ((work * unat target + span - 1) div span) else 0)"
proof -
  obtain b e w s where w: "cut_range (length (take DIFFICULTY_WINDOW_V2 ts)) = (b, e)"
    "(length (take DIFFICULTY_WINDOW_V2 ts) \<le> 1) = False"
    "take DIFFICULTY_WINDOW_V2 cds ! (e - 1) - take DIFFICULTY_WINDOW_V2 cds ! b = w"
    "(if sort (take DIFFICULTY_WINDOW_V2 ts) ! (e - 1) - sort (take DIFFICULTY_WINDOW_V2 ts) ! b = 0 then 1
      else sort (take DIFFICULTY_WINDOW_V2 ts) ! (e - 1) - sort (take DIFFICULTY_WINDOW_V2 ts) ! b) = s"
    and nz: "unat w = work" "s \<noteq> 0" "unat s = span"
    by (rule work_windowE [OF assms(1-3)])
  have w0: "w \<noteq> 0" using nz(1) assms(4) by auto
  obtain low high where m: "mul w target = (low, high)" by fastforce
  note hz = wide.mul_high_zero [OF m [unfolded mul_def], unfolded nz]
  have len: "(length (take DIFFICULTY_WINDOW_V2 ts) \<noteq> length (take DIFFICULTY_WINDOW_V2 cds)) = False"
    using assms(1) by simp
  have code: "next_difficulty_64 ts cds target =
      (if high \<noteq> 0 \<or> low + s - 1 < low then Some 0 else Some ((low + s - 1) div s))"
    using w0
    unfolding next_difficulty_64_def window_resize [OF assms(1)] Let_def prod.case len if_False w m
    by simp
  have s1: "unat (s - 1) = span - 1" "1 \<le> span"
    using nz by (auto simp: unat_sub_nowrap unat_gt_0 Suc_le_eq)
  show ?thesis
  proof (cases "high = 0")
    case True
    then have low: "unat low = work * unat target" using hz by simp
    have eq: "low + s - 1 = low + (s - 1)" by simp
    have wrap: "low + s - 1 < low \<longleftrightarrow> 2 ^ 64 \<le> work * unat target + span - 1"
      using cadd_iff [of low "s - 1"] s1 unfolding eq cadd_def low by simp
    have q: "unat ((low + s - 1) div s) = (work * unat target + span - 1) div span"
      if "work * unat target + span - 1 < 2 ^ 64"
      using that s1 unfolding eq by (simp add: unat_div_distrib unat_add_nowrap low nz)
    have "(low + s - 1) div s = word_of_nat ((work * unat target + span - 1) div span)"
      if "work * unat target + span - 1 < 2 ^ 64"
      unfolding q [OF that, symmetric] by simp
    then show ?thesis unfolding code wrap using True by auto
  next
    case False
    then show ?thesis using hz s1 unfolding code by auto
  qed
qed

text \<open>
  C15. For vectors of equal length with at least two blocks and positive work in the cut window, the
  next difficulty is the work times the target spacing divided by the elapsed time, rounded up, and
  0 when that does not fit in 128 bits; the 256-bit intermediate value never wraps.
\<close>
theorem next_difficulty_correct:
  assumes "length cds = length ts" and "2 \<le> length ts" and "work_window ts cds = (work, span)"
    and "0 < work"
  shows "next_difficulty ts cds target = Some (let q = (work * unat target + span - 1) div span
     in if q < 2 ^ 128 then word_of_nat q else 0)"
  by (rule next_difficulty_eq [OF assms])

theorem next_difficulty_correct_witness: "next_difficulty [0, 240, 100] [10, 30, 70] 120 = Some 30"
proof -
  have "work_window [0, 240, 100] ([10, 30, 70] :: u128 list) = (60, 240)"
    by (simp add: work_window_def middle_def)
  from next_difficulty_correct [OF _ _ this, of 120] show ?thesis by simp
qed

lemma next_difficulty_64_work:
  assumes "length cds = length ts" and "2 \<le> length ts" and "next_difficulty_64 ts cds target = Some d"
    and "work_window ts cds = (work, span)"
  shows "0 < work"
proof (rule ccontr)
  assume "\<not> 0 < work"
  obtain b e w s where w: "cut_range (length (take DIFFICULTY_WINDOW_V2 ts)) = (b, e)"
    "(length (take DIFFICULTY_WINDOW_V2 ts) \<le> 1) = False"
    "take DIFFICULTY_WINDOW_V2 cds ! (e - 1) - take DIFFICULTY_WINDOW_V2 cds ! b = w" "unat w = work"
    using work_windowE [OF assms(1,2,4)] by metis
  then have "w = 0" using \<open>\<not> 0 < work\<close> by (simp add: unat_eq_zero)
  then have "next_difficulty_64 ts cds target = None"
    unfolding next_difficulty_64_def window_resize [OF assms(1)] Let_def prod.case w using assms(1) by simp
  with assms(3) show False by simp
qed

lemma work_window_ucast:
  assumes "sorted cds" and "length cds = length ts" and "2 \<le> length ts"
  shows "work_window ts (map ucast cds :: u128 list) = work_window ts (cds :: u64 list)"
proof -
  let ?n = "length (take DIFFICULTY_WINDOW_V2 ts)"
  obtain b e where cut: "cut_range ?n = (b, e)" by fastforce
  have n: "2 \<le> ?n" "?n \<le> DIFFICULTY_WINDOW_V2" using assms(3) by (auto simp: DIFFICULTY_WINDOW_V2_def)
  note be = cut_range_bounds [OF n cut]
  then have le: "cds ! b \<le> cds ! (e - 1)" and len: "b < length cds" "e - 1 < length cds"
    using assms by (auto intro: sorted_nth_mono)
  have u: "unat (ucast x :: u128) = unat x" for x :: u64
    using unat_u64_less [of x] by (simp add: unsigned_ucast_eq take_bit_nat_eq_self)
  have "unat (map ucast cds ! (e - 1) - map ucast cds ! b :: u128) = unat (cds ! (e - 1) - cds ! b)"
    using le len unfolding word_le_nat_alt by (simp add: unat_sub_nowrap u)
  then show ?thesis using work_window_cut [OF assms(2,3) cut] work_window_cut [of "map ucast cds :: u128 list", OF _ assms(3) cut] assms(2) by simp
qed

text \<open>
  C30. Whenever the 64-bit difficulty computation returns a nonzero difficulty for non-decreasing
  cumulative difficulties, the 128-bit computation returns the same difficulty.
\<close>
theorem next_difficulty_64_agrees:
  assumes "length cds = length ts" and "sorted cds"
    and "next_difficulty_64 ts cds target = Some d" and "d \<noteq> 0"
  shows "next_difficulty ts (map ucast cds) target = Some (ucast d)"
proof (cases "length ts \<le> 1")
  case True
  then show ?thesis using assms(1,3)
    by (auto simp: next_difficulty_def next_difficulty_64_def DIFFICULTY_WINDOW_V2_def)
next
  case False
  then have len: "2 \<le> length ts" by simp
  obtain work span where w: "work_window ts cds = (work, span)" by fastforce
  have pos: "0 < work" by (rule next_difficulty_64_work [OF assms(1) len assms(3) w])
  have "work * unat target + span - 1 < 2 ^ 64"
    and d: "d = word_of_nat ((work * unat target + span - 1) div span)"
    using next_difficulty_64_eq [OF assms(1) len w pos] assms(3,4) by (auto split: if_splits)
  then have q: "(work * unat target + span - 1) div span < 2 ^ 64"
    by (meson div_le_dividend le_less_trans)
  then have "ucast d = (word_of_nat ((work * unat target + span - 1) div span) :: u128)"
    unfolding d by (simp add: word_unat_eq_iff unsigned_ucast_eq unat_of_nat take_bit_nat_eq_self)
  then show ?thesis
    using next_difficulty_eq [of "map ucast cds" ts work span target] work_window_ucast [OF assms(2,1) len]
      assms(1) len w pos q by (simp add: Let_def)
qed

theorem next_difficulty_64_agrees_witness: "next_difficulty [0, 240, 100] [10, 30, 70] 120 = Some 30"
proof -
  have "next_difficulty_64 [0, 240, 100] [10, 30, 70] 120 = Some 30"
    by (simp add: next_difficulty_64_def mul_def mul128_def hi_dword_def lo_dword_def cut_range_def
        DIFFICULTY_WINDOW_V2_def DIFFICULTY_CUT_def)
  from next_difficulty_64_agrees [OF _ _ this] show ?thesis by simp
qed

end
