(* ===== verification/Varint.thy ===== *)
theory Varint
  imports Prelude
begin

text \<open>
  The variable-length integers of \<^verbatim>\<open>src/common/varint.h\<close>, at the width of \<open>uint64_t\<close>: seven bits
  per byte, least significant first, the top bit of a byte set when another byte follows.
\<close>

definition EVARINT_OVERFLOW :: int where "EVARINT_OVERFLOW = -1"
definition EVARINT_REPRESENT :: int where "EVARINT_REPRESENT = -2"

lemma shift_decreases: "i \<ge> 0x80 \<Longrightarrow> unat (drop_bit 7 i) < unat (i :: u64)"
  unfolding unat_drop_bit by (auto simp: word_le_nat_alt)

function write_varint :: "u64 \<Rightarrow> bytes" where
  "write_varint i =
     (if i \<ge> 0x80 then ((ucast i AND 0x7f) OR 0x80) # write_varint (drop_bit 7 i)
      else [ucast i])"
  by pat_completeness auto
termination by (relation "measure unat") (simp_all add: shift_decreases)

declare write_varint.simps [simp del]

text \<open>
  \<open>read_varint_loop bits shift read write input\<close> is the loop of \<open>read_varint\<close>: it returns the
  number of bytes read or an error code, the value left in \<open>write\<close>, and the input that is left.
\<close>

fun read_varint_loop :: "nat \<Rightarrow> nat \<Rightarrow> int \<Rightarrow> u64 \<Rightarrow> bytes \<Rightarrow> int \<times> u64 \<times> bytes" where
  "read_varint_loop bits shift read write [] = (read, write, [])"
| "read_varint_loop bits shift read write (byte # rest) =
     (let read = read + 1
      in if shift + 7 \<ge> bits \<and> unat byte \<ge> 2 ^ (bits - shift) then (EVARINT_OVERFLOW, write, rest)
         else if byte = 0 \<and> shift \<noteq> 0 then (EVARINT_REPRESENT, write, rest)
         else
           let write = write OR push_bit shift (ucast (byte AND 0x7f))
           in if byte AND 0x80 = 0 then (read, write, rest)
              else read_varint_loop bits (shift + 7) read write rest)"

definition read_varint :: "bytes \<Rightarrow> int \<times> u64 \<times> bytes" where
  "read_varint input = read_varint_loop 64 0 0 0 input"

section \<open>The bytes of a varint\<close>

lemma mask_7f: "unat (b AND 0x7f :: u8) = unat b mod 128"
proof -
  have "(0x7f :: u8) = mask 7" by (simp add: mask_eq_exp_minus_1)
  then show ?thesis using unat_and_mask [of b 7] by simp
qed

lemma high_bit: "b AND 0x80 = 0 \<longleftrightarrow> unat (b :: u8) < 128"
proof -
  have "(0x80 :: u8) = 2 ^ 7" by simp
  then have "b AND 0x80 = 0 \<longleftrightarrow> \<not> bit b 7"
    by (simp only: and_exp_eq_0_iff_not_bit)
  also have "bit b 7 \<longleftrightarrow> odd (unat b div 128)"
  proof -
    have "bit b 7 \<longleftrightarrow> bit (unat b) 7" by (simp add: bit_unsigned_iff)
    also have "\<dots> \<longleftrightarrow> odd (unat b div 2 ^ 7)" by (rule bit_iff_odd)
    finally show ?thesis by simp
  qed
  also have "\<dots> \<longleftrightarrow> \<not> unat b < 128" 
  proof (cases "unat b < 128")
    case False
    then have "unat b div 128 = 1" using unat_u8_less [of b] by (intro div_nat_eqI) simp_all
    then show ?thesis using False by simp
  qed simp
  finally show ?thesis by simp
qed

lemma continuation_byte:
  fixes i :: u64
  defines "b \<equiv> (ucast i AND 0x7f) OR 0x80 :: u8"
  shows "unat (b AND 0x7f) = unat i mod 128" and "b AND 0x80 \<noteq> 0" and "b \<noteq> 0"
proof -
  have m: "(0x7f :: u8) = mask 7" "(0x80 :: u8) = push_bit 7 1" by (simp_all add: mask_eq_exp_minus_1)
  have "b AND 0x7f = ucast i AND 0x7f"
    unfolding b_def m by (rule bit_word_eqI) (auto simp: bit_simps simp del: push_bit_of_1)
  then show "unat (b AND 0x7f) = unat i mod 128"
    by (simp add: mask_7f unsigned_ucast_eq take_bit_eq_mod mod_mod_cancel)
  have "bit (b AND 0x80) 7"
    unfolding b_def m by (simp add: bit_simps del: push_bit_of_1)
  then show "b AND 0x80 \<noteq> 0" by auto
  then show "b \<noteq> 0" by auto
qed

lemma last_byte:
  fixes i :: u64
  assumes "\<not> i \<ge> 0x80"
  shows "unat (ucast i :: u8) = unat i" and "unat (ucast i AND 0x7f :: u8) = unat i"
    and "(ucast i :: u8) AND 0x80 = 0"
proof -
  have lt: "unat i < 128" using assms by (simp add: word_le_nat_alt)
  then show u: "unat (ucast i :: u8) = unat i"
    by (simp add: unsigned_ucast_eq take_bit_nat_eq_self)
  show "unat (ucast i AND 0x7f :: u8) = unat i" using lt by (simp add: mask_7f u)
  show "(ucast i :: u8) AND 0x80 = 0" using lt by (simp add: high_bit u)
qed

text \<open>Placing seven more bits above the \<open>s\<close> bits already read.\<close>

lemma place_bits:
  fixes w :: u64 and b :: u8
  assumes "unat w < 2 ^ s" and "unat b * 2 ^ s < 2 ^ 64"
  shows "unat (w OR push_bit s (ucast b)) = unat w + unat b * 2 ^ s"
proof -
  have u: "unat (ucast b :: u64) = unat b"
    using unat_u8_less [of b] by (simp add: unsigned_ucast_eq take_bit_nat_eq_self)
  have p: "unat (push_bit s (ucast b :: u64)) = unat b * 2 ^ s"
    using assms(2) by (simp only: unat_push_bit u) simp
  have or: "push_bit s (ucast b) OR w = push_bit s (ucast b) + w"
    using assms(1) by (rule or_push_bit_low)
  have "unat b * 2 ^ s + unat w < 2 ^ 64"
  proof (cases "s < 64")
    case True
    then have e: "(2::nat) ^ 64 = 2 ^ (64 - s) * 2 ^ s" by (simp flip: power_add)
    then have "unat b < 2 ^ (64 - s)" using assms(2) by (simp only: mult_less_cancel2)
    then have "Suc (unat b) * 2 ^ s \<le> 2 ^ (64 - s) * 2 ^ s" by (intro mult_le_mono1) simp
    then show ?thesis using assms(1) unfolding e by simp
  next
    case False
    then have "(2::nat) ^ 64 \<le> 2 ^ s" by (intro power_increasing) simp_all
    then have "unat b = 0" using assms(2) by (cases "unat b") auto
    then show ?thesis using unat_u64_less [of w] by simp
  qed
  then have "unat (push_bit s (ucast b :: u64)) + unat w < 2 ^ LENGTH(64)" by (simp only: p) simp
  from unat_add_nowrap [OF this] have "unat (push_bit s (ucast b) + w) = unat w + unat b * 2 ^ s"
    by (simp only: p add.commute)
  moreover have "w OR push_bit s (ucast b) = push_bit s (ucast b) + w"
    by (subst or.commute) (rule or)
  ultimately show ?thesis by (simp only:)
qed

section \<open>Round trip\<close>

text \<open>The loop reads back what was written above the \<open>s\<close> bits that are already in \<open>w\<close>.\<close>

lemma read_write_loop:
  assumes "unat v * 2 ^ s < 2 ^ bits" and "unat w < 2 ^ s" and "s \<noteq> 0 \<Longrightarrow> v \<noteq> 0" and "s < bits" and "bits \<le> 64"
  shows "\<exists>r. read_varint_loop bits s n w (write_varint v @ rest) = (n + int (length (write_varint v)), r, rest)
    \<and> unat r = unat w + unat v * 2 ^ s"
  using assms
proof (induction v arbitrary: s n w rule: write_varint.induct)
  case (1 i)
  have fits: "(2::nat) ^ bits \<le> 2 ^ 64" using 1(6) by (intro power_increasing) simp_all
  show ?case
  proof (cases "i \<ge> 0x80")
    case True
    let ?b = "(ucast i AND 0x7f) OR 0x80 :: u8"
    have i128: "128 \<le> unat i" using True by (simp add: word_le_nat_alt)
    have room: "s + 7 < bits"
    proof (rule ccontr)
      assume "\<not> s + 7 < bits"
      then have "(2::nat) ^ bits \<le> 2 ^ (s + 7)" by (intro power_increasing) simp_all
      also have "\<dots> \<le> unat i * 2 ^ s" using i128 by (simp add: power_add)
      finally show False using 1(2) by simp
    qed
    define w' where "w' = w OR push_bit s (ucast (?b AND 0x7f))"
    have small: "unat i mod 128 * 2 ^ s < 2 ^ 64"
      using 1(2) fits mod_less_eq_dividend [of "unat i" 128] by (meson le_less_trans less_le_trans mult_le_mono1)
    have w': "unat w' = unat w + unat i mod 128 * 2 ^ s"
      unfolding w'_def using small 1(3) by (subst place_bits) (simp_all add: continuation_byte)
    have split: "unat i * 2 ^ s = unat (drop_bit 7 i) * 2 ^ (s + 7) + unat i mod 128 * 2 ^ s"
    proof -
      have "unat i * 2 ^ s = (unat i div 128 * 128 + unat i mod 128) * 2 ^ s" by (simp only: div_mult_mod_eq)
      then show ?thesis unfolding unat_drop_bit add_mult_distrib by (simp add: power_add)
    qed
    have lt: "unat w' < 2 ^ (s + 7)"
    proof -
      have e: "(2::nat) ^ 7 = 128" by simp
      have "Suc (unat i mod 128) * 2 ^ s \<le> 128 * 2 ^ s" by (intro mult_le_mono1) (simp add: Suc_leI)
      then show ?thesis using 1(3) unfolding w' power_add mult_Suc e mult.commute [of "2 ^ s" 128] by linarith
    qed
    have nz: "drop_bit 7 i \<noteq> 0" using i128 by (simp add: word_unat_eq_iff unat_drop_bit)
    obtain r where IH: "read_varint_loop bits (s + 7) (n + 1) w' (write_varint (drop_bit 7 i) @ rest)
        = (n + 1 + int (length (write_varint (drop_bit 7 i))), r, rest)"
      "unat r = unat w' + unat (drop_bit 7 i) * 2 ^ (s + 7)"
      using 1(1) [OF True, of "s + 7" w' "n + 1"] 1(2,6) lt nz room split by auto
    have "read_varint_loop bits s n w (write_varint i @ rest)
      = read_varint_loop bits (s + 7) (n + 1) w' (write_varint (drop_bit 7 i) @ rest)"
      using True room continuation_byte [of i]
      by (subst write_varint.simps) (simp add: w'_def Let_def)
    moreover have "length (write_varint i) = Suc (length (write_varint (drop_bit 7 i)))"
      using True by (subst write_varint.simps) simp
    ultimately show ?thesis using IH w' split by simp
  next
    case False
    note lb = last_byte [OF False]
    have ok: "\<not> (s + 7 \<ge> bits \<and> unat (ucast i :: u8) \<ge> 2 ^ (bits - s))" "\<not> ((ucast i :: u8) = 0 \<and> s \<noteq> 0)"
    proof -
      have "(2::nat) ^ bits = 2 ^ (bits - s) * 2 ^ s" using 1(5) by (simp flip: power_add)
      then have "unat i < 2 ^ (bits - s)" using 1(2) by (simp only: mult_less_cancel2)
      then show "\<not> (s + 7 \<ge> bits \<and> unat (ucast i :: u8) \<ge> 2 ^ (bits - s))" by (simp add: lb)
      show "\<not> ((ucast i :: u8) = 0 \<and> s \<noteq> 0)" using 1(4) lb(1) by (auto simp: word_unat_eq_iff)
    qed
    have "read_varint_loop bits s n w (write_varint i @ rest)
      = (n + 1, w OR push_bit s (ucast (ucast i AND 0x7f :: u8)), rest)"
      using False ok lb(3) by (subst write_varint.simps) (auto simp: Let_def)
    moreover have "unat (w OR push_bit s (ucast (ucast i AND 0x7f :: u8))) = unat w + unat i * 2 ^ s"
      using 1(2,3) fits by (subst place_bits) (simp_all add: lb)
    moreover have "length (write_varint i) = 1" using False by (subst write_varint.simps) simp
    ultimately show ?thesis by simp
  qed
qed

lemma read_varint_write_varint:
  "read_varint (write_varint v @ rest) = (int (length (write_varint v)), v, rest)"
  using read_write_loop [of v 0 64 0 0 rest] unat_u64_less [of v]
  by (auto simp: read_varint_def word_unat_eq_iff)

lemma write_varint_not_Nil [simp]: "write_varint v \<noteq> []"
  by (subst write_varint.simps) simp

lemma length_write_varint_le: "unat v < 128 ^ Suc k \<Longrightarrow> length (write_varint v) \<le> Suc k"
proof (induction k arbitrary: v)
  case 0
  then show ?case by (subst write_varint.simps) (simp add: word_le_nat_alt)
next
  case (Suc k)
  have "unat (drop_bit 7 v) < 128 ^ Suc k"
    using Suc.prems unfolding unat_drop_bit by (simp add: less_mult_imp_div_less mult.commute)
  then show ?case using Suc.IH [of "drop_bit 7 v"] by (subst write_varint.simps) simp
qed

lemma length_write_varint: "length (write_varint v) \<le> 10"
  using length_write_varint_le [of v 9] unat_u64_less [of v] by simp

section \<open>Only canonical varints are read\<close>

lemma unat_ucast_u8_u64: "unat (ucast (b :: u8) :: u64) = unat b"
  using unat_u8_less [of b] by (simp add: unsigned_ucast_eq take_bit_nat_eq_self)

lemma continuation_byte_val: "unat ((ucast (i :: u64) AND 0x7f) OR 0x80 :: u8) = 128 + unat i mod 128"
proof -
  have low: "unat (ucast i AND 0x7f :: u8) = unat i mod 128"
    by (simp add: mask_7f unsigned_ucast_eq take_bit_eq_mod mod_mod_cancel)
  have "push_bit 7 1 OR (ucast i AND 0x7f) = push_bit 7 1 + (ucast i AND 0x7f :: u8)"
    by (rule or_push_bit_low) (simp add: low)
  then have "(ucast i AND 0x7f) OR 0x80 = (0x80 + (ucast i AND 0x7f) :: u8)" by (subst or.commute) simp
  moreover have "unat (0x80 + (ucast i AND 0x7f) :: u8) = 128 + unat i mod 128"
    by (subst unat_add_nowrap) (simp_all add: low)
  ultimately show ?thesis by simp
qed

lemma write_varint_last:
  assumes "unat b < 128"
  shows "write_varint (ucast b) = [b :: u8]"
proof -
  have lt: "\<not> (ucast b :: u64) \<ge> 0x80" using assms by (simp add: word_le_nat_alt unat_ucast_u8_u64)
  then have "(ucast (ucast b :: u64) :: u8) = b"
    using last_byte(1) [OF lt] by (simp only: word_unat_eq_iff unat_ucast_u8_u64)
  then show ?thesis using lt by (subst write_varint.simps) simp
qed

lemma write_varint_more:
  fixes b :: u8 and u x :: u64
  assumes "128 \<le> unat b" and "u \<noteq> 0" and "unat x = unat u * 128 + unat b mod 128"
  shows "write_varint x = b # write_varint u"
proof -
  have "0 < unat u" using assms(2) by (simp add: unat_gt_0)
  then have ge: "x \<ge> 0x80" by (simp add: word_le_nat_alt assms(3))
  have "drop_bit 7 x = u" unfolding word_unat_eq_iff unat_drop_bit assms(3) by simp
  moreover have "(ucast x AND 0x7f) OR 0x80 = b"
  proof -
    have "unat b mod 128 = unat b - 128" using assms(1) unat_u8_less [of b] by (simp add: le_mod_geq)
    moreover have "unat x mod 128 = unat b mod 128" unfolding assms(3) by simp
    ultimately show ?thesis
      unfolding word_unat_eq_iff [of _ b] continuation_byte_val using assms(1) by simp
  qed
  ultimately show ?thesis
    using ge by (subst write_varint.simps) simp
qed

lemma read_loop_canonical:
  assumes "read_varint_loop 64 s n w bs = (m, v, rest)" and "0 < m" and "unat w < 2 ^ s" and "s \<le> 63"
  shows "(\<exists>u. unat v = unat w + unat u * 2 ^ s \<and> (s \<noteq> 0 \<longrightarrow> u \<noteq> 0) \<and> bs = write_varint u @ rest)
    \<or> rest = [] \<and> (bs = [] \<or> 128 \<le> unat (last bs))"
  using assms
proof (induction bs arbitrary: s n w)
  case (Cons b bs)
  have ov: "\<not> (s + 7 \<ge> 64 \<and> unat b \<ge> 2 ^ (64 - s))" and rep: "\<not> (b = 0 \<and> s \<noteq> 0)"
    using Cons.prems(1,2) by (auto simp: EVARINT_OVERFLOW_def EVARINT_REPRESENT_def Let_def split: if_splits)
  define w' where "w' = w OR push_bit s (ucast (b AND 0x7f))"
  have pow: "(2::nat) ^ 64 = 2 ^ (64 - s) * 2 ^ s" using Cons.prems(4) by (simp flip: power_add)
  show ?case
  proof (cases "b AND 0x80 = 0")
    case True
    then have b: "unat b < 128" by (simp add: high_bit)
    have "unat b < 2 ^ (64 - s)"
    proof (cases "s + 7 \<ge> 64")
      case False
      then have "(2::nat) ^ 7 \<le> 2 ^ (64 - s)" by (intro power_increasing) simp_all
      then show ?thesis using b by simp
    qed (use ov in simp)
    then have "unat b * 2 ^ s < 2 ^ 64" unfolding pow by simp
    then have w': "unat w' = unat w + unat b * 2 ^ s"
      unfolding w'_def using Cons.prems(3) b by (subst place_bits) (simp_all add: mask_7f)
    have "v = w'" "rest = bs" using Cons.prems(1) True ov rep by (auto simp: w'_def Let_def split: if_splits)
    moreover have "s \<noteq> 0 \<longrightarrow> (ucast b :: u64) \<noteq> 0"
      using rep by (auto simp: word_unat_eq_iff unat_ucast_u8_u64)
    ultimately show ?thesis
      using w' write_varint_last [OF b] by (intro disjI1 exI [of _ "ucast b"]) (simp add: unat_ucast_u8_u64)
  next
    case False
    then have b: "128 \<le> unat b" by (simp add: high_bit)
    have s57: "s < 57"
    proof (rule ccontr)
      assume "\<not> s < 57"
      then have "(2::nat) ^ (64 - s) \<le> 2 ^ 7" by (intro power_increasing) simp_all
      then show False using ov b \<open>\<not> s < 57\<close> by simp
    qed
    have "unat b mod 128 * 2 ^ s < 2 ^ 64"
    proof -
      have "(2::nat) ^ 7 \<le> 2 ^ (64 - s)" using s57 by (intro power_increasing) simp_all
      then have "unat b mod 128 < 2 ^ (64 - s)" using mod_less_divisor [of 128 "unat b"] by simp
      then show ?thesis unfolding pow by simp
    qed
    then have w': "unat w' = unat w + unat b mod 128 * 2 ^ s"
      unfolding w'_def using Cons.prems(3) by (subst place_bits) (simp_all add: mask_7f)
    have lt: "unat w' < 2 ^ (s + 7)"
    proof -
      have e: "(2::nat) ^ 7 = 128" by simp
      have "Suc (unat b mod 128) * 2 ^ s \<le> 128 * 2 ^ s" by (intro mult_le_mono1) (simp add: Suc_leI)
      then show ?thesis using Cons.prems(3)
        unfolding w' power_add mult_Suc e mult.commute [of "2 ^ s" 128] by linarith
    qed
    have "read_varint_loop 64 (s + 7) (n + 1) w' bs = (m, v, rest)"
      using Cons.prems(1) False ov rep by (auto simp: w'_def Let_def split: if_splits)
    from Cons.IH [OF this Cons.prems(2) lt] s57
    consider u where "unat v = unat w' + unat u * 2 ^ (s + 7)" "u \<noteq> 0" "bs = write_varint u @ rest"
      | "rest = []" "bs = [] \<or> 128 \<le> unat (last bs)" by auto
    then show ?thesis
    proof cases
      case 1
      define x :: u64 where "x = word_of_nat (unat u * 128 + unat b mod 128)"
      have v: "unat v = unat w + (unat u * 128 + unat b mod 128) * 2 ^ s"
        unfolding 1(1) w' by (simp add: power_add algebra_simps)
      have "unat u * 128 + unat b mod 128 \<le> (unat u * 128 + unat b mod 128) * 2 ^ s" by simp
      then have "unat u * 128 + unat b mod 128 < 18446744073709551616"
        using v unat_u64_less [of v] by linarith
      then have x: "unat x = unat u * 128 + unat b mod 128"
        unfolding x_def by (simp only: unat_of_nat) simp
      have "x \<noteq> 0" using 1(2) x by (auto simp: unat_eq_zero)
      then show ?thesis
        using v x write_varint_more [OF b 1(2) x] 1(3) by (intro disjI1 exI [of _ x]) simp
    next
      case 2
      then show ?thesis using b by auto
    qed
  qed
qed simp



end
