(* ===== verification/Archive.thy ===== *)
theory Archive
  imports Varint "HOL-Library.Monad_Syntax"
begin

text \<open>
  The binary archive of \<^verbatim>\<open>src/serialization\<close>: how integers, blobs, strings and vectors are written
  to and read from a byte stream (\<^verbatim>\<open>binary_archive.h\<close>, \<^verbatim>\<open>container.h\<close>, \<^verbatim>\<open>string.h\<close>).
  A reader maps the bytes that are left to the value and the bytes left after it. It is
  \<^const>\<open>None\<close> when the code returns \<open>false\<close> or leaves the stream not \<open>good()\<close>; every caller tests
  both. A varint is read straight from the stream buffer, its error code is dropped, as in the code.
\<close>

type_synonym 'a reader = "bytes \<Rightarrow> ('a \<times> bytes) option"

definition serialize_blob_load :: "nat \<Rightarrow> bytes reader" where
  "serialize_blob_load len bs = (if length bs < len then None else Some (take len bs, drop len bs))"

text \<open>\<open>serialize_uint\<close>: the little-endian bytes of an unsigned integer, added up with growing shifts.\<close>

definition serialize_uint_load :: "nat \<Rightarrow> 'a::len word reader" where
  "serialize_uint_load width bs =
     (if length bs < width then None
      else Some (fst (fold (\<lambda>b (ret, shift). (ret + push_bit shift (ucast b), shift + 8)) (take width bs) (0, 0)),
                 drop width bs))"

fun serialize_uint_store :: "nat \<Rightarrow> 'a::len word \<Rightarrow> bytes" where
  "serialize_uint_store 0 v = []"
| "serialize_uint_store (Suc width) v = ucast (v AND 0xff) # serialize_uint_store width (drop_bit 8 v)"

definition serialize_uvarint_load :: "u64 reader" where
  "serialize_uvarint_load bs = (let (_, v, rest) = read_varint bs in Some (v, rest))"

definition string_load :: "bytes reader" where
  "string_load bs = do {
     (size, rest) \<leftarrow> serialize_uvarint_load bs;
     if length rest < unat size then None else serialize_blob_load (unat size) rest
   }"

definition string_store :: "bytes \<Rightarrow> bytes" where
  "string_store str = write_varint (word_of_nat (length str)) @ str"

primrec load_elements :: "'a reader \<Rightarrow> nat \<Rightarrow> 'a list reader" where
  "load_elements elem 0 bs = Some ([], bs)"
| "load_elements elem (Suc n) bs = do {
     (e, rest) \<leftarrow> elem bs;
     (es, rest) \<leftarrow> load_elements elem n rest;
     Some (e # es, rest)
   }"

definition do_serialize_container_load :: "'a reader \<Rightarrow> 'a list reader" where
  "do_serialize_container_load elem bs = do {
     (cnt, rest) \<leftarrow> serialize_uvarint_load bs;
     if length rest < unat cnt then None else load_elements elem (unat cnt) rest
   }"

definition do_serialize_container_store :: "('a \<Rightarrow> bytes) \<Rightarrow> 'a list \<Rightarrow> bytes" where
  "do_serialize_container_store elem v = write_varint (word_of_nat (length v)) @ concat (map elem v)"

section \<open>The contract of a serialised type\<close>

text \<open>
  A pair of a writer and a reader on the values the format can represent: what is written is read
  back, whatever follows it. Vectors of such a type have the same contract.
\<close>

locale codec =
  fixes store :: "'a \<Rightarrow> bytes" and load :: "'a reader" and valid :: "'a \<Rightarrow> bool"
  assumes load_store: "valid x \<Longrightarrow> load (store x @ rest) = Some (x, rest)"

locale element_codec = codec +
  assumes store_nonempty: "valid x \<Longrightarrow> store x \<noteq> []"
begin

lemma load_elements_store:
  "\<forall>x \<in> set xs. valid x \<Longrightarrow> load_elements load (length xs) (concat (map store xs) @ rest) = Some (xs, rest)"
  by (induction xs) (simp_all add: load_store)

lemma length_concat_store: "\<forall>x \<in> set xs. valid x \<Longrightarrow> length xs \<le> length (concat (map store xs))"
proof (induction xs)
  case (Cons x xs)
  then have "Suc 0 \<le> length (store x)" using store_nonempty by (simp add: Suc_leI)
  then show ?case using Cons by simp
qed simp

lemma container_round_trip:
  assumes "\<forall>x \<in> set xs. valid x" and "length xs < 2 ^ 64"
  shows "do_serialize_container_load load (do_serialize_container_store store xs @ rest) = Some (xs, rest)"
proof -
  have "unat (word_of_nat (length xs) :: u64) = length xs"
    using assms(2) by (simp only: unat_of_nat) simp
  then show ?thesis
    using assms(1) length_concat_store [of xs]
    by (simp add: do_serialize_container_load_def do_serialize_container_store_def
        serialize_uvarint_load_def read_varint_write_varint load_elements_store)
qed

end

section \<open>Integers, blobs and strings\<close>

lemma blob_round_trip: "length b = n \<Longrightarrow> serialize_blob_load n (b @ rest) = Some (b, rest)"
  by (auto simp: serialize_blob_load_def)

lemma string_round_trip:
  assumes "length s < 2 ^ 64"
  shows "string_load (string_store s @ rest) = Some (s, rest)"
proof -
  have "unat (word_of_nat (length s) :: u64) = length s"
    using assms by (simp only: unat_of_nat) simp
  then show ?thesis
    by (simp add: string_load_def string_store_def serialize_uvarint_load_def read_varint_write_varint blob_round_trip)
qed

lemma length_uint_store [simp]: "length (serialize_uint_store n v) = n"
  by (induction n arbitrary: v) simp_all

lemma fold_shift_add:
  "fold (\<lambda>b (ret, shift). (ret + push_bit shift (ucast (b :: u8)), shift + 8)) bs (r, s)
   = (r + push_bit s (word_of_nat (le_val bs)) :: 'a::len word, s + 8 * length bs)"
proof (induction bs arbitrary: r s)
  case (Cons b bs)
  have "push_bit s (word_of_nat (unat b + 256 * le_val bs)) 
      = push_bit s (ucast b) + push_bit (s + 8) (word_of_nat (le_val bs) :: 'a word)"
    by (simp add: push_bit_eq_mult algebra_simps power_add)
  then show ?case by (simp add: Cons.IH algebra_simps)
qed simp

lemma unat_low_byte: "unat (ucast (v AND 0xff) :: u8) = unat (v :: 'a::len word) mod 256"
proof -
  have m: "(0xff :: 'a word) = mask 8" by (simp add: mask_eq_exp_minus_1)
  have "(ucast (v AND 0xff) :: u8) = ucast v"
    unfolding m by (rule bit_word_eqI) (auto simp: bit_simps dest: bit_imp_le_length)
  then show ?thesis by (simp add: unsigned_ucast_eq take_bit_eq_mod)
qed

lemma le_val_uint_store: "le_val (serialize_uint_store n v) = unat (v :: 'a::len word) mod 256 ^ n"
proof (induction n arbitrary: v)
  case (Suc n)
  show ?case
    using Suc.IH [of "drop_bit 8 v"]
    by (simp only: serialize_uint_store.simps le_val_simps unat_low_byte unat_drop_bit)
      (simp add: mod_mult2_eq)
qed simp

lemma uint_round_trip:
  fixes v :: "'a::len word"
  assumes "LENGTH('a) \<le> 8 * n"
  shows "serialize_uint_load n (serialize_uint_store n v @ rest) = Some (v, rest)"
proof -
  have "unat v < 2 ^ LENGTH('a)" by (rule unsigned_less)
  also have "\<dots> \<le> 2 ^ (8 * n)" using assms by (rule power_increasing) simp
  finally have "le_val (serialize_uint_store n v) = unat v"
    by (simp add: le_val_uint_store power_mult)
  then show ?thesis by (simp add: serialize_uint_load_def fold_shift_add)
qed

text \<open>The element types of the vectors that occur: keys and other blobs, and varints.\<close>

lemma varint_round_trip_reader: "serialize_uvarint_load (write_varint v @ rest) = Some (v, rest)"
  by (simp add: serialize_uvarint_load_def read_varint_write_varint)

interpretation varint_codec: element_codec write_varint serialize_uvarint_load "\<lambda>_. True"
  by unfold_locales (simp_all add: varint_round_trip_reader)

interpretation key_codec: element_codec "\<lambda>k. k" "serialize_blob_load 32" "\<lambda>k. length k = 32"
  by unfold_locales (auto simp: blob_round_trip)

interpretation string_codec: codec string_store string_load "\<lambda>s. length s < 2 ^ 64"
  by unfold_locales (rule string_round_trip)

section \<open>Readers never give bytes back\<close>

definition consuming :: "'a reader \<Rightarrow> bool" where
  "consuming r \<longleftrightarrow> (\<forall>bs x rest. r bs = Some (x, rest) \<longrightarrow> length rest \<le> length bs)"

named_theorems consuming_intros \<open>readers that are consuming\<close>

lemma consumingD: "consuming r \<Longrightarrow> r bs = Some (x, rest) \<Longrightarrow> length rest \<le> length bs"
  by (auto simp: consuming_def)

lemma read_varint_loop_rest: "read_varint_loop bits s n w bs = (m, v, rest) \<Longrightarrow> length rest \<le> length bs"
  by (induction bits s n w bs rule: read_varint_loop.induct) (fastforce simp: Let_def split: if_splits)+

lemma consuming_basic [consuming_intros]:
  "consuming (serialize_blob_load n)" "consuming (serialize_uint_load n)"
  "consuming serialize_uvarint_load"
  by (auto simp: consuming_def serialize_blob_load_def serialize_uint_load_def serialize_uvarint_load_def
      read_varint_def dest!: read_varint_loop_rest split: if_splits prod.splits)

lemma consuming_bind [consuming_intros]:
  assumes "consuming r" and "\<And>x. consuming (f x)"
  shows "consuming (\<lambda>bs. r bs \<bind> (\<lambda>(x, rest). f x rest))"
  using assms unfolding consuming_def by (force simp: bind_eq_Some_conv)

lemma consuming_return [consuming_intros]: "consuming (\<lambda>bs. Some (x, bs))"
  by (simp add: consuming_def)

lemma consuming_guard [consuming_intros]: "consuming r \<Longrightarrow> consuming (\<lambda>bs. if P bs then None else r bs)"
  by (simp add: consuming_def)

lemma consuming_string [consuming_intros]: "consuming string_load"
  unfolding string_load_def by (intro consuming_intros)

lemma consuming_elements: "consuming r \<Longrightarrow> consuming (load_elements r n)"
proof (induction n)
  case (Suc n)
  then show ?case unfolding consuming_def by (force simp: bind_eq_Some_conv)
qed (simp add: consuming_def)

lemma consuming_container [consuming_intros]: "consuming r \<Longrightarrow> consuming (do_serialize_container_load r)"
  unfolding do_serialize_container_load_def by (intro consuming_intros consuming_elements)

end
