(* ===== verification/TxExtra.thy ===== *)
theory TxExtra
  imports Archive
begin

text \<open>
  The extra field of a transaction (\<^verbatim>\<open>src/cryptonote_basic/tx_extra.h\<close> and the \<open>tx_extra\<close> functions of
  \<^verbatim>\<open>cryptonote_format_utils.cpp\<close>): a sequence of tagged records in a byte string, its parser, the
  functions that add, find, sort and remove records. Keys, hashes, key images and signatures are the
  bytes of their structs.
\<close>

type_synonym crypto_hash = bytes
type_synonym public_key = bytes
type_synonym secret_key = bytes
type_synonym key_image = bytes
type_synonym signature = bytes

record account_public_address =
  m_spend_public_key :: public_key
  m_view_public_key :: public_key

definition null_pkey :: public_key where "null_pkey = replicate 32 0"

record deregister_tx_vote =
  signature :: signature
  voters_quorum_index :: u32

record tx_extra_full_node_register =
  m_public_spend_keys :: "public_key list"
  m_public_view_keys :: "public_key list"
  m_portions_for_operator :: u64
  m_portions :: "u64 list"
  m_expiration_timestamp :: u64
  m_full_node_signature :: signature

record tx_extra_full_node_deregister =
  dereg_block_height :: u64
  dereg_full_node_index :: u32
  dereg_votes :: "deregister_tx_vote list"

record key_image_proof =
  proof_key_image :: key_image
  proof_signature :: signature

record tx_extra_tx_key_image_unlock =
  unlock_key_image :: key_image
  unlock_signature :: signature
  unlock_nonce :: u32

text \<open>The variant \<open>tx_extra_field\<close>, its alternatives in the order of the \<open>typedef\<close>.\<close>

datatype tx_extra_field =
    Padding nat
  | PubKey public_key
  | Nonce bytes
  | MergeMiningTag u64 crypto_hash
  | AdditionalPubKeys "public_key list"
  | MysteriousMinergate bytes
  | FullNodePubkey public_key
  | FullNodeRegister tx_extra_full_node_register
  | FullNodeContributor public_key public_key
  | FullNodeWinner public_key
  | FullNodeDeregister tx_extra_full_node_deregister
  | TxSecretKey secret_key
  | TxKeyImageProofs "key_image_proof list"
  | TxKeyImageUnlock tx_extra_tx_key_image_unlock
  | ArticleInfo bytes bytes bytes

definition TX_EXTRA_PADDING_MAX_COUNT :: nat where "TX_EXTRA_PADDING_MAX_COUNT = 255"
definition TX_EXTRA_NONCE_MAX_COUNT :: nat where "TX_EXTRA_NONCE_MAX_COUNT = 255"

fun get_tag :: "tx_extra_field \<Rightarrow> u8" where
  "get_tag (Padding _) = 0x00"
| "get_tag (PubKey _) = 0x01"
| "get_tag (Nonce _) = 0x02"
| "get_tag (MergeMiningTag _ _) = 0x03"
| "get_tag (AdditionalPubKeys _) = 0x04"
| "get_tag (FullNodeRegister _) = 0x70"
| "get_tag (FullNodeDeregister _) = 0x71"
| "get_tag (FullNodeWinner _) = 0x72"
| "get_tag (FullNodeContributor _ _) = 0x73"
| "get_tag (FullNodePubkey _) = 0x74"
| "get_tag (TxSecretKey _) = 0x75"
| "get_tag (TxKeyImageProofs _) = 0x76"
| "get_tag (TxKeyImageUnlock _) = 0x77"
| "get_tag (ArticleInfo _ _ _) = 0x78"
| "get_tag (MysteriousMinergate _) = 0xDE"

section \<open>Writing a field\<close>

text \<open>
  \<open>vote\<close> and \<open>proof\<close> are blobs: the bytes of the struct, the \<open>uint32_t\<close> of a vote in memory order.
\<close>

definition vote_store :: "deregister_tx_vote \<Rightarrow> bytes" where
  "vote_store v = signature v @ serialize_uint_store 4 (voters_quorum_index v)"

definition proof_store :: "key_image_proof \<Rightarrow> bytes" where
  "proof_store p = proof_key_image p @ proof_signature p"

text \<open>The \<open>do_serialize\<close> of each alternative for a saving archive; \<^const>\<open>None\<close> is \<open>return false\<close>.\<close>

fun store_body :: "tx_extra_field \<Rightarrow> bytes option" where
  "store_body (Padding n) =
     (if TX_EXTRA_PADDING_MAX_COUNT < n then None else Some (replicate (n - 1) 0))"
| "store_body (PubKey pub_key) = Some pub_key"
| "store_body (Nonce nonce) =
     (if TX_EXTRA_NONCE_MAX_COUNT < length nonce then None else Some (string_store nonce))"
| "store_body (MergeMiningTag depth merkle_root) = Some (string_store (write_varint depth @ merkle_root))"
| "store_body (AdditionalPubKeys data) = Some (do_serialize_container_store (\<lambda>k. k) data)"
| "store_body (MysteriousMinergate data) = Some (string_store data)"
| "store_body (FullNodePubkey key) = Some key"
| "store_body (FullNodeRegister r) = Some (
     do_serialize_container_store (\<lambda>k. k) (m_public_spend_keys r) @
     do_serialize_container_store (\<lambda>k. k) (m_public_view_keys r) @
     serialize_uint_store 8 (m_portions_for_operator r) @
     do_serialize_container_store write_varint (m_portions r) @
     serialize_uint_store 8 (m_expiration_timestamp r) @
     m_full_node_signature r)"
| "store_body (FullNodeContributor spend view) = Some (spend @ view)"
| "store_body (FullNodeWinner key) = Some key"
| "store_body (FullNodeDeregister d) = Some (
     serialize_uint_store 8 (dereg_block_height d) @
     serialize_uint_store 4 (dereg_full_node_index d) @
     do_serialize_container_store vote_store (dereg_votes d))"
| "store_body (TxSecretKey key) = Some key"
| "store_body (TxKeyImageProofs proofs) = Some (do_serialize_container_store proof_store proofs)"
| "store_body (TxKeyImageUnlock u) = Some (
     unlock_key_image u @ unlock_signature u @ serialize_uint_store 4 (unlock_nonce u))"
| "store_body (ArticleInfo title content publisher) =
     Some (string_store title @ string_store content @ string_store publisher)"

definition store_field :: "tx_extra_field \<Rightarrow> bytes option" where
  "store_field f = map_option (\<lambda>body. get_tag f # body) (store_body f)"

section \<open>Reading a field\<close>

text \<open>The loop of \<open>tx_extra_padding\<close> from a given \<open>size\<close>, over the bytes that are left.\<close>

fun load_padding :: "nat \<Rightarrow> tx_extra_field reader" where
  "load_padding n [] =
     (if n \<le> TX_EXTRA_PADDING_MAX_COUNT then Some (Padding n, []) else None)"
| "load_padding n (zero # rest) =
     (if \<not> n \<le> TX_EXTRA_PADDING_MAX_COUNT then None
      else if 0 \<noteq> zero then None
      else load_padding (n + 1) rest)"

definition load_nonce :: "tx_extra_field reader" where
  "load_nonce bs = do {
     (nonce, rest) \<leftarrow> string_load bs;
     if TX_EXTRA_NONCE_MAX_COUNT < length nonce then None else Some (Nonce nonce, rest)
   }"

text \<open>The tag's string is read by an archive of its own, which must be at its end afterwards.\<close>

definition load_merge_mining_tag :: "tx_extra_field reader" where
  "load_merge_mining_tag bs = do {
     (field, rest) \<leftarrow> string_load bs;
     (depth, inner) \<leftarrow> serialize_uvarint_load field;
     (merkle_root, inner) \<leftarrow> serialize_blob_load 32 inner;
     if inner \<noteq> [] then None else Some (MergeMiningTag depth merkle_root, rest)
   }"

definition load_register :: "tx_extra_field reader" where
  "load_register bs = do {
     (spend_keys, bs) \<leftarrow> do_serialize_container_load (serialize_blob_load 32) bs;
     (view_keys, bs) \<leftarrow> do_serialize_container_load (serialize_blob_load 32) bs;
     (for_operator, bs) \<leftarrow> serialize_uint_load 8 bs;
     (portions, bs) \<leftarrow> do_serialize_container_load serialize_uvarint_load bs;
     (expiration, bs) \<leftarrow> serialize_uint_load 8 bs;
     (sig, bs) \<leftarrow> serialize_blob_load 64 bs;
     Some (FullNodeRegister \<lparr>m_public_spend_keys = spend_keys, m_public_view_keys = view_keys,
       m_portions_for_operator = for_operator, m_portions = portions,
       m_expiration_timestamp = expiration, m_full_node_signature = sig\<rparr>, bs)
   }"

definition vote_load :: "deregister_tx_vote reader" where
  "vote_load bs = do {
     (sig, bs) \<leftarrow> serialize_blob_load 64 bs;
     (index, bs) \<leftarrow> serialize_uint_load 4 bs;
     Some (\<lparr>signature = sig, voters_quorum_index = index\<rparr>, bs)
   }"

definition load_deregister :: "tx_extra_field reader" where
  "load_deregister bs = do {
     (height, bs) \<leftarrow> serialize_uint_load 8 bs;
     (index, bs) \<leftarrow> serialize_uint_load 4 bs;
     (votes, bs) \<leftarrow> do_serialize_container_load vote_load bs;
     Some (FullNodeDeregister \<lparr>dereg_block_height = height, dereg_full_node_index = index,
       dereg_votes = votes\<rparr>, bs)
   }"

definition proof_load :: "key_image_proof reader" where
  "proof_load bs = do {
     (image, bs) \<leftarrow> serialize_blob_load 32 bs;
     (sig, bs) \<leftarrow> serialize_blob_load 64 bs;
     Some (\<lparr>proof_key_image = image, proof_signature = sig\<rparr>, bs)
   }"

definition load_unlock :: "tx_extra_field reader" where
  "load_unlock bs = do {
     (image, bs) \<leftarrow> serialize_blob_load 32 bs;
     (sig, bs) \<leftarrow> serialize_blob_load 64 bs;
     (nonce, bs) \<leftarrow> serialize_uint_load 4 bs;
     Some (TxKeyImageUnlock \<lparr>unlock_key_image = image, unlock_signature = sig, unlock_nonce = nonce\<rparr>, bs)
   }"

definition load_article_info :: "tx_extra_field reader" where
  "load_article_info bs = do {
     (title, bs) \<leftarrow> string_load bs;
     (content, bs) \<leftarrow> string_load bs;
     (publisher, bs) \<leftarrow> string_load bs;
     Some (ArticleInfo title content publisher, bs)
   }"

definition load_as :: "('a \<Rightarrow> tx_extra_field) \<Rightarrow> 'a reader \<Rightarrow> tx_extra_field reader" where
  "load_as C r bs = do { (x, rest) \<leftarrow> r bs; Some (C x, rest) }"

text \<open>\<open>variant_reader\<close>: the tag selects the alternative, an unknown tag fails.\<close>

definition load_body :: "u8 \<Rightarrow> tx_extra_field reader" where
  "load_body tag =
     (if tag = 0x00 then load_padding 1
      else if tag = 0x01 then load_as PubKey (serialize_blob_load 32)
      else if tag = 0x02 then load_nonce
      else if tag = 0x03 then load_merge_mining_tag
      else if tag = 0x04 then load_as AdditionalPubKeys (do_serialize_container_load (serialize_blob_load 32))
      else if tag = 0xDE then load_as MysteriousMinergate string_load
      else if tag = 0x74 then load_as FullNodePubkey (serialize_blob_load 32)
      else if tag = 0x70 then load_register
      else if tag = 0x73 then (\<lambda>bs. do {
        (spend, bs) \<leftarrow> serialize_blob_load 32 bs;
        (view, bs) \<leftarrow> serialize_blob_load 32 bs;
        Some (FullNodeContributor spend view, bs) })
      else if tag = 0x72 then load_as FullNodeWinner (serialize_blob_load 32)
      else if tag = 0x71 then load_deregister
      else if tag = 0x75 then load_as TxSecretKey (serialize_blob_load 32)
      else if tag = 0x76 then load_as TxKeyImageProofs (do_serialize_container_load proof_load)
      else if tag = 0x77 then load_unlock
      else if tag = 0x78 then load_article_info
      else (\<lambda>bs. None))"

fun load_field :: "tx_extra_field reader" where
  "load_field [] = None"
| "load_field (tag # rest) = load_body tag rest"

lemma consuming_padding: "load_padding n bs = Some (f, rest) \<Longrightarrow> length rest \<le> length bs"
  by (induction n bs rule: load_padding.induct) (auto split: if_splits)

lemma consuming_body: "consuming (load_body tag)"
proof -
  have "consuming (load_padding 1)" using consuming_padding by (auto simp: consuming_def)
  moreover have "consuming vote_load" "consuming proof_load" "consuming load_unlock" "consuming load_article_info"
    unfolding vote_load_def proof_load_def load_unlock_def load_article_info_def by (intro consuming_intros)+
  moreover have "consuming load_nonce"
    unfolding load_nonce_def by (intro consuming_intros)
  moreover have "consuming load_merge_mining_tag"
    using consumingD [OF consuming_string]
    by (fastforce simp: load_merge_mining_tag_def consuming_def bind_eq_Some_conv split: if_splits)
  ultimately show ?thesis
    unfolding load_body_def load_as_def load_register_def load_deregister_def
    by (auto intro!: consuming_intros simp: consuming_def [where r = "\<lambda>_. None"])
qed

lemma load_field_shorter: "load_field bs = Some (f, rest) \<Longrightarrow> length rest < length bs"
  using consumingD [OF consuming_body] by (cases bs) (auto simp: less_Suc_eq_le)

section \<open>Parsing and editing\<close>

text \<open>
  The loop of \<open>parse_tx_extra\<close>: whether every field could be read, the fields read until then, and
  the bytes that were not parsed.
\<close>

function parse_loop :: "bytes \<Rightarrow> bool \<times> tx_extra_field list \<times> bytes" where
  "parse_loop bs = (case load_field bs of
       None \<Rightarrow> (False, [], bs)
     | Some (field, rest) \<Rightarrow>
         if rest = [] then (True, [field], [])
         else let (r, fs, unparsed) = parse_loop rest in (r, field # fs, unparsed))"
  by pat_completeness auto
termination by (relation "measure length") (auto dest: load_field_shorter)

declare parse_loop.simps [simp del]

definition parse_tx_extra :: "bytes \<Rightarrow> bool \<times> tx_extra_field list" where
  "parse_tx_extra tx_extra =
     (if tx_extra = [] then (True, [])
      else let (r, fs, _) = parse_loop tx_extra in (r, fs))"

text \<open>The \<open>index\<close>-th field of a type; \<open>sel\<close> is the cast to that type.\<close>

definition find_tx_extra_field_by_type :: "(tx_extra_field \<Rightarrow> 'a option) \<Rightarrow> tx_extra_field list \<Rightarrow> nat \<Rightarrow> 'a option" where
  "find_tx_extra_field_by_type sel fs index =
     (let found = List.map_filter sel fs
      in if index < length found then Some (found ! index) else None)"

definition get_tx_pub_key_from_extra :: "bytes \<Rightarrow> nat \<Rightarrow> public_key" where
  "get_tx_pub_key_from_extra tx_extra pk_index =
     (case find_tx_extra_field_by_type (\<lambda>f. case f of PubKey k \<Rightarrow> Some k | _ \<Rightarrow> None)
         (snd (parse_tx_extra tx_extra)) pk_index of
        None \<Rightarrow> null_pkey
      | Some pub_key \<Rightarrow> pub_key)"

definition get_additional_tx_pub_keys_from_extra :: "bytes \<Rightarrow> public_key list" where
  "get_additional_tx_pub_keys_from_extra tx_extra =
     (case find_tx_extra_field_by_type (\<lambda>f. case f of AdditionalPubKeys ks \<Rightarrow> Some ks | _ \<Rightarrow> None)
         (snd (parse_tx_extra tx_extra)) 0 of
        None \<Rightarrow> []
      | Some data \<Rightarrow> data)"

definition get_full_node_pubkey_from_tx_extra :: "bytes \<Rightarrow> public_key option" where
  "get_full_node_pubkey_from_tx_extra tx_extra =
     find_tx_extra_field_by_type (\<lambda>f. case f of FullNodePubkey k \<Rightarrow> Some k | _ \<Rightarrow> None)
       (snd (parse_tx_extra tx_extra)) 0"

definition get_tx_secret_key_from_tx_extra :: "bytes \<Rightarrow> secret_key option" where
  "get_tx_secret_key_from_tx_extra tx_extra =
     find_tx_extra_field_by_type (\<lambda>f. case f of TxSecretKey k \<Rightarrow> Some k | _ \<Rightarrow> None)
       (snd (parse_tx_extra tx_extra)) 0"

definition get_tx_key_image_proofs_from_tx_extra :: "bytes \<Rightarrow> key_image_proof list option" where
  "get_tx_key_image_proofs_from_tx_extra tx_extra =
     find_tx_extra_field_by_type (\<lambda>f. case f of TxKeyImageProofs ps \<Rightarrow> Some ps | _ \<Rightarrow> None)
       (snd (parse_tx_extra tx_extra)) 0"

definition get_tx_key_image_unlock_from_tx_extra :: "bytes \<Rightarrow> tx_extra_tx_key_image_unlock option" where
  "get_tx_key_image_unlock_from_tx_extra tx_extra =
     find_tx_extra_field_by_type (\<lambda>f. case f of TxKeyImageUnlock u \<Rightarrow> Some u | _ \<Rightarrow> None)
       (snd (parse_tx_extra tx_extra)) 0"

definition get_full_node_contributor_from_tx_extra :: "bytes \<Rightarrow> account_public_address option" where
  "get_full_node_contributor_from_tx_extra tx_extra =
     map_option (\<lambda>(spend, view). \<lparr>m_spend_public_key = spend, m_view_public_key = view\<rparr>)
       (find_tx_extra_field_by_type (\<lambda>f. case f of FullNodeContributor s v \<Rightarrow> Some (s, v) | _ \<Rightarrow> None)
          (snd (parse_tx_extra tx_extra)) 0)"

definition get_full_node_register_from_tx_extra :: "bytes \<Rightarrow> tx_extra_full_node_register option" where
  "get_full_node_register_from_tx_extra tx_extra = do {
     registration \<leftarrow> find_tx_extra_field_by_type (\<lambda>f. case f of FullNodeRegister r \<Rightarrow> Some r | _ \<Rightarrow> None)
       (snd (parse_tx_extra tx_extra)) 0;
     if length (m_public_spend_keys registration) = length (m_public_view_keys registration)
     then Some registration else None
   }"

definition get_full_node_deregister_from_tx_extra :: "bytes \<Rightarrow> tx_extra_full_node_deregister option" where
  "get_full_node_deregister_from_tx_extra tx_extra =
     find_tx_extra_field_by_type (\<lambda>f. case f of FullNodeDeregister d \<Rightarrow> Some d | _ \<Rightarrow> None)
       (snd (parse_tx_extra tx_extra)) 0"

definition get_full_node_winner_from_tx_extra :: "bytes \<Rightarrow> public_key" where
  "get_full_node_winner_from_tx_extra tx_extra =
     (case find_tx_extra_field_by_type (\<lambda>f. case f of FullNodeWinner k \<Rightarrow> Some k | _ \<Rightarrow> None)
         (snd (parse_tx_extra tx_extra)) 0 of
        None \<Rightarrow> null_pkey
      | Some key \<Rightarrow> key)"

definition add_data_to_tx_extra :: "bytes \<Rightarrow> bytes \<Rightarrow> u8 \<Rightarrow> bytes" where
  "add_data_to_tx_extra tx_extra data tag = tx_extra @ tag # data"

definition add_tx_pub_key_to_extra :: "bytes \<Rightarrow> public_key \<Rightarrow> bytes" where
  "add_tx_pub_key_to_extra tx_extra tx_pub_key = add_data_to_tx_extra tx_extra tx_pub_key 0x01"

definition add_full_node_pubkey_to_tx_extra :: "bytes \<Rightarrow> public_key \<Rightarrow> bytes" where
  "add_full_node_pubkey_to_tx_extra tx_extra pubkey = add_data_to_tx_extra tx_extra pubkey 0x74"

definition add_full_node_contributor_to_tx_extra :: "bytes \<Rightarrow> account_public_address \<Rightarrow> bytes" where
  "add_full_node_contributor_to_tx_extra tx_extra address =
     add_data_to_tx_extra tx_extra (m_spend_public_key address @ m_view_public_key address) 0x73"

definition add_tx_secret_key_to_tx_extra :: "bytes \<Rightarrow> secret_key \<Rightarrow> bytes" where
  "add_tx_secret_key_to_tx_extra tx_extra key = add_data_to_tx_extra tx_extra key 0x75"

definition add_full_node_winner_to_tx_extra :: "bytes \<Rightarrow> public_key \<Rightarrow> bytes" where
  "add_full_node_winner_to_tx_extra tx_extra winner = add_data_to_tx_extra tx_extra winner 0x72"

definition add_tx_extra_field_to_tx_extra :: "bytes \<Rightarrow> tx_extra_field \<Rightarrow> bytes option" where
  "add_tx_extra_field_to_tx_extra tx_extra field = map_option (\<lambda>b. tx_extra @ b) (store_field field)"

definition add_extra_nonce_to_tx_extra :: "bytes \<Rightarrow> bytes \<Rightarrow> bytes option" where
  "add_extra_nonce_to_tx_extra tx_extra extra_nonce =
     (if \<not> length extra_nonce \<le> TX_EXTRA_NONCE_MAX_COUNT then None
      else Some (tx_extra @ [0x02, word_of_nat (length extra_nonce)] @ extra_nonce))"

definition add_full_node_register_to_tx_extra ::
    "bytes \<Rightarrow> account_public_address list \<Rightarrow> u64 \<Rightarrow> u64 list \<Rightarrow> u64 \<Rightarrow> signature \<Rightarrow> bytes option" where
  "add_full_node_register_to_tx_extra tx_extra addresses portions_for_operator portions expiration_timestamp sig =
     (if length addresses \<noteq> length portions then None
      else add_tx_extra_field_to_tx_extra tx_extra (FullNodeRegister
        \<lparr>m_public_spend_keys = map m_spend_public_key addresses,
         m_public_view_keys = map m_view_public_key addresses,
         m_portions_for_operator = portions_for_operator, m_portions = portions,
         m_expiration_timestamp = expiration_timestamp, m_full_node_signature = sig\<rparr>))"

text \<open>
  \<open>pick\<close>: the fields of one type are written to the output, in their order, and dropped from the
  list; \<open>sort_tx_extra\<close> picks the types in this order.
\<close>

fun store_fields :: "tx_extra_field list \<Rightarrow> bytes option" where
  "store_fields [] = Some []"
| "store_fields (f # fs) = do { b \<leftarrow> store_field f; bs \<leftarrow> store_fields fs; Some (b @ bs) }"

definition pick :: "u8 \<Rightarrow> bytes \<times> tx_extra_field list \<Rightarrow> (bytes \<times> tx_extra_field list) option" where
  "pick tag = (\<lambda>(out, fs). do {
     b \<leftarrow> store_fields (filter (\<lambda>f. get_tag f = tag) fs);
     Some (out @ b, filter (\<lambda>f. get_tag f \<noteq> tag) fs)
   })"

fun pick_all :: "u8 list \<Rightarrow> bytes \<times> tx_extra_field list \<Rightarrow> (bytes \<times> tx_extra_field list) option" where
  "pick_all [] st = Some st"
| "pick_all (tag # tags) st = do { st \<leftarrow> pick tag st; pick_all tags st }"

definition sort_order :: "u8 list" where
  "sort_order = [0x01, 0x04, 0x02, 0x70, 0x71, 0x72, 0x73, 0x74, 0x75, 0x76, 0x77, 0x03, 0xDE, 0x00]"

definition sort_tx_extra :: "bytes \<Rightarrow> bool \<Rightarrow> bytes option" where
  "sort_tx_extra tx_extra allow_partial =
     (if tx_extra = [] then Some []
      else
        let (r, fs, unparsed) = parse_loop tx_extra
        in if \<not> r \<and> \<not> allow_partial then None
           else do {
             (out, fs) \<leftarrow> pick_all sort_order ([], fs);
             if fs \<noteq> [] then None
             else Some (if allow_partial \<and> unparsed \<noteq> [] then out @ unparsed else out)
           })"

definition remove_field_from_tx_extra :: "bytes \<Rightarrow> u8 \<Rightarrow> bytes option" where
  "remove_field_from_tx_extra tx_extra tag =
     (if tx_extra = [] then Some []
      else
        let (r, fs, _) = parse_loop tx_extra
        in if \<not> r then None else store_fields (filter (\<lambda>f. get_tag f \<noteq> tag) fs))"

definition set_payment_id_to_tx_extra_nonce :: "crypto_hash \<Rightarrow> bytes" where
  "set_payment_id_to_tx_extra_nonce payment_id = 0x00 # payment_id"

definition set_encrypted_payment_id_to_tx_extra_nonce :: "bytes \<Rightarrow> bytes" where
  "set_encrypted_payment_id_to_tx_extra_nonce payment_id = 0x01 # payment_id"

definition get_payment_id_from_tx_extra_nonce :: "bytes \<Rightarrow> crypto_hash option" where
  "get_payment_id_from_tx_extra_nonce extra_nonce =
     (if 32 + 1 \<noteq> length extra_nonce then None
      else if 0x00 \<noteq> hd extra_nonce then None
      else Some (tl extra_nonce))"

definition get_encrypted_payment_id_from_tx_extra_nonce :: "bytes \<Rightarrow> bytes option" where
  "get_encrypted_payment_id_from_tx_extra_nonce extra_nonce =
     (if 8 + 1 \<noteq> length extra_nonce then None
      else if 0x01 \<noteq> hd extra_nonce then None
      else Some (tl extra_nonce))"

section \<open>Representable fields\<close>

text \<open>The sizes of the structs, and the limits the format puts on counts.\<close>

fun valid_field :: "tx_extra_field \<Rightarrow> bool" where
  "valid_field (Padding n) = (1 \<le> n \<and> n \<le> 255)"
| "valid_field (PubKey k) = (length k = 32)"
| "valid_field (Nonce n) = (length n \<le> 255)"
| "valid_field (MergeMiningTag d r) = (length r = 32)"
| "valid_field (AdditionalPubKeys ks) = ((\<forall>k \<in> set ks. length k = 32) \<and> length ks < 2 ^ 64)"
| "valid_field (MysteriousMinergate d) = (length d < 2 ^ 64)"
| "valid_field (FullNodePubkey k) = (length k = 32)"
| "valid_field (FullNodeRegister r) =
     ((\<forall>k \<in> set (m_public_spend_keys r). length k = 32) \<and> length (m_public_spend_keys r) < 2 ^ 64
      \<and> (\<forall>k \<in> set (m_public_view_keys r). length k = 32) \<and> length (m_public_view_keys r) < 2 ^ 64
      \<and> length (m_portions r) < 2 ^ 64 \<and> length (m_full_node_signature r) = 64)"
| "valid_field (FullNodeContributor s v) = (length s = 32 \<and> length v = 32)"
| "valid_field (FullNodeWinner k) = (length k = 32)"
| "valid_field (FullNodeDeregister d) =
     ((\<forall>v \<in> set (dereg_votes d). length (signature v) = 64) \<and> length (dereg_votes d) < 2 ^ 64)"
| "valid_field (TxSecretKey k) = (length k = 32)"
| "valid_field (TxKeyImageProofs ps) =
     ((\<forall>p \<in> set ps. length (proof_key_image p) = 32 \<and> length (proof_signature p) = 64) \<and> length ps < 2 ^ 64)"
| "valid_field (TxKeyImageUnlock u) = (length (unlock_key_image u) = 32 \<and> length (unlock_signature u) = 64)"
| "valid_field (ArticleInfo t c p) = (length t < 2 ^ 64 \<and> length c < 2 ^ 64 \<and> length p < 2 ^ 64)"

lemma vote_round_trip:
  "length (signature v) = 64 \<Longrightarrow> vote_load (vote_store v @ rest) = Some (v, rest)"
  by (simp add: vote_load_def vote_store_def blob_round_trip uint_round_trip)

lemma proof_round_trip:
  "length (proof_key_image p) = 32 \<Longrightarrow> length (proof_signature p) = 64 \<Longrightarrow>
   proof_load (proof_store p @ rest) = Some (p, rest)"
  by (simp add: proof_load_def proof_store_def blob_round_trip)

interpretation vote_codec: element_codec vote_store vote_load "\<lambda>v. length (signature v) = 64"
  by unfold_locales (rule vote_round_trip, auto simp: vote_store_def)

interpretation proof_codec: element_codec proof_store proof_load
    "\<lambda>p. length (proof_key_image p) = 32 \<and> length (proof_signature p) = 64"
  by unfold_locales (rule proof_round_trip, auto simp: proof_store_def)

lemma load_padding_zeros: "n + k \<le> 255 \<Longrightarrow> load_padding n (replicate k 0) = Some (Padding (n + k), [])"
  by (induction k arbitrary: n) (simp_all add: TX_EXTRA_PADDING_MAX_COUNT_def)

lemma merge_mining_length: "length r = 32 \<Longrightarrow> length (write_varint d @ r) < 2 ^ 64"
  using length_write_varint [of d] by simp

lemmas round_trips = blob_round_trip uint_round_trip string_round_trip varint_round_trip_reader
  key_codec.container_round_trip varint_codec.container_round_trip
  vote_codec.container_round_trip proof_codec.container_round_trip

lemma store_body_valid: "valid_field f \<Longrightarrow> store_body f \<noteq> None"
  by (cases f) (simp_all add: TX_EXTRA_PADDING_MAX_COUNT_def TX_EXTRA_NONCE_MAX_COUNT_def)

lemma load_body_store:
  assumes "valid_field f" and "store_body f = Some body" and "\<And>n. f = Padding n \<Longrightarrow> rest = []"
  shows "load_body (get_tag f) (body @ rest) = Some (f, rest)"
proof (cases f)
  case (Padding n)
  then show ?thesis using assms load_padding_zeros [of 1 "n - 1"]
    by (simp add: load_body_def TX_EXTRA_PADDING_MAX_COUNT_def)
next
  case (MergeMiningTag d r)
  then have "string_load (body @ rest) = Some (write_varint d @ r, rest)"
    using assms(1,2) string_round_trip [OF merge_mining_length [of r d]] by auto
  then show ?thesis using assms(1) MergeMiningTag blob_round_trip [of r 32 "[]"]
    by (simp add: load_body_def load_merge_mining_tag_def varint_round_trip_reader)
next
  case (Nonce n)
  then show ?thesis using assms
    by (auto simp: load_body_def load_nonce_def round_trips TX_EXTRA_NONCE_MAX_COUNT_def)
qed (use assms in \<open>auto simp: load_body_def load_as_def load_register_def load_deregister_def load_unlock_def
      load_article_info_def round_trips\<close>)

text \<open>Every field that is read is representable, and only the last one can be padding.\<close>

lemma blob_load_length: "serialize_blob_load n bs = Some (x, rest) \<Longrightarrow> length x = n"
  by (auto simp: serialize_blob_load_def split: if_splits)

lemma string_load_length: "string_load bs = Some (x, rest) \<Longrightarrow> length x < 18446744073709551616"
  using unat_u64_less
  by (fastforce simp: string_load_def bind_eq_Some_conv dest!: blob_load_length split: if_splits)

lemma load_elements_valid:
  assumes "\<And>bs x rest. elem bs = Some (x, rest) \<Longrightarrow> P x"
  shows "load_elements elem n bs = Some (xs, rest) \<Longrightarrow> (\<forall>x \<in> set xs. P x) \<and> length xs = n"
  by (induction n arbitrary: bs xs) (fastforce simp: bind_eq_Some_conv dest: assms)+

lemma container_load_valid:
  assumes "do_serialize_container_load elem bs = Some (xs, rest)"
    and "\<And>bs x rest. elem bs = Some (x, rest) \<Longrightarrow> P x"
  shows "(\<forall>x \<in> set xs. P x) \<and> length xs < 18446744073709551616"
proof -
  obtain cnt :: u64 and bs' where "load_elements elem (unat cnt) bs' = Some (xs, rest)"
    using assms(1) by (auto simp: do_serialize_container_load_def bind_eq_Some_conv split: if_splits)
  with load_elements_valid [of elem P, OF assms(2)] show ?thesis using unat_u64_less [of cnt] by auto
qed

lemma load_padding_valid: "load_padding n bs = Some (f, rest) \<Longrightarrow> 1 \<le> n \<Longrightarrow> valid_field f \<and> get_tag f = 0 \<and> rest = []"
  by (induction n bs rule: load_padding.induct) (auto simp: TX_EXTRA_PADDING_MAX_COUNT_def split: if_splits)

lemma vote_load_valid: "vote_load bs = Some (v, rest) \<Longrightarrow> length (signature v) = 64"
  by (auto simp: vote_load_def bind_eq_Some_conv dest: blob_load_length)

lemma proof_load_valid:
  "proof_load bs = Some (p, rest) \<Longrightarrow> length (proof_key_image p) = 32 \<and> length (proof_signature p) = 64"
  by (auto simp: proof_load_def bind_eq_Some_conv dest: blob_load_length)

lemma container_valids:
  "do_serialize_container_load (serialize_blob_load n) bs = Some (ks, rest) \<Longrightarrow>
     (\<forall>k \<in> set ks. length k = n) \<and> length ks < 18446744073709551616"
  "do_serialize_container_load vote_load bs = Some (vs, rest) \<Longrightarrow>
     (\<forall>v \<in> set vs. length (signature v) = 64) \<and> length vs < 18446744073709551616"
  "do_serialize_container_load proof_load bs = Some (ps, rest) \<Longrightarrow>
     (\<forall>p \<in> set ps. length (proof_key_image p) = 32 \<and> length (proof_signature p) = 64)
     \<and> length ps < 18446744073709551616"
  "do_serialize_container_load serialize_uvarint_load bs = Some (us, rest) \<Longrightarrow>
     length us < 18446744073709551616"
  by (rule container_load_valid [OF _ blob_load_length], assumption+)
    (rule container_load_valid [OF _ vote_load_valid], assumption+,
     rule container_load_valid [OF _ proof_load_valid], assumption+,
     drule container_load_valid [where P = "\<lambda>_. True"], simp_all)

lemma load_body_valid:
  assumes "load_body tag bs = Some (f, rest)"
  shows "valid_field f \<and> get_tag f = tag \<and> (tag = 0 \<longrightarrow> rest = [])"
  using assms
  by (auto simp: load_body_def load_as_def load_nonce_def load_merge_mining_tag_def load_register_def
      load_deregister_def load_unlock_def load_article_info_def bind_eq_Some_conv TX_EXTRA_NONCE_MAX_COUNT_def
      dest!: load_padding_valid blob_load_length string_load_length container_valids split: if_splits)

section \<open>Parsing what was written\<close>

fun padding_last :: "tx_extra_field list \<Rightarrow> bool" where
  "padding_last [] = True"
| "padding_last [f] = True"
| "padding_last (f # fs) = (get_tag f \<noteq> 0 \<and> padding_last fs)"

definition valid_fields :: "tx_extra_field list \<Rightarrow> bool" where
  "valid_fields fs \<longleftrightarrow> (\<forall>f \<in> set fs. valid_field f) \<and> padding_last fs"

lemma padding_tag: "get_tag f = 0 \<longleftrightarrow> (\<exists>n. f = Padding n)"
  by (cases f) simp_all

lemma load_field_store:
  assumes "valid_field f" and "store_field f = Some b" and "get_tag f = 0 \<Longrightarrow> rest = []"
  shows "load_field (b @ rest) = Some (f, rest)"
  using assms load_body_store [of f _ rest] by (auto simp: store_field_def padding_tag)

lemma store_fields_Cons: "store_fields (f # fs) = Some bs \<longleftrightarrow>
    (\<exists>b bs'. store_field f = Some b \<and> store_fields fs = Some bs' \<and> bs = b @ bs')"
  by (auto simp: bind_eq_Some_conv)

lemma store_field_nonempty: "store_field f = Some b \<Longrightarrow> b \<noteq> []"
  by (auto simp: store_field_def)

lemma store_fields_valid: "\<forall>f \<in> set fs. valid_field f \<Longrightarrow> \<exists>bs. store_fields fs = Some bs"
  using store_body_valid by (induction fs) (force simp: store_field_def)+

lemma parse_loop_store:
  assumes "valid_fields fs" and "fs \<noteq> []" and "store_fields fs = Some bs"
  shows "parse_loop bs = (True, fs, [])"
  using assms
proof (induction fs arbitrary: bs rule: padding_last.induct)
  case (2 f)
  then have "load_field (bs @ []) = Some (f, [])"
    by (intro load_field_store) (auto simp: valid_fields_def)
  then show ?case by (subst parse_loop.simps) simp
next
  case (3 f g fs)
  obtain b bs' where b: "store_field f = Some b" "store_fields (g # fs) = Some bs'" "bs = b @ bs'"
    using 3(4) by (auto simp: store_fields_Cons simp del: store_fields.simps)
  then have "load_field bs = Some (f, bs')"
    using 3(2) by (auto simp: valid_fields_def intro!: load_field_store)
  moreover have "bs' \<noteq> []" using b(2) store_field_nonempty by (auto simp: bind_eq_Some_conv)
  moreover have "parse_loop bs' = (True, g # fs, [])"
    using 3(1) [of bs'] 3(2) b(2) by (simp add: valid_fields_def)
  ultimately show ?case by (subst parse_loop.simps) simp
qed simp

lemma parse_loop_valid:
  "parse_loop bs = (r, fs, u) \<Longrightarrow> valid_fields fs \<and> (r \<longrightarrow> u = []) \<and> (u \<noteq> [] \<longrightarrow> (\<forall>f \<in> set fs. get_tag f \<noteq> 0))"
proof (induction bs arbitrary: r fs u rule: parse_loop.induct)
  case (1 bs)
  show ?case
  proof (cases "load_field bs")
    case None
    then show ?thesis using 1(2) by (subst (asm) parse_loop.simps) (auto simp: valid_fields_def)
  next
    case (Some p)
    then obtain f rest where f: "load_field bs = Some (f, rest)" by (cases p) auto
    then obtain tag bs' where bs: "bs = tag # bs'" "load_body tag bs' = Some (f, rest)" by (cases bs) auto
    note v = load_body_valid [OF bs(2)]
    show ?thesis
    proof (cases "rest = []")
      case True
      then show ?thesis using 1(2) f v by (subst (asm) parse_loop.simps) (auto simp: valid_fields_def)
    next
      case False
      obtain r' fs' u' where p: "parse_loop rest = (r', fs', u')" by (metis prod_cases3)
      note IH = 1(1) [OF f refl False p]
      have eq: "r = r'" "fs = f # fs'" "u = u'" using 1(2) f False p by (subst (asm) parse_loop.simps, auto)+
      have "get_tag f \<noteq> 0" using v False by auto
      then show ?thesis using IH v eq by (cases fs') (auto simp: valid_fields_def)
    qed
  qed
qed

text \<open>
  C27. A list of representable fields in which only the last one is padding is read back exactly from
  the bytes written for it; and every field the parser returns, whatever the input, is representable
  with padding at most at the end.
\<close>
theorem parse_tx_extra_round_trip:
  "(valid_fields fs \<longrightarrow> (\<exists>bs. store_fields fs = Some bs \<and> parse_tx_extra bs = (True, fs)))
   \<and> valid_fields (snd (parse_tx_extra input))"
proof -
  have "\<exists>bs. store_fields fs = Some bs \<and> parse_tx_extra bs = (True, fs)" if v: "valid_fields fs"
  proof (cases "fs = []")
    case False
    obtain bs where bs: "store_fields fs = Some bs"
      using store_fields_valid [of fs] v by (auto simp: valid_fields_def)
    moreover have "bs \<noteq> []" using bs False store_field_nonempty by (cases fs) (auto simp: bind_eq_Some_conv)
    ultimately show ?thesis using parse_loop_store [OF v False bs] by (simp add: parse_tx_extra_def)
  qed (simp add: parse_tx_extra_def)
  moreover have "valid_fields (snd (parse_tx_extra input))"
    using parse_loop_valid [of input]
    by (cases "parse_loop input") (auto simp: parse_tx_extra_def valid_fields_def)
  ultimately show ?thesis by blast
qed

theorem parse_tx_extra_round_trip_witness:
  "\<exists>bs. store_fields [PubKey (replicate 32 7), Nonce [1, 2, 3], Padding 4] = Some bs
     \<and> parse_tx_extra bs = (True, [PubKey (replicate 32 7), Nonce [1, 2, 3], Padding 4])"
  using parse_tx_extra_round_trip [of "[PubKey (replicate 32 7), Nonce [1, 2, 3], Padding 4]" "[]"]
  by (simp add: valid_fields_def)

section \<open>Sorting and removing fields\<close>

definition encode :: "tx_extra_field \<Rightarrow> bytes" where
  "encode f = get_tag f # the (store_body f)"

definition sorted_fields :: "tx_extra_field list \<Rightarrow> tx_extra_field list" where
  "sorted_fields fs = concat (map (\<lambda>t. filter (\<lambda>f. get_tag f = t) fs) sort_order)"

lemma store_fields_encode: "\<forall>f \<in> set fs. valid_field f \<Longrightarrow> store_fields fs = Some (concat (map encode fs))"
  using store_body_valid by (induction fs) (force simp: store_field_def encode_def)+

lemma parse_encode:
  assumes "valid_fields fs"
  shows "parse_tx_extra (concat (map encode fs)) = (True, fs)"
proof (cases "fs = []")
  case False
  have "\<forall>f \<in> set fs. valid_field f" using assms by (simp add: valid_fields_def)
  then have s: "store_fields fs = Some (concat (map encode fs))" by (rule store_fields_encode)
  then show ?thesis using parse_loop_store [OF assms False s] False by (auto simp: parse_tx_extra_def encode_def)
qed (simp add: parse_tx_extra_def)

lemma padding_last_filter: "padding_last fs \<Longrightarrow> padding_last (filter P fs)"
proof (induction fs rule: padding_last.induct)
  case (3 f g fs)
  then show ?case by (cases "filter P (g # fs)") auto
qed simp_all

lemma valid_fields_filter: "valid_fields fs \<Longrightarrow> valid_fields (filter P fs)"
  by (simp add: valid_fields_def padding_last_filter)

lemma padding_last_append:
  "\<forall>f \<in> set xs. get_tag f \<noteq> 0 \<Longrightarrow> padding_last ys \<Longrightarrow> padding_last (xs @ ys)"
proof (induction xs)
  case (Cons x xs)
  then show ?case by (cases "xs @ ys") auto
qed simp

lemma pick_all_encode:
  assumes "\<forall>f \<in> set fs. valid_field f" and "distinct tags"
  shows "pick_all tags (out, fs) = Some
    (out @ concat (map encode (concat (map (\<lambda>t. filter (\<lambda>f. get_tag f = t) fs) tags))),
     filter (\<lambda>f. get_tag f \<notin> set tags) fs)"
  using assms
proof (induction tags arbitrary: out fs)
  case (Cons t tags)
  have "map (\<lambda>t'. filter (\<lambda>f. get_tag f = t') (filter (\<lambda>f. get_tag f \<noteq> t) fs)) tags
      = map (\<lambda>t'. filter (\<lambda>f. get_tag f = t') fs) tags"
    using Cons.prems(2) by (auto intro!: filter_cong)
  then show ?case
    using Cons.prems Cons.IH [of "filter (\<lambda>f. get_tag f \<noteq> t) fs"]
    by (simp add: pick_def store_fields_encode conj_commute del: map_eq_conv)
qed simp

lemma mset_concat_filter:
  "distinct ts \<Longrightarrow> mset (concat (map (\<lambda>t. filter (\<lambda>f. g f = t) fs) ts)) = filter_mset (\<lambda>f. g f \<in> set ts) (mset fs)"
proof (induction ts)
  case (Cons t ts)
  have "filter_mset (\<lambda>f. g f \<in> set (t # ts)) (mset fs)
      = filter_mset (\<lambda>f. g f = t) (mset fs) + filter_mset (\<lambda>f. g f \<in> set ts) (mset fs)"
    using Cons.prems by (induction fs) auto
  then show ?case using Cons by simp
qed simp

lemma tags_sorted: "get_tag f \<in> set sort_order \<or> get_tag f = 0x78" "0x78 \<notin> set sort_order"
  by (cases f; simp add: sort_order_def) (simp add: sort_order_def)

lemma sorted_fields_valid:
  assumes "valid_fields fs"
  shows "valid_fields (sorted_fields fs)"
proof -
  define ts where "ts = butlast sort_order"
  have o: "sort_order = ts @ [0]" "0 \<notin> set ts" by (simp_all add: ts_def sort_order_def)
  have "padding_last (concat (map (\<lambda>t. filter (\<lambda>f. get_tag f = t) fs) ts) @ filter (\<lambda>f. get_tag f = 0) fs)"
    using assms o(2) by (intro padding_last_append padding_last_filter) (auto simp: valid_fields_def)
  then show ?thesis using assms by (auto simp: valid_fields_def sorted_fields_def o(1))
qed

lemma sort_tx_extra_encode:
  assumes "valid_fields fs" and "\<forall>f \<in> set fs. get_tag f \<noteq> 0x78"
  shows "sort_tx_extra (concat (map encode fs)) partial = Some (concat (map encode (sorted_fields fs)))"
    and "mset (sorted_fields fs) = mset fs"
proof -
  have v: "\<forall>f \<in> set fs. valid_field f" and d: "distinct sort_order"
    using assms(1) by (simp_all add: valid_fields_def sort_order_def)
  have all: "\<forall>f \<in> set fs. get_tag f \<in> set sort_order" using assms(2) tags_sorted(1) by blast
  then have "filter (\<lambda>f. get_tag f \<notin> set sort_order) fs = []" by (simp add: filter_empty_conv)
  then have p: "pick_all sort_order ([], fs) = Some (concat (map encode (sorted_fields fs)), [])"
    using pick_all_encode [OF v d, of "[]", folded sorted_fields_def] by simp
  show "sort_tx_extra (concat (map encode fs)) partial = Some (concat (map encode (sorted_fields fs)))"
  proof (cases "fs = []")
    case False
    have "encode f \<noteq> []" for f by (simp add: encode_def)
    then show ?thesis using False p parse_loop_store [OF assms(1) False store_fields_encode [OF v]] by (simp add: sort_tx_extra_def)
  qed (simp add: sort_tx_extra_def sorted_fields_def sort_order_def)
  show "mset (sorted_fields fs) = mset fs"
    unfolding sorted_fields_def mset_concat_filter [OF d] using all by (simp add: filter_mset_eq_conv)
qed

text \<open>
  C29. Sorting an extra field made of representable fields returns the encoding of the same fields
  grouped in the fixed order of types, unless one of them is an article record: then it fails.
\<close>
theorem sort_tx_extra_correct:
  assumes "valid_fields fs" and "store_fields fs = Some bs"
  shows "if \<exists>f \<in> set fs. get_tag f = 0x78 then sort_tx_extra bs partial = None
    else \<exists>bs'. sort_tx_extra bs partial = Some bs' \<and> parse_tx_extra bs' = (True, sorted_fields fs)
      \<and> mset (sorted_fields fs) = mset fs"
proof (cases "\<exists>f \<in> set fs. get_tag f = 0x78")
  case True
  then have ne: "fs \<noteq> []" "filter (\<lambda>f. get_tag f \<notin> set sort_order) fs \<noteq> []"
    using tags_sorted(2) by (auto, metis (mono_tags, lifting) filter_empty_conv)
  have v: "\<forall>f \<in> set fs. valid_field f" and d: "distinct sort_order"
    using assms(1) by (simp_all add: valid_fields_def sort_order_def)
  have "bs \<noteq> []" using assms(2) ne(1) store_field_nonempty by (cases fs) (auto simp: bind_eq_Some_conv)
  then show ?thesis
    using True ne(2) parse_loop_store [OF assms(1) ne(1) assms(2)] pick_all_encode [OF v d, of "[]"] by (simp add: sort_tx_extra_def)
next
  case False
  then have s: "sort_tx_extra (concat (map encode fs)) partial = Some (concat (map encode (sorted_fields fs)))"
    and m: "mset (sorted_fields fs) = mset fs"
    using sort_tx_extra_encode [OF assms(1)] by blast+
  have "bs = concat (map encode fs)" using assms store_fields_encode [of fs] by (simp add: valid_fields_def)
  then show ?thesis using False s m parse_encode [OF sorted_fields_valid [OF assms(1)]] by auto
qed

theorem sort_tx_extra_correct_witness:
  "(\<exists>bs. sort_tx_extra [0x02, 0x01, 0x09, 0x00] False = Some bs
      \<and> parse_tx_extra bs = (True, sorted_fields [Nonce [9], Padding 1]))
   \<and> sort_tx_extra [0x78, 0x00, 0x00, 0x00] True = None"
proof -
  have "store_fields [Nonce [9], Padding 1] = Some [0x02, 0x01, 0x09, 0x00]"
    "store_fields [ArticleInfo [] [] []] = Some [0x78, 0x00, 0x00, 0x00]"
    by (simp_all add: store_field_def string_store_def TX_EXTRA_NONCE_MAX_COUNT_def TX_EXTRA_PADDING_MAX_COUNT_def
        write_varint.simps word_le_nat_alt)
  from sort_tx_extra_correct [OF _ this(1), of False] sort_tx_extra_correct [OF _ this(2), of True]
  show ?thesis by (auto simp: valid_fields_def)
qed

text \<open>
  Removing the fields of one type from an extra field that parses leaves exactly the other fields,
  in their order.
\<close>
theorem remove_field_from_tx_extra_correct:
  assumes "parse_tx_extra bs = (True, fs)"
  shows "\<exists>bs'. remove_field_from_tx_extra bs tag = Some bs'
    \<and> parse_tx_extra bs' = (True, filter (\<lambda>f. get_tag f \<noteq> tag) fs)"
proof (cases "bs = []")
  case True
  then show ?thesis using assms by (auto simp: remove_field_from_tx_extra_def parse_tx_extra_def)
next
  case False
  obtain u where p: "parse_loop bs = (True, fs, u)"
    using assms False by (cases "parse_loop bs") (auto simp: parse_tx_extra_def)
  let ?gs = "filter (\<lambda>f. get_tag f \<noteq> tag) fs"
  have v: "valid_fields ?gs" using parse_loop_valid [OF p] valid_fields_filter by blast
  then have s: "store_fields ?gs = Some (concat (map encode ?gs))"
    by (intro store_fields_encode) (simp add: valid_fields_def)
  then have "parse_tx_extra (concat (map encode ?gs)) = (True, ?gs)"
    using parse_loop_store [OF v _ s] by (cases "?gs = []") (auto simp: parse_tx_extra_def encode_def)
  then show ?thesis using False p s by (simp add: remove_field_from_tx_extra_def)
qed

theorem remove_field_from_tx_extra_correct_witness:
  "\<exists>bs. remove_field_from_tx_extra [0x02, 0x01, 0x09, 0x00] 0x00 = Some bs
    \<and> parse_tx_extra bs = (True, [Nonce [9]])"
proof -
  have s: "store_fields [Nonce [9], Padding 1] = Some [0x02, 0x01, 0x09, 0x00]"
    by (simp add: store_field_def string_store_def TX_EXTRA_NONCE_MAX_COUNT_def TX_EXTRA_PADDING_MAX_COUNT_def
        write_varint.simps word_le_nat_alt)
  have "parse_tx_extra [0x02, 0x01, 0x09, 0x00] = (True, [Nonce [9], Padding 1])"
    using parse_loop_store [OF _ _ s] by (simp add: parse_tx_extra_def valid_fields_def)
  from remove_field_from_tx_extra_correct [OF this, of "0x00"] show ?thesis by simp
qed

section \<open>Nonces\<close>

lemma payment_id_round_trip:
  "length p = 32 \<Longrightarrow> get_payment_id_from_tx_extra_nonce (set_payment_id_to_tx_extra_nonce p) = Some p"
  "length q = 8 \<Longrightarrow> get_encrypted_payment_id_from_tx_extra_nonce (set_encrypted_payment_id_to_tx_extra_nonce q) = Some q"
  "length p = 32 \<Longrightarrow> get_encrypted_payment_id_from_tx_extra_nonce (set_payment_id_to_tx_extra_nonce p) = None"
  by (simp_all add: get_payment_id_from_tx_extra_nonce_def set_payment_id_to_tx_extra_nonce_def
      get_encrypted_payment_id_from_tx_extra_nonce_def set_encrypted_payment_id_to_tx_extra_nonce_def)

text \<open>The length byte is a varint as long as it is below 128.\<close>

lemma nonce_short:
  assumes "length n \<le> 127"
  shows "store_field (Nonce n) = Some ([0x02, word_of_nat (length n)] @ n)"
proof -
  let ?l = "word_of_nat (length n) :: u64"
  have u: "unat ?l = length n" using assms by (simp only: unat_of_nat) simp
  then have lt: "\<not> ?l \<ge> 0x80" using assms by (simp add: word_le_nat_alt)
  then have "write_varint ?l = [ucast ?l]" by (subst write_varint.simps) simp
  moreover have "(ucast ?l :: u8) = word_of_nat (length n)"
    unfolding word_unat_eq_iff last_byte(1) [OF lt] u using assms by (simp only: unat_of_nat) simp
  ultimately show ?thesis
    using assms by (simp add: store_field_def string_store_def TX_EXTRA_NONCE_MAX_COUNT_def)
qed

text \<open>
  C31. A nonce of at most 127 bytes added to an extra field whose fields are representable and contain
  no padding is parsed back as one more field. A longer nonce is not: its length is written as a
  single byte, which the parser reads as the first byte of a longer varint. Adding 128 zero bytes
  to an empty extra field parses as an empty nonce followed by 127 bytes of padding.
\<close>
theorem add_extra_nonce_round_trip:
  "(valid_fields fs \<longrightarrow> (\<forall>f \<in> set fs. get_tag f \<noteq> 0) \<longrightarrow> length n \<le> 127 \<longrightarrow> store_fields fs = Some bs \<longrightarrow>
     (\<exists>bs'. add_extra_nonce_to_tx_extra bs n = Some bs' \<and> parse_tx_extra bs' = (True, fs @ [Nonce n])))
   \<and> (\<exists>bs'. add_extra_nonce_to_tx_extra [] (replicate 128 0) = Some bs'
        \<and> parse_tx_extra bs' = (True, [Nonce [], Padding 127]))"
proof -
  have short: "\<exists>bs'. add_extra_nonce_to_tx_extra bs n = Some bs' \<and> parse_tx_extra bs' = (True, fs @ [Nonce n])"
    if v: "valid_fields fs" and np: "\<forall>f \<in> set fs. get_tag f \<noteq> 0" and n: "length n \<le> 127"
      and s: "store_fields fs = Some bs"
  proof -
    let ?bs' = "bs @ [0x02, word_of_nat (length n)] @ n"
    have v': "valid_fields (fs @ [Nonce n])"
      using v np n by (auto simp: valid_fields_def intro!: padding_last_append)
    have "encode (Nonce n) = [0x02, word_of_nat (length n)] @ n"
      using nonce_short [OF n] by (auto simp: encode_def store_field_def)
    moreover have "bs = concat (map encode fs)"
      using s v store_fields_encode [of fs] by (simp add: valid_fields_def)
    moreover have "store_fields (fs @ [Nonce n]) = Some (concat (map encode (fs @ [Nonce n])))"
      using v' by (intro store_fields_encode) (simp add: valid_fields_def)
    ultimately have "store_fields (fs @ [Nonce n]) = Some ?bs'" by simp
    from parse_loop_store [OF v' _ this] n show ?thesis
      by (simp add: add_extra_nonce_to_tx_extra_def parse_tx_extra_def TX_EXTRA_NONCE_MAX_COUNT_def)
  qed
  define R :: bytes where "R = replicate 126 0"
  have e: "128 = Suc (Suc 126)" by simp
  have z: "replicate 128 0 = 0 # 0 # R" unfolding e R_def by (simp only: replicate_Suc)
  have "read_varint (0x80 # 0 # 0 # R) = (EVARINT_REPRESENT, 0, 0 # R)"
    by (simp add: read_varint_def Let_def)
  then have l1: "load_field (0x02 # 0x80 # 0 # 0 # R) = Some (Nonce [], 0 # R)"
    by (simp add: load_body_def load_nonce_def string_load_def serialize_uvarint_load_def
        serialize_blob_load_def TX_EXTRA_NONCE_MAX_COUNT_def)
  have l2: "load_field (0 # R) = Some (Padding 127, [])"
    using load_padding_zeros [of 1 126] by (simp add: load_body_def R_def)
  have "parse_loop (0x02 # 0x80 # 0 # 0 # R) = (True, [Nonce [], Padding 127], [])"
    by (subst parse_loop.simps, subst parse_loop.simps) (simp add: l1 l2 del: load_field.simps)
  then have "parse_tx_extra (0x02 # 0x80 # replicate 128 0) = (True, [Nonce [], Padding 127])"
    by (simp add: parse_tx_extra_def z)
  moreover have "add_extra_nonce_to_tx_extra [] (replicate 128 0) = Some (0x02 # 0x80 # replicate 128 0)"
    by (simp add: add_extra_nonce_to_tx_extra_def TX_EXTRA_NONCE_MAX_COUNT_def)
  ultimately show ?thesis using short by blast
qed

theorem add_extra_nonce_round_trip_witness:
  "\<exists>bs. add_extra_nonce_to_tx_extra [] [1, 2] = Some bs \<and> parse_tx_extra bs = (True, [Nonce [1, 2]])"
  using add_extra_nonce_round_trip [of "[]" "[1, 2]" "[]"] by (simp add: valid_fields_def)

end
