(* ===== verification/FullNodeRules.thy ===== *)
theory FullNodeRules
  imports IntUtil
begin

text \<open>
  The staking arithmetic of \<^verbatim>\<open>src/cryptonote_core/full_node_rules.cpp\<close> and its header: how a stake in
  portions becomes an amount and back, the smallest contribution a node accepts, the check of the
  portions of a registration, and the heights at which stakes unlock.
  The conversion of a percentage string, which computes in \<open>double\<close>, is not modelled.
\<close>

datatype network_type = MAINNET | TESTNET | STAGENET | FAKECHAIN | UNDEFINED

definition COIN :: u64 where "COIN = 1000000000"
definition STAKING_PORTIONS :: u64 where "STAKING_PORTIONS = 0xfffffffffffffffc"
definition MAX_NUMBER_OF_CONTRIBUTORS :: u64 where "MAX_NUMBER_OF_CONTRIBUTORS = 4"
definition MAX_KEY_IMAGES_PER_CONTRIBUTOR :: u64 where "MAX_KEY_IMAGES_PER_CONTRIBUTOR = 1"
definition KEY_IMAGE_AWAITING_UNLOCK_HEIGHT :: u64 where "KEY_IMAGE_AWAITING_UNLOCK_HEIGHT = 0"

definition network_version_9_full_nodes :: u8 where "network_version_9_full_nodes = 9"
definition network_version_10_bulletproofs :: u8 where "network_version_10_bulletproofs = 10"
definition network_version_11_infinite_staking :: u8 where "network_version_11_infinite_staking = 11"

definition BLOCKS_EXPECTED_IN_HOURS :: "u64 \<Rightarrow> u64" where
  "BLOCKS_EXPECTED_IN_HOURS val = 60 * 60 div 120 * val"

definition BLOCKS_EXPECTED_IN_DAYS :: "u64 \<Rightarrow> u64" where
  "BLOCKS_EXPECTED_IN_DAYS val = BLOCKS_EXPECTED_IN_HOURS 24 * val"

definition staking_num_lock_blocks :: "network_type \<Rightarrow> u64" where
  "staking_num_lock_blocks nettype =
     (case nettype of
        FAKECHAIN \<Rightarrow> 30
      | TESTNET \<Rightarrow> BLOCKS_EXPECTED_IN_DAYS 2
      | _ \<Rightarrow> BLOCKS_EXPECTED_IN_DAYS 30)"

definition get_staking_requirement :: "network_type \<Rightarrow> u64 \<Rightarrow> u8 \<Rightarrow> u64" where
  "get_staking_requirement m_nettype height hf_version =
     (if m_nettype = TESTNET \<or> m_nettype = FAKECHAIN then COIN * 100 else COIN * 100000)"

definition portions_to_amount :: "u64 \<Rightarrow> u64 \<Rightarrow> u64" where
  "portions_to_amount portions staking_requirement =
     (let (lo, hi) = mul128 staking_requirement portions;
          (_, resulthi, resultlo) = div128_64 hi lo STAKING_PORTIONS
      in resultlo)"

definition get_min_node_contribution_pre_v11 :: "u64 \<Rightarrow> u64 \<Rightarrow> u64" where
  "get_min_node_contribution_pre_v11 staking_requirement total_reserved =
     min (staking_requirement - total_reserved) (staking_requirement div MAX_NUMBER_OF_CONTRIBUTORS)"

definition get_min_node_contribution :: "u8 \<Rightarrow> u64 \<Rightarrow> u64 \<Rightarrow> u64 \<Rightarrow> u64" where
  "get_min_node_contribution version staking_requirement total_reserved num_contributions =
     (if version < network_version_11_infinite_staking
      then get_min_node_contribution_pre_v11 staking_requirement total_reserved
      else
        let needed = staking_requirement - total_reserved;
            max_num_of_contributions = MAX_NUMBER_OF_CONTRIBUTORS * MAX_KEY_IMAGES_PER_CONTRIBUTOR
        in if max_num_of_contributions \<le> num_contributions then UINT64_MAX
           else needed div (max_num_of_contributions - num_contributions))"

definition get_portions_to_make_amount :: "u64 \<Rightarrow> u64 \<Rightarrow> u64" where
  "get_portions_to_make_amount staking_requirement amount =
     (let (lo, hi) = mul128 amount STAKING_PORTIONS;
          hi = (if lo > UINT64_MAX - (staking_requirement - 1) then hi + 1 else hi);
          lo = lo + (staking_requirement - 1);
          (_, resulthi, resultlo) = div128_64 hi lo staking_requirement
      in resultlo)"

definition get_min_node_contribution_in_portions :: "u8 \<Rightarrow> u64 \<Rightarrow> u64 \<Rightarrow> u64 \<Rightarrow> u64" where
  "get_min_node_contribution_in_portions version staking_requirement total_reserved num_contributions =
     (let atomic_amount = get_min_node_contribution version staking_requirement total_reserved num_contributions
      in if atomic_amount = UINT64_MAX then UINT64_MAX
         else get_portions_to_make_amount staking_requirement atomic_amount)"

text \<open>The loop of \<open>check_full_node_portions\<close> from index \<open>i\<close>: \<^const>\<open>None\<close> is \<open>return false\<close>.\<close>

fun check_portions_loop :: "u8 \<Rightarrow> u64 \<Rightarrow> u64 \<Rightarrow> u64 list \<Rightarrow> u64 option" where
  "check_portions_loop hf_version i reserved [] = Some reserved"
| "check_portions_loop hf_version i reserved (p # ps) =
     (let min_portions = get_min_node_contribution hf_version STAKING_PORTIONS reserved i
      in if p < min_portions then None
         else check_portions_loop hf_version (i + 1) (reserved + p) ps)"

definition check_full_node_portions :: "u8 \<Rightarrow> u64 list \<Rightarrow> bool" where
  "check_full_node_portions hf_version portions =
     (if length portions > unat MAX_NUMBER_OF_CONTRIBUTORS then False
      else case check_portions_loop hf_version 0 0 portions of
        None \<Rightarrow> False
      | Some reserved \<Rightarrow> reserved \<le> STAKING_PORTIONS)"

text \<open>The four bytes of the nonce in memory order, copied until the 32 bytes of the hash are full.\<close>

definition u32_bytes :: "u32 \<Rightarrow> bytes" where
  "u32_bytes x = map (\<lambda>i. ucast (drop_bit (8 * i) x)) [0..<4]"

definition generate_request_stake_unlock_hash :: "u32 \<Rightarrow> bytes" where
  "generate_request_stake_unlock_hash nonce = concat (replicate (32 div 4) (u32_bytes nonce))"

definition get_locked_key_image_unlock_height :: "network_type \<Rightarrow> u64 \<Rightarrow> u64 \<Rightarrow> u64" where
  "get_locked_key_image_unlock_height nettype node_register_height curr_height =
     (let blocks_to_lock = staking_num_lock_blocks nettype
      in curr_height + blocks_to_lock div 2)"

section \<open>Portions and amounts\<close>

lemma STAKING_PORTIONS_nat: "unat STAKING_PORTIONS = 2 ^ 64 - 4" and STAKING_PORTIONS_nz: "STAKING_PORTIONS \<noteq> 0"
  by (simp_all add: STAKING_PORTIONS_def)

lemma portions_to_amount_val:
  assumes "portions \<le> STAKING_PORTIONS"
  shows "unat (portions_to_amount portions req) = unat req * unat portions div unat STAKING_PORTIONS"
proof -
  obtain lo hi where m: "mul128 req portions = (lo, hi)" by fastforce
  obtain r qh ql where d: "div128_64 hi lo STAKING_PORTIONS = (r, qh, ql)" by (metis prod_cases3)
  have "unat req * unat portions \<le> unat req * unat STAKING_PORTIONS"
    using assms by (simp add: word_le_nat_alt)
  then have "unat req * unat portions div unat STAKING_PORTIONS \<le> unat req * unat STAKING_PORTIONS div unat STAKING_PORTIONS"
    by (rule div_le_mono)
  also have "\<dots> = unat req" by (simp add: STAKING_PORTIONS_nat)
  finally have "unat req * unat portions div unat STAKING_PORTIONS < 2 ^ 64"
    using unat_u64_less [of req] by simp
  with wide.muldiv_fits [OF STAKING_PORTIONS_nz m d] show ?thesis
    by (simp add: portions_to_amount_def m d)
qed

text \<open>The carry written as a comparison: it is exactly the overflow of the sum of the low words.\<close>

lemma add_with_carry_test:
  fixes lo hi x :: u64
  assumes "val128 hi lo + unat x < 2 ^ 128"
  shows "val128 (if lo > UINT64_MAX - x then hi + 1 else hi) (lo + x) = val128 hi lo + unat x"
proof -
  have sub: "unat (UINT64_MAX - x) = 2 ^ 64 - 1 - unat x"
    using unat_u64_less [of x] by (subst unat_sub_nowrap) simp_all
  show ?thesis
  proof (cases "unat lo + unat x < 2 ^ 64")
    case True
    then have "\<not> lo > UINT64_MAX - x" by (simp add: word_less_nat_alt sub)
    then show ?thesis using True by (simp add: val128_def unat_add_nowrap)
  next
    case False
    then have c: "lo > UINT64_MAX - x"
      using unat_u64_less [of x] unat_u64_less [of lo] unfolding word_less_nat_alt sub by simp
    have "unat (lo + x) + 2 ^ 64 = unat lo + unat x"
      using False add_carry [of lo x] unat_u64_less [of "lo + x"] by (auto split: if_splits)
    moreover have "unat (hi + 1) = unat hi + 1"
      using assms False by (subst unat_add_nowrap) (auto simp: val128_def)
    ultimately show ?thesis using c by (simp add: val128_def algebra_simps)
  qed
qed

lemma get_portions_to_make_amount_val:
  assumes "req \<noteq> 0" and "amount \<le> req"
  shows "unat (get_portions_to_make_amount req amount)
    = (unat amount * unat STAKING_PORTIONS + unat req - 1) div unat req"
proof -
  obtain lo hi where m: "mul128 amount STAKING_PORTIONS = (lo, hi)" by fastforce
  define hi' lo' where "hi' = (if lo > UINT64_MAX - (req - 1) then hi + 1 else hi)" and "lo' = lo + (req - 1)"
  obtain r qh ql where d: "div128_64 hi' lo' req = (r, qh, ql)" by (metis prod_cases3)
  have r1: "1 \<le> unat req" using assms(1) by (simp add: Suc_le_eq unat_gt_0)
  then have req: "unat (req - 1) = unat req - 1" by (subst unat_sub_nowrap) simp_all
  have prod: "val128 hi lo = unat amount * unat STAKING_PORTIONS" by (rule wide.mul_val [OF m])
  have "unat amount * unat STAKING_PORTIONS \<le> (2 ^ 64 - 1) * (2 ^ 64 - 4)"
    using unat_u64_less [of amount] by (intro mult_le_mono) (simp_all add: STAKING_PORTIONS_nat)
  then have "val128 hi lo + unat (req - 1) < 2 ^ 128"
    using unat_u64_less [of req] by (simp add: prod req)
  from add_with_carry_test [OF this]
  have sum: "val128 hi' lo' = unat amount * unat STAKING_PORTIONS + unat req - 1"
    using r1 by (simp add: hi'_def lo'_def prod req)
  have q: "val128 qh ql = (unat amount * unat STAKING_PORTIONS + unat req - 1) div unat req"
    using wide.divide_val [OF assms(1) d] by (simp add: sum)
  have "unat amount * unat STAKING_PORTIONS \<le> unat req * unat STAKING_PORTIONS"
    using assms(2) by (simp add: word_le_nat_alt)
  then have "unat amount * unat STAKING_PORTIONS + unat req - 1 < unat req * Suc (unat STAKING_PORTIONS)"
    using r1 by (simp only: mult_Suc_right)
  then have "val128 qh ql < Suc (unat STAKING_PORTIONS)"
    unfolding q by (simp add: less_mult_imp_div_less mult.commute)
  then have "unat qh = 0" by (cases "unat qh") (auto simp: val128_def STAKING_PORTIONS_nat)
  moreover have "get_portions_to_make_amount req amount = ql"
    unfolding get_portions_to_make_amount_def m Let_def prod.case hi'_def [symmetric] lo'_def [symmetric] d ..
  ultimately show ?thesis using q by (simp add: val128_def)
qed

lemma ceil_le_iff:
  fixes n r x :: nat
  assumes "0 < r"
  shows "(n + r - 1) div r \<le> x \<longleftrightarrow> n \<le> x * r"
proof -
  have "(n + r - 1) div r \<le> x \<longleftrightarrow> (n + r - 1) div r < Suc x" by auto
  also have "\<dots> \<longleftrightarrow> n + r - 1 < Suc x * r" using assms by (simp add: div_less_iff_less_mult)
  finally show ?thesis using assms by auto
qed

text \<open>
  For an amount within the staking requirement, \<^const>\<open>get_portions_to_make_amount\<close> is the least
  number of portions whose amount reaches it: portions up to the maximum reach the amount exactly
  when they are at least that number.
\<close>
theorem get_portions_to_make_amount_least:
  assumes "req \<noteq> 0" and "amount \<le> req" and "x \<le> STAKING_PORTIONS"
  shows "amount \<le> portions_to_amount x req \<longleftrightarrow> get_portions_to_make_amount req amount \<le> x"
proof -
  have r: "0 < unat req" and S: "0 < unat STAKING_PORTIONS"
    using assms(1) by (simp_all add: unat_gt_0 STAKING_PORTIONS_nat)
  have "get_portions_to_make_amount req amount \<le> x \<longleftrightarrow> unat amount * unat STAKING_PORTIONS \<le> unat x * unat req"
    by (simp only: word_le_nat_alt get_portions_to_make_amount_val [OF assms(1,2)] ceil_le_iff [OF r])
  also have "\<dots> \<longleftrightarrow> unat amount \<le> unat req * unat x div unat STAKING_PORTIONS"
    using S by (simp add: less_eq_div_iff_mult_less_eq mult.commute)
  finally show ?thesis
    by (simp add: word_le_nat_alt portions_to_amount_val [OF assms(3)])
qed

theorem get_portions_to_make_amount_least_witness:
  "25000000000 \<le> portions_to_amount 4611686018427387903 100000000000
   \<longleftrightarrow> get_portions_to_make_amount 100000000000 25000000000 \<le> 4611686018427387903"
  by (rule get_portions_to_make_amount_least) (simp_all add: STAKING_PORTIONS_def)

section \<open>The portions of a registration\<close>

text \<open>What the loop checks, without machine arithmetic.\<close>

fun portions_ok :: "nat \<Rightarrow> nat \<Rightarrow> nat list \<Rightarrow> bool" where
  "portions_ok i reserved [] = True"
| "portions_ok i reserved (p # ps) =
     ((unat STAKING_PORTIONS - reserved) div (4 - i) \<le> p \<and> portions_ok (Suc i) (reserved + p) ps)"

lemma check_portions_loop_ok:
  assumes "unat r + sum_list (map unat ps) < 2 ^ 64" and "unat i + length ps \<le> 4" and "\<not> v < 11"
  shows "(case check_portions_loop v i r ps of None \<Rightarrow> False | Some r' \<Rightarrow> r' \<le> STAKING_PORTIONS)
    \<longleftrightarrow> portions_ok (unat i) (unat r) (map unat ps) \<and> unat r + sum_list (map unat ps) \<le> unat STAKING_PORTIONS"
  using assms
proof (induction ps arbitrary: i r)
  case Nil
  then show ?case by (simp add: word_le_nat_alt)
next
  case (Cons p ps)
  have rp: "unat (r + p) = unat r + unat p" using Cons.prems(1) by (intro unat_add_nowrap) simp
  have i: "unat (i + 1) = Suc (unat i)" using Cons.prems(2) by (subst unat_add_nowrap) simp_all
  have IH: "(case check_portions_loop v (i + 1) (r + p) ps of None \<Rightarrow> False | Some r' \<Rightarrow> r' \<le> STAKING_PORTIONS)
    \<longleftrightarrow> portions_ok (Suc (unat i)) (unat r + unat p) (map unat ps)
      \<and> unat r + (unat p + sum_list (map unat ps)) \<le> unat STAKING_PORTIONS"
    using Cons.IH [of "r + p" "i + 1"] Cons.prems by (simp add: rp i add.assoc)
  show ?case
  proof (cases "unat r \<le> unat STAKING_PORTIONS")
    case True
    have "unat (4 - i) = 4 - unat i" and lt: "i < 4"
      using Cons.prems(2) by (simp_all add: unat_sub_nowrap word_less_nat_alt)
    then have "unat (get_min_node_contribution v STAKING_PORTIONS r i) = (unat STAKING_PORTIONS - unat r) div (4 - unat i)"
      using True Cons.prems(3) by (simp add: get_min_node_contribution_def network_version_11_infinite_staking_def
          MAX_NUMBER_OF_CONTRIBUTORS_def MAX_KEY_IMAGES_PER_CONTRIBUTOR_def unat_div_distrib unat_sub_nowrap not_le)
    then show ?thesis using IH by (auto simp: Let_def word_less_nat_alt)
  next
    case False
    then show ?thesis using IH by (auto simp: Let_def)
  qed
qed

text \<open>Two portions whose total overflows: the wrapped total is below the first one.\<close>

lemma wrapped_pair_accepted:
  assumes "\<not> v < 11" and "p \<le> STAKING_PORTIONS" and "STAKING_PORTIONS div 4 \<le> p" and "2 ^ 64 \<le> unat p + unat q"
  shows "check_full_node_portions v [p, q]"
proof -
  have v: "\<not> v < network_version_11_infinite_staking" using assms(1) by (simp add: network_version_11_infinite_staking_def)
  have "get_min_node_contribution v STAKING_PORTIONS 0 0 = STAKING_PORTIONS div 4"
    using v by (simp add: get_min_node_contribution_def MAX_NUMBER_OF_CONTRIBUTORS_def MAX_KEY_IMAGES_PER_CONTRIBUTOR_def STAKING_PORTIONS_def)
  moreover have "get_min_node_contribution v STAKING_PORTIONS p 1 = (STAKING_PORTIONS - p) div 3"
  proof -
    have "\<not> (4 :: u64) \<le> 1" by (simp add: word_le_nat_alt)
    then show ?thesis
      using v by (simp add: get_min_node_contribution_def MAX_NUMBER_OF_CONTRIBUTORS_def MAX_KEY_IMAGES_PER_CONTRIBUTOR_def)
  qed
  moreover have "(STAKING_PORTIONS - p) div 3 \<le> q"
  proof -
    have "unat ((STAKING_PORTIONS - p) div 3) \<le> unat (STAKING_PORTIONS - p)" by (simp add: unat_div_distrib)
    also have "\<dots> = unat STAKING_PORTIONS - unat p" using assms(2) by (intro unat_sub_nowrap) (simp add: word_le_nat_alt)
    also have "\<dots> \<le> unat q" using assms(4) unat_u64_less [of STAKING_PORTIONS] by simp
    finally show ?thesis by (simp add: word_le_nat_alt)
  qed
  moreover have "p + q \<le> STAKING_PORTIONS"
  proof -
    have "unat (p + q) = unat p + unat q - 2 ^ 64"
      using assms(4) unat_u64_less [of p] unat_u64_less [of q] by (simp add: unat_word_ariths mod_if)
    then have "unat (p + q) \<le> unat p" using unat_u64_less [of q] by simp
    then show ?thesis using assms(2) by (simp add: word_le_nat_alt)
  qed
  ultimately show ?thesis
    using assms(3) by (simp add: check_full_node_portions_def MAX_NUMBER_OF_CONTRIBUTORS_def Let_def not_less)
qed

text \<open>
  C32. What the check of portions accepts from version 11 on. When the portions do not overflow 64 bits in total, they
  pass exactly when there are at most four, each is at least an equal share of what is left for the remaining
  contributors, and the total does not exceed the maximum. But the running total is a 64-bit sum: any two portions
  that overflow it, the first one between a quarter and all of the maximum, pass as well.
\<close>
theorem check_full_node_portions_wraps:
  assumes "\<not> v < 11"
  shows "(sum_list (map unat portions) < 2 ^ 64 \<longrightarrow>
      (check_full_node_portions v portions \<longleftrightarrow> length portions \<le> 4
        \<and> portions_ok 0 0 (map unat portions) \<and> sum_list (map unat portions) \<le> unat STAKING_PORTIONS))
    \<and> (p \<le> STAKING_PORTIONS \<and> STAKING_PORTIONS div 4 \<le> p \<and> 2 ^ 64 \<le> unat p + unat q \<longrightarrow>
      check_full_node_portions v [p, q] \<and> unat STAKING_PORTIONS < sum_list (map unat [p, q]))"
proof (intro conjI impI)
  show "check_full_node_portions v portions \<longleftrightarrow> length portions \<le> 4
      \<and> portions_ok 0 0 (map unat portions) \<and> sum_list (map unat portions) \<le> unat STAKING_PORTIONS"
    if "sum_list (map unat portions) < 2 ^ 64"
    using check_portions_loop_ok [of 0 portions 0 v] assms that
    by (auto simp: check_full_node_portions_def MAX_NUMBER_OF_CONTRIBUTORS_def)
next
  assume pq: "p \<le> STAKING_PORTIONS \<and> STAKING_PORTIONS div 4 \<le> p \<and> 2 ^ 64 \<le> unat p + unat q"
  then show "check_full_node_portions v [p, q]" using assms by (blast intro: wrapped_pair_accepted)
  show "unat STAKING_PORTIONS < sum_list (map unat [p, q])" using pq unat_u64_less [of STAKING_PORTIONS] by simp
qed

theorem check_full_node_portions_wraps_witness:
  "check_full_node_portions 11 [9223372036854775806, 9223372036854775806] \<and> \<not> check_full_node_portions 11 [1, 2]
   \<and> check_full_node_portions 11 [STAKING_PORTIONS, STAKING_PORTIONS]"
proof -
  have "portions_ok 0 0 (map unat [9223372036854775806, 9223372036854775806 :: u64])"
    "\<not> portions_ok 0 0 (map unat [1, 2 :: u64])"
    by (simp_all add: STAKING_PORTIONS_nat)
  moreover have "STAKING_PORTIONS div 4 \<le> STAKING_PORTIONS" "2 ^ 64 \<le> unat STAKING_PORTIONS + unat STAKING_PORTIONS"
    by (simp_all add: STAKING_PORTIONS_nat) (simp add: STAKING_PORTIONS_def)
  ultimately show ?thesis
    using check_full_node_portions_wraps [of 11 "[9223372036854775806, 9223372036854775806]" STAKING_PORTIONS STAKING_PORTIONS]
      check_full_node_portions_wraps [of 11 "[1, 2]" STAKING_PORTIONS STAKING_PORTIONS]
    by (simp add: STAKING_PORTIONS_nat)
qed

end
