(* ===== verification/Transaction.thy ===== *)
theory Transaction
  imports TxExtra FullNodeRules
begin

text \<open>
  Transactions and blocks, \<^verbatim>\<open>src/cryptonote_basic/cryptonote_basic.h\<close>: the input and output variants,
  the prefix with its binary format, the transaction type kept in a union with the older
  deregistration flag, and the functions of \<^verbatim>\<open>cryptonote_format_utils.cpp\<close> on amounts, offsets and
  heights. Of the ring signatures only the fee is kept.
\<close>

section \<open>Data\<close>

datatype txin_v =
    txin_gen u64
  | txin_to_script crypto_hash u64 bytes
  | txin_to_scripthash crypto_hash u64 "public_key list" bytes bytes
  | txin_to_key u64 "u64 list" key_image

datatype txout_target_v =
    txout_to_script "public_key list" bytes
  | txout_to_scripthash crypto_hash
  | txout_to_key public_key

record tx_out =
  amount :: u64
  target :: txout_target_v

datatype type_t = type_standard | type_deregister | type_key_image_unlock | type_count

fun type_num :: "type_t \<Rightarrow> u16" where
  "type_num type_standard = 0"
| "type_num type_deregister = 1"
| "type_num type_key_image_unlock = 2"
| "type_num type_count = 3"

definition type_of_num :: "u16 \<Rightarrow> type_t" where
  "type_of_num n =
     (if n = 0 then type_standard else if n = 1 then type_deregister
      else if n = 2 then type_key_image_unlock else type_count)"

text \<open>The union of \<open>bool is_deregister\<close> and \<open>uint16_t type\<close> is the word \<open>tx_type\<close>; the flag is its low byte.\<close>

record transaction_prefix =
  version :: u64
  unlock_time :: u64
  vin :: "txin_v list"
  vout :: "tx_out list"
  extra :: bytes
  output_unlock_times :: "u64 list"
  tx_type :: u16

record transaction = transaction_prefix +
  txnFee :: u64

record block =
  major_version :: u8
  minor_version :: u8
  timestamp :: u64
  prev_id :: crypto_hash
  nonce :: u32
  miner_tx :: transaction
  tx_hashes :: "crypto_hash list"

definition version_2 :: u64 where "version_2 = 2"
definition version_3_per_output_unlock_times :: u64 where "version_3_per_output_unlock_times = 3"
definition version_4_tx_types :: u64 where "version_4_tx_types = 4"

definition set_null_prefix :: transaction_prefix where
  "set_null_prefix = \<lparr>version = 1, unlock_time = 0, vin = [], vout = [], extra = [],
     output_unlock_times = [], tx_type = 0\<rparr>"

section \<open>Versions and types\<close>

definition validate_nettype :: "network_type \<Rightarrow> network_type" where
  "validate_nettype nettype = (if nettype = UNDEFINED then MAINNET else nettype)"

definition get_max_version_for_hf :: "int \<Rightarrow> network_type \<Rightarrow> u64" where
  "get_max_version_for_hf hf_version nettype =
     (let nettype = validate_nettype nettype
      in if hf_version \<ge> 7 \<and> hf_version \<le> 8 then version_2
         else if hf_version \<ge> 9 \<and> hf_version \<le> 10 then version_3_per_output_unlock_times
         else version_4_tx_types)"

definition get_min_version_for_hf :: "int \<Rightarrow> network_type \<Rightarrow> u64" where
  "get_min_version_for_hf hf_version nettype =
     (let nettype = validate_nettype nettype
      in if nettype = MAINNET \<and> hf_version = 10 then version_2
         else if hf_version \<ge> 7 \<and> hf_version \<le> 9 then version_2
         else if hf_version = 10 then version_3_per_output_unlock_times
         else version_4_tx_types)"

definition is_deregister :: "'a transaction_prefix_scheme \<Rightarrow> bool" where
  "is_deregister tx \<longleftrightarrow> (ucast (tx_type tx) :: u8) \<noteq> 0"

definition get_type :: "'a transaction_prefix_scheme \<Rightarrow> type_t" where
  "get_type tx =
     (if version tx \<le> version_2 then type_standard
      else if version tx = version_3_per_output_unlock_times
        then if is_deregister tx then type_deregister else type_standard
      else type_of_num (tx_type tx))"

definition set_type :: "type_t \<Rightarrow> 'a transaction_prefix_scheme \<Rightarrow> bool \<times> 'a transaction_prefix_scheme" where
  "set_type new_type tx =
     (let result = False;
          result = (if version tx \<le> version_2 then new_type = type_standard else result);
          result = (if version tx = version_3_per_output_unlock_times
                    then if new_type = type_standard \<or> new_type = type_deregister then True else result
                    else True)
      in (result, if result then tx\<lparr>tx_type := type_num new_type\<rparr> else tx))"

definition get_unlock_time :: "'a transaction_prefix_scheme \<Rightarrow> nat \<Rightarrow> u64" where
  "get_unlock_time tx out_index =
     (if version tx \<ge> version_3_per_output_unlock_times
      then if out_index \<ge> length (output_unlock_times tx) then unlock_time tx
           else output_unlock_times tx ! out_index
      else unlock_time tx)"

section \<open>The binary format of the prefix\<close>

definition u8_vector_store :: "bytes \<Rightarrow> bytes" where
  "u8_vector_store = do_serialize_container_store (serialize_uint_store 1)"

definition u8_vector_load :: "bytes reader" where
  "u8_vector_load = do_serialize_container_load (serialize_uint_load 1)"

fun txin_store :: "txin_v \<Rightarrow> bytes" where
  "txin_store (txin_gen height) = 0xff # write_varint height"
| "txin_store (txin_to_script prev prevout sigset) = 0x0 # prev @ write_varint prevout @ u8_vector_store sigset"
| "txin_store (txin_to_scripthash prev prevout keys script sigset) =
     0x1 # prev @ write_varint prevout @ do_serialize_container_store (\<lambda>k. k) keys @ u8_vector_store script @
     u8_vector_store sigset"
| "txin_store (txin_to_key a key_offsets k_image) =
     0x2 # write_varint a @ do_serialize_container_store write_varint key_offsets @ k_image"

fun txin_load :: "txin_v reader" where
  "txin_load [] = None"
| "txin_load (tag # bs) =
     (if tag = 0xff then do { (height, bs) \<leftarrow> serialize_uvarint_load bs; Some (txin_gen height, bs) }
      else if tag = 0x0 then do {
        (prev, bs) \<leftarrow> serialize_blob_load 32 bs;
        (prevout, bs) \<leftarrow> serialize_uvarint_load bs;
        (sigset, bs) \<leftarrow> u8_vector_load bs;
        Some (txin_to_script prev prevout sigset, bs) }
      else if tag = 0x1 then do {
        (prev, bs) \<leftarrow> serialize_blob_load 32 bs;
        (prevout, bs) \<leftarrow> serialize_uvarint_load bs;
        (keys, bs) \<leftarrow> do_serialize_container_load (serialize_blob_load 32) bs;
        (script, bs) \<leftarrow> u8_vector_load bs;
        (sigset, bs) \<leftarrow> u8_vector_load bs;
        Some (txin_to_scripthash prev prevout keys script sigset, bs) }
      else if tag = 0x2 then do {
        (a, bs) \<leftarrow> serialize_uvarint_load bs;
        (key_offsets, bs) \<leftarrow> do_serialize_container_load serialize_uvarint_load bs;
        (k_image, bs) \<leftarrow> serialize_blob_load 32 bs;
        Some (txin_to_key a key_offsets k_image, bs) }
      else None)"

fun txout_target_store :: "txout_target_v \<Rightarrow> bytes" where
  "txout_target_store (txout_to_script keys script) =
     0x0 # do_serialize_container_store (\<lambda>k. k) keys @ u8_vector_store script"
| "txout_target_store (txout_to_scripthash hash) = 0x1 # hash"
| "txout_target_store (txout_to_key key) = 0x2 # key"

fun txout_target_load :: "txout_target_v reader" where
  "txout_target_load [] = None"
| "txout_target_load (tag # bs) =
     (if tag = 0x0 then do {
        (keys, bs) \<leftarrow> do_serialize_container_load (serialize_blob_load 32) bs;
        (script, bs) \<leftarrow> u8_vector_load bs;
        Some (txout_to_script keys script, bs) }
      else if tag = 0x1 then do { (hash, bs) \<leftarrow> serialize_blob_load 32 bs; Some (txout_to_scripthash hash, bs) }
      else if tag = 0x2 then do { (key, bs) \<leftarrow> serialize_blob_load 32 bs; Some (txout_to_key key, bs) }
      else None)"

definition tx_out_store :: "tx_out \<Rightarrow> bytes" where
  "tx_out_store out = write_varint (amount out) @ txout_target_store (target out)"

definition tx_out_load :: "tx_out reader" where
  "tx_out_load bs = do {
     (a, bs) \<leftarrow> serialize_uvarint_load bs;
     (t, bs) \<leftarrow> txout_target_load bs;
     Some (\<lparr>amount = a, target = t\<rparr>, bs)
   }"

text \<open>A \<open>uint16_t\<close> varint: the loop with 16 bits.\<close>

definition u16_varint_load :: "u16 reader" where
  "u16_varint_load bs = (let (_, v, rest) = read_varint_loop 16 0 0 0 bs in Some (ucast v, rest))"

definition prefix_store :: "transaction_prefix \<Rightarrow> bytes option" where
  "prefix_store tx =
     (let head = write_varint (version tx);
          times = (if version tx > 2
                   then do_serialize_container_store write_varint (output_unlock_times tx) @
                        (if version tx = version_3_per_output_unlock_times then [ucast (tx_type tx)] else [])
                   else [])
      in if version tx = 0 \<or> version tx > version_4_tx_types then None
         else if version tx \<ge> 3 \<and> length (vout tx) \<noteq> length (output_unlock_times tx) then None
         else if version tx \<ge> version_4_tx_types \<and> tx_type tx \<ge> type_num type_count then None
         else Some (head @ times @ write_varint (unlock_time tx) @
           do_serialize_container_store txin_store (vin tx) @
           do_serialize_container_store tx_out_store (vout tx) @
           u8_vector_store (extra tx) @
           (if version tx \<ge> version_4_tx_types then write_varint (ucast (tx_type tx)) else [])))"

text \<open>Reading into a transaction that \<open>set_null\<close> has cleared.\<close>

definition prefix_load :: "transaction_prefix reader" where
  "prefix_load bs = do {
     (ver, bs) \<leftarrow> serialize_uvarint_load bs;
     (times, bs) \<leftarrow> (if ver > 2 then do_serialize_container_load serialize_uvarint_load bs else Some ([], bs));
     (flag, bs) \<leftarrow> (if ver = version_3_per_output_unlock_times then serialize_uint_load 1 bs else Some (0 :: u8, bs));
     if ver = 0 \<or> ver > version_4_tx_types then None else do {
     (unlock, bs) \<leftarrow> serialize_uvarint_load bs;
     (ins, bs) \<leftarrow> do_serialize_container_load txin_load bs;
     (outs, bs) \<leftarrow> do_serialize_container_load tx_out_load bs;
     if ver \<ge> 3 \<and> length outs \<noteq> length times then None else do {
     (ext, bs) \<leftarrow> u8_vector_load bs;
     (ty, bs) \<leftarrow> (if ver \<ge> version_4_tx_types then u16_varint_load bs else Some (ucast flag, bs));
     if ver \<ge> version_4_tx_types \<and> ty \<ge> type_num type_count then None
     else Some (\<lparr>version = ver, unlock_time = unlock, vin = ins, vout = outs, extra = ext,
       output_unlock_times = times, tx_type = ty\<rparr>, bs) } } }"

section \<open>Amounts, offsets and heights\<close>

text \<open>\<^const>\<open>None\<close> is the early return when an input is not a \<open>txin_to_key\<close>.\<close>

fun get_inputs_money_loop :: "u64 \<Rightarrow> txin_v list \<Rightarrow> u64 option" where
  "get_inputs_money_loop money [] = Some money"
| "get_inputs_money_loop money (txin_to_key a _ _ # ins) = get_inputs_money_loop (money + a) ins"
| "get_inputs_money_loop money (_ # ins) = None"

definition get_inputs_money_amount :: "'a transaction_prefix_scheme \<Rightarrow> u64 option" where
  "get_inputs_money_amount tx = get_inputs_money_loop 0 (vin tx)"

fun check_inputs_types_supported_loop :: "txin_v list \<Rightarrow> bool" where
  "check_inputs_types_supported_loop [] = True"
| "check_inputs_types_supported_loop (txin_to_key _ _ _ # ins) = check_inputs_types_supported_loop ins"
| "check_inputs_types_supported_loop (_ # ins) = False"

definition check_inputs_types_supported :: "'a transaction_prefix_scheme \<Rightarrow> bool" where
  "check_inputs_types_supported tx = check_inputs_types_supported_loop (vin tx)"

fun check_inputs_overflow_loop :: "u64 \<Rightarrow> txin_v list \<Rightarrow> bool" where
  "check_inputs_overflow_loop money [] = True"
| "check_inputs_overflow_loop money (txin_to_key a _ _ # ins) =
     (if money > a + money then False else check_inputs_overflow_loop (money + a) ins)"
| "check_inputs_overflow_loop money (_ # ins) = False"

definition check_inputs_overflow :: "'a transaction_prefix_scheme \<Rightarrow> bool" where
  "check_inputs_overflow tx = check_inputs_overflow_loop 0 (vin tx)"

fun check_outs_overflow_loop :: "u64 \<Rightarrow> tx_out list \<Rightarrow> bool" where
  "check_outs_overflow_loop money [] = True"
| "check_outs_overflow_loop money (out # outs) =
     (if money > amount out + money then False else check_outs_overflow_loop (money + amount out) outs)"

definition check_outs_overflow :: "'a transaction_prefix_scheme \<Rightarrow> bool" where
  "check_outs_overflow tx = check_outs_overflow_loop 0 (vout tx)"

definition check_money_overflow :: "'a transaction_prefix_scheme \<Rightarrow> bool" where
  "check_money_overflow tx \<longleftrightarrow> check_inputs_overflow tx \<and> check_outs_overflow tx"

definition get_outs_money_amount :: "'a transaction_prefix_scheme \<Rightarrow> u64" where
  "get_outs_money_amount tx = fold (\<lambda>out outputs_amount. outputs_amount + amount out) (vout tx) 0"

definition get_tx_fee :: "transaction \<Rightarrow> u64 option" where
  "get_tx_fee tx =
     (if version tx > 1 then Some (txnFee tx)
      else do {
        amount_in \<leftarrow> get_inputs_money_loop 0 (vin tx);
        let amount_out = fold (\<lambda>out a. a + amount out) (vout tx) 0;
        if \<not> amount_in \<ge> amount_out then None else Some (amount_in - amount_out)
      })"

text \<open>The check that every output of a transaction is acceptable; \<open>check_key\<close> tests a point of the curve.\<close>

definition check_outs_valid :: "(public_key \<Rightarrow> bool) \<Rightarrow> 'a transaction_prefix_scheme \<Rightarrow> bool" where
  "check_outs_valid check_key tx =
     (if get_type tx \<noteq> type_standard \<and> length (vout tx) \<noteq> 0 then False
      else if version tx \<ge> 3 \<and> length (vout tx) \<noteq> length (output_unlock_times tx) then False
      else list_all (\<lambda>out. case target out of
          txout_to_key key \<Rightarrow> \<not> (version tx = 1 \<and> \<not> 0 < amount out) \<and> check_key key
        | _ \<Rightarrow> False) (vout tx))"

definition get_block_height :: "block \<Rightarrow> u64" where
  "get_block_height b = (case vin (miner_tx b) of [txin_gen height] \<Rightarrow> height | _ \<Rightarrow> 0)"

fun to_absolute_loop :: "u64 \<Rightarrow> u64 list \<Rightarrow> u64 list" where
  "to_absolute_loop prev [] = []"
| "to_absolute_loop prev (x # xs) = (x + prev) # to_absolute_loop (x + prev) xs"

fun relative_output_offsets_to_absolute :: "u64 list \<Rightarrow> u64 list" where
  "relative_output_offsets_to_absolute [] = []"
| "relative_output_offsets_to_absolute (x # xs) = x # to_absolute_loop x xs"

text \<open>The loop runs downwards, so each element is reduced by its unchanged predecessor.\<close>

fun to_relative_loop :: "u64 \<Rightarrow> u64 list \<Rightarrow> u64 list" where
  "to_relative_loop prev [] = []"
| "to_relative_loop prev (x # xs) = (x - prev) # to_relative_loop x xs"

definition absolute_output_offsets_to_relative :: "u64 list \<Rightarrow> u64 list" where
  "absolute_output_offsets_to_relative off =
     (case sort off of [] \<Rightarrow> [] | x # xs \<Rightarrow> x # to_relative_loop x xs)"

definition power_integral :: "u64 \<Rightarrow> u64 \<Rightarrow> u64" where
  "power_integral a b = (if b = 0 then 1 else ((\<lambda>total. total * a) ^^ (unat b - 1)) a)"

section \<open>Round trip of the prefix\<close>

fun valid_txin :: "txin_v \<Rightarrow> bool" where
  "valid_txin (txin_gen height) = True"
| "valid_txin (txin_to_script prev prevout sigset) = (length prev = 32 \<and> length sigset < 2 ^ 64)"
| "valid_txin (txin_to_scripthash prev prevout keys script sigset) =
     (length prev = 32 \<and> (\<forall>k \<in> set keys. length k = 32) \<and> length keys < 2 ^ 64
      \<and> length script < 2 ^ 64 \<and> length sigset < 2 ^ 64)"
| "valid_txin (txin_to_key a key_offsets k_image) = (length key_offsets < 2 ^ 64 \<and> length k_image = 32)"

fun valid_target :: "txout_target_v \<Rightarrow> bool" where
  "valid_target (txout_to_script keys script) =
     ((\<forall>k \<in> set keys. length k = 32) \<and> length keys < 2 ^ 64 \<and> length script < 2 ^ 64)"
| "valid_target (txout_to_scripthash hash) = (length hash = 32)"
| "valid_target (txout_to_key key) = (length key = 32)"

text \<open>The prefixes the format represents at each version.\<close>

definition valid_prefix :: "transaction_prefix \<Rightarrow> bool" where
  "valid_prefix tx \<longleftrightarrow>
     1 \<le> version tx \<and> version tx \<le> 4
     \<and> (\<forall>i \<in> set (vin tx). valid_txin i) \<and> length (vin tx) < 2 ^ 64
     \<and> (\<forall>out \<in> set (vout tx). valid_target (target out)) \<and> length (vout tx) < 2 ^ 64
     \<and> length (extra tx) < 2 ^ 64
     \<and> (version tx < 3 \<longrightarrow> output_unlock_times tx = [] \<and> tx_type tx = 0)
     \<and> (version tx \<ge> 3 \<longrightarrow> length (output_unlock_times tx) = length (vout tx))
     \<and> (version tx = 3 \<longrightarrow> tx_type tx < 2)
     \<and> (version tx = 4 \<longrightarrow> tx_type tx < 3)"

interpretation u8_codec: element_codec "serialize_uint_store 1" "serialize_uint_load 1 :: u8 reader" "\<lambda>_. True"
  by unfold_locales (rule uint_round_trip, simp_all)

lemma u8_vector_round_trip:
  "length b < 2 ^ 64 \<Longrightarrow> u8_vector_load (u8_vector_store b @ rest) = Some (b, rest)"
  unfolding u8_vector_load_def u8_vector_store_def by (intro u8_codec.container_round_trip) simp_all

lemmas tx_round_trips = blob_round_trip varint_round_trip_reader u8_vector_round_trip
  key_codec.container_round_trip varint_codec.container_round_trip

lemma txin_round_trip: "valid_txin i \<Longrightarrow> txin_load (txin_store i @ rest) = Some (i, rest)"
  by (cases i) (simp_all add: tx_round_trips)

lemma target_round_trip: "valid_target t \<Longrightarrow> txout_target_load (txout_target_store t @ rest) = Some (t, rest)"
  by (cases t) (simp_all add: tx_round_trips)

interpretation txin_codec: element_codec txin_store txin_load valid_txin
proof
  show "txin_store i \<noteq> []" for i by (cases i) simp_all
qed (rule txin_round_trip)

interpretation tx_out_codec: element_codec tx_out_store tx_out_load "\<lambda>out. valid_target (target out)"
proof
  show "tx_out_load (tx_out_store out @ rest) = Some (out, rest)" if "valid_target (target out)" for out rest
    using that by (simp add: tx_out_load_def tx_out_store_def tx_round_trips target_round_trip)
qed (simp add: tx_out_store_def)

lemma u16_less_3:
  assumes "t < 3"
  shows "t = 0 \<or> t = 1 \<or> t = (2 :: u16)"
proof -
  have "unat t < 3" using assms by (simp add: word_less_nat_alt)
  then have "unat t = 0 \<or> unat t = 1 \<or> unat t = 2" by linarith
  then show ?thesis by (simp add: word_unat_eq_iff)
qed

lemma u16_varint_round_trip:
  assumes "t < 3"
  shows "u16_varint_load (write_varint (ucast t) @ rest) = Some (t, rest)"
proof -
  have "\<not> (0x80 :: u64) \<le> 0" "\<not> (0x80 :: u64) \<le> 1" "\<not> (0x80 :: u64) \<le> 2"
    by (simp_all add: word_le_nat_alt)
  with u16_less_3 [OF assms] show ?thesis
    by (elim disjE) (simp_all add: u16_varint_load_def write_varint.simps)
qed

lemma flag_round_trip: "t < 2 \<Longrightarrow> ucast (ucast t :: u8) = (t :: u16)"
  by (simp add: word_unat_eq_iff unsigned_ucast_eq take_bit_nat_eq_self word_less_nat_alt
      unsigned_take_bit_eq)

text \<open>
  C35. A transaction prefix that the format represents is written successfully and read back exactly,
  for each of the transaction versions 1 to 4, with its per-output unlock times and its type.
\<close>
theorem transaction_prefix_round_trip:
  assumes "valid_prefix tx"
  shows "\<exists>b. prefix_store tx = Some b \<and> prefix_load (b @ rest) = Some (tx, rest)"
proof -
  obtain ver unl ins outs ext times ty where tx: "tx = \<lparr>version = ver, unlock_time = unl, vin = ins, vout = outs,
      extra = ext, output_unlock_times = times, tx_type = ty\<rparr>" by (cases tx) auto
  note v = assms [unfolded valid_prefix_def tx, simplified]
  have "1 \<le> ver" "ver \<le> 4" using v by simp_all
  then have "1 \<le> unat ver" "unat ver \<le> 4" by (simp_all add: word_le_nat_alt)
  then have "unat ver = 1 \<or> unat ver = 2 \<or> unat ver = 3 \<or> unat ver = 4" by linarith
  then have ver: "ver = 1 \<or> ver = 2 \<or> ver = 3 \<or> ver = 4" by (simp add: word_unat_eq_iff)
  note rt = tx_round_trips txin_codec.container_round_trip tx_out_codec.container_round_trip
  have small: "((1 :: u64) > 2) = False" "((1 :: u64) \<ge> 3) = False" "((1 :: u64) \<ge> 4) = False"
      "((1 :: u64) > 4) = False"
    by (simp_all add: word_less_nat_alt word_le_nat_alt)
  note cs = version_3_per_output_unlock_times_def version_4_tx_types_def small
  show ?thesis
    using ver
  proof (elim disjE)
    assume 4: "ver = 4"
    then have "(3 \<le> ty) = False" using v by (simp add: not_le)
    with 4 show ?thesis using v
      by (simp add: prefix_store_def prefix_load_def tx cs rt u16_varint_round_trip)
  next
    assume "ver = 3"
    then show ?thesis using v
      by (simp add: prefix_store_def prefix_load_def tx cs rt serialize_uint_load_def flag_round_trip)
  next
    assume "ver = 2"
    then show ?thesis using v by (simp add: prefix_store_def prefix_load_def tx cs rt)
  next
    assume "ver = 1"
    then show ?thesis using v by (simp add: prefix_store_def prefix_load_def tx cs rt)
  qed
qed

theorem transaction_prefix_round_trip_witness:
  "\<exists>b. prefix_store \<lparr>version = 3, unlock_time = 35, vin = [txin_gen 5], vout = [\<lparr>amount = 7, target = txout_to_key (replicate 32 1)\<rparr>],
       extra = [1, 2], output_unlock_times = [35], tx_type = 1\<rparr> = Some b
     \<and> prefix_load (b @ [9]) = Some (\<lparr>version = 3, unlock_time = 35, vin = [txin_gen 5],
       vout = [\<lparr>amount = 7, target = txout_to_key (replicate 32 1)\<rparr>],
       extra = [1, 2], output_unlock_times = [35], tx_type = 1\<rparr>, [9])"
  by (rule transaction_prefix_round_trip) (simp add: valid_prefix_def word_less_nat_alt word_le_nat_alt)

section \<open>Types\<close>

text \<open>
  In versions 3 and 4 a type that \<^const>\<open>set_type\<close> accepts is the type \<^const>\<open>get_type\<close> returns, and
  version 3 rejects every type but the standard and the deregistration one. Below version 3 every
  type is accepted, although \<^const>\<open>get_type\<close> always answers the standard type there.
\<close>
theorem set_type_get_type:
  assumes "set_type ty tx = (r, tx')" and "ty \<noteq> type_count" and "version tx \<le> 4"
  shows "(r \<longrightarrow> version tx \<ge> 3 \<longrightarrow> get_type tx' = ty)
    \<and> (version tx = 3 \<longrightarrow> r = (ty = type_standard \<or> ty = type_deregister))
    \<and> (version tx \<le> 2 \<longrightarrow> r \<and> get_type tx' = type_standard)"
proof -
  have le: "\<not> version tx \<le> 2 \<or> \<not> version tx \<ge> 3" by (auto simp: word_le_nat_alt)
  have 23: "\<not> (3 :: u64) \<le> 2" by (simp add: word_le_nat_alt)
  show ?thesis
    using assms(1,2) le 23
    by (cases ty; cases "version tx = 3"; cases "version tx \<le> 2")
      (auto simp: set_type_def get_type_def version_2_def version_3_per_output_unlock_times_def
        is_deregister_def type_of_num_def)
qed

theorem set_type_get_type_witness:
  "fst (set_type type_deregister (set_null_prefix\<lparr>version := 2\<rparr>))
   \<and> get_type (snd (set_type type_deregister (set_null_prefix\<lparr>version := 2\<rparr>))) = type_standard"
  using set_type_get_type [of type_deregister "set_null_prefix\<lparr>version := 2\<rparr>"]
  by (cases "set_type type_deregister (set_null_prefix\<lparr>version := 2\<rparr>)") (simp add: set_null_prefix_def)

section \<open>Amounts and offsets\<close>

lemma check_wrap: "money > a + money \<longleftrightarrow> 2 ^ 64 \<le> unat money + unat (a :: u64)"
  using add_carry [of money a] unat_u64_less [of "money + a"] unat_u64_less [of money] unat_u64_less [of a]
  unfolding add.commute [of a money] by (cases "money + a < money") auto

lemma check_outs_overflow_loop_iff:
  "check_outs_overflow_loop m outs \<longleftrightarrow> unat m + sum_list (map (unat \<circ> amount) outs) < 2 ^ 64"
proof (induction outs arbitrary: m)
  case (Cons out outs)
  have "unat (m + amount out) = unat m + unat (amount out)" if "unat m + unat (amount out) < 2 ^ 64"
    using that by (intro unat_add_nowrap) simp
  then show ?case using Cons.IH [of "m + amount out"] by (auto simp: check_wrap add.assoc)
qed (use unat_u64_less in simp)

fun input_amount :: "txin_v \<Rightarrow> nat option" where
  "input_amount (txin_to_key a _ _) = Some (unat a)"
| "input_amount _ = None"

lemma check_inputs_overflow_loop_iff:
  "check_inputs_overflow_loop m ins \<longleftrightarrow> list_all (\<lambda>i. input_amount i \<noteq> None) ins
     \<and> unat m + sum_list (map (the \<circ> input_amount) ins) < 2 ^ 64"
proof (induction m ins rule: check_inputs_overflow_loop.induct)
  case (2 m a uu uv ins)
  have "unat (m + a) = unat m + unat a" if "unat m + unat a < 2 ^ 64"
    using that by (intro unat_add_nowrap) simp
  then show ?case using 2 by (auto simp: check_wrap add.assoc)
qed (use unat_u64_less in simp_all)

text \<open>
  The money overflow check accepts a transaction exactly when all its inputs spend keys and
  neither the exact sum of the inputs nor that of the outputs reaches 2 to the power 64.
\<close>
theorem check_money_overflow_correct:
  "check_money_overflow tx \<longleftrightarrow> list_all (\<lambda>i. input_amount i \<noteq> None) (vin tx)
     \<and> sum_list (map (the \<circ> input_amount) (vin tx)) < 2 ^ 64
     \<and> sum_list (map (unat \<circ> amount) (vout tx)) < 2 ^ 64"
  by (simp add: check_money_overflow_def check_inputs_overflow_def check_outs_overflow_def
      check_inputs_overflow_loop_iff check_outs_overflow_loop_iff)

lemma to_absolute_relative: "to_absolute_loop p (to_relative_loop p xs) = xs"
  by (induction xs arbitrary: p) simp_all

text \<open>
  Turning absolute output offsets into relative ones and back returns the offsets in ascending
  order, whatever they were.
\<close>
theorem output_offsets_round_trip:
  "relative_output_offsets_to_absolute (absolute_output_offsets_to_relative off) = sort off"
  by (cases "sort off") (simp_all add: absolute_output_offsets_to_relative_def to_absolute_relative)

lemma power_integral_power: "power_integral a b = a ^ unat b"
proof (cases "b = 0")
  case False
  have "((\<lambda>t. t * a) ^^ n) a = a ^ Suc n" for n by (induction n) (simp_all add: mult.commute)
  then show ?thesis using False by (simp add: power_integral_def unat_gt_0 del: power_Suc)
qed (simp add: power_integral_def)

end
