(* ===== verification/HardFork.thy ===== *)
theory HardFork
  imports Transaction
begin

text \<open>
  Hard fork voting, \<^verbatim>\<open>src/cryptonote_basic/hardfork.cpp\<close>: the table of forks, the rolling window of block
  votes with a count per version, the index of the current fork, and the operations that add blocks,
  rescan, reorganise and pop. The database is reduced to the blocks by height and the stored fork
  version per height; an exception, or an access that is undefined in the code, is \<^const>\<open>None\<close>.
\<close>

record hardfork_t =
  fork_version :: u8
  fork_height :: u64
  fork_threshold :: u8
  fork_time :: int

record chain_db =
  db_blocks :: "block list"
  db_fork_versions :: "u64 \<rightharpoonup> u8"

record hard_fork =
  original_version :: u8
  forked_time :: int
  update_time :: int
  window_size :: u64
  default_threshold_percent :: u8
  heights :: "hardfork_t list"
  versions :: "u8 list"
  last_versions :: "u8 \<Rightarrow> u32"
  current_fork_index :: nat

datatype fork_state = LikelyForked | UpdateNeeded | Ready

definition db_height :: "chain_db \<Rightarrow> u64" where
  "db_height db = word_of_nat (length (db_blocks db))"

definition get_block_from_height :: "chain_db \<Rightarrow> u64 \<Rightarrow> block option" where
  "get_block_from_height db h = (if unat h < length (db_blocks db) then Some (db_blocks db ! unat h) else None)"

definition get_block_vote :: "block \<Rightarrow> u8" where
  "get_block_vote b = (if minor_version b = 0 then 1 else minor_version b)"

text \<open>The counts are not set before \<open>init\<close> clears them; they are 0 here.\<close>

definition HardFork_new :: "u8 \<Rightarrow> int \<Rightarrow> int \<Rightarrow> u64 \<Rightarrow> u8 \<Rightarrow> hard_fork option" where
  "HardFork_new original forked update window threshold =
     (if window = 0 then None
      else if threshold > 100 then None
      else Some \<lparr>original_version = original, forked_time = forked, update_time = update,
        window_size = window, default_threshold_percent = threshold, heights = [], versions = [],
        last_versions = (\<lambda>_. 0), current_fork_index = 0\<rparr>)"

definition add_fork :: "u8 \<Rightarrow> u64 \<Rightarrow> u8 \<Rightarrow> int \<Rightarrow> hard_fork \<Rightarrow> bool \<times> hard_fork" where
  "add_fork ver height threshold time st =
     (if ver = 0 then (False, st)
      else if heights st \<noteq> [] \<and> ver \<le> fork_version (last (heights st)) then (False, st)
      else if heights st \<noteq> [] \<and> height \<le> fork_height (last (heights st)) then (False, st)
      else if heights st \<noteq> [] \<and> time \<le> fork_time (last (heights st)) then (False, st)
      else if threshold > 100 then (False, st)
      else (True, st\<lparr>heights := heights st @ [\<lparr>fork_version = ver, fork_height = height,
        fork_threshold = threshold, fork_time = time\<rparr>]\<rparr>))"

definition get_effective_version :: "hard_fork \<Rightarrow> u8 \<Rightarrow> u8" where
  "get_effective_version st voting_version =
     (if heights st \<noteq> [] \<and> voting_version > fork_version (last (heights st))
      then fork_version (last (heights st)) else voting_version)"

definition do_check :: "hard_fork \<Rightarrow> u8 \<Rightarrow> u8 \<Rightarrow> bool" where
  "do_check st block_version voting_version \<longleftrightarrow>
     block_version = fork_version (heights st ! current_fork_index st)
     \<and> voting_version \<ge> fork_version (heights st ! current_fork_index st)"

definition check :: "hard_fork \<Rightarrow> block \<Rightarrow> bool" where
  "check st b = do_check st (major_version b) (get_block_vote b)"

text \<open>\<open>get_voted_fork_index\<close> from index \<open>n\<close> downwards, with the votes accumulated above it.\<close>

fun voted_fork_loop :: "hard_fork \<Rightarrow> u64 \<Rightarrow> nat \<Rightarrow> u32 \<Rightarrow> nat" where
  "voted_fork_loop st height 0 accumulated_votes = current_fork_index st"
| "voted_fork_loop st height (Suc n) accumulated_votes =
     (if Suc n > current_fork_index st then
        let f = heights st ! Suc n;
            accumulated_votes = accumulated_votes + last_versions st (fork_version f);
            threshold = (ucast ((window_size st * ucast (fork_threshold f) + 99) div 100) :: u32)
        in if height \<ge> fork_height f \<and> accumulated_votes \<ge> threshold then Suc n
           else voted_fork_loop st height n accumulated_votes
      else current_fork_index st)"

definition get_voted_fork_index :: "hard_fork \<Rightarrow> u64 \<Rightarrow> nat" where
  "get_voted_fork_index st height = voted_fork_loop st height (length (heights st) - 1) 0"

definition do_check_for_height :: "hard_fork \<Rightarrow> u8 \<Rightarrow> u8 \<Rightarrow> u64 \<Rightarrow> bool" where
  "do_check_for_height st block_version voting_version height \<longleftrightarrow>
     (let fork_index = get_voted_fork_index st height
      in block_version = fork_version (heights st ! fork_index)
         \<and> voting_version \<ge> fork_version (heights st ! fork_index))"

definition check_for_height :: "hard_fork \<Rightarrow> block \<Rightarrow> u64 \<Rightarrow> bool" where
  "check_for_height st b height = do_check_for_height st (major_version b) (get_block_vote b) height"

text \<open>The window loop of \<open>add\<close>: drop votes from the front until there is room for one more.\<close>

fun trim_window :: "u64 \<Rightarrow> u8 list \<Rightarrow> (u8 \<Rightarrow> u32) \<Rightarrow> u8 list \<times> (u8 \<Rightarrow> u32)" where
  "trim_window window [] counts = ([], counts)"
| "trim_window window (old_version # vs) counts =
     (if word_of_nat (length (old_version # vs)) \<ge> window
      then trim_window window vs (counts(old_version := counts old_version - 1))
      else (old_version # vs, counts))"

definition push_vote :: "u8 \<Rightarrow> hard_fork \<Rightarrow> hard_fork" where
  "push_vote v st = st\<lparr>last_versions := (last_versions st)(v := last_versions st v + 1),
     versions := versions st @ [v]\<rparr>"

definition advance_fork :: "u64 \<Rightarrow> hard_fork \<Rightarrow> hard_fork" where
  "advance_fork height st =
     (let voted = unat (word_of_nat (get_voted_fork_index st height) :: u8)
      in if voted > current_fork_index st then st\<lparr>current_fork_index := voted\<rparr> else st)"

definition add :: "u8 \<Rightarrow> u8 \<Rightarrow> u64 \<Rightarrow> hard_fork \<times> chain_db \<Rightarrow> bool \<times> hard_fork \<times> chain_db" where
  "add block_version voting_version height = (\<lambda>(st, db).
     if \<not> do_check st block_version voting_version then (False, st, db)
     else
       let db = db\<lparr>db_fork_versions := (db_fork_versions db)(height \<mapsto> fork_version (heights st ! current_fork_index st))\<rparr>;
           voting_version = get_effective_version st voting_version;
           (vs, counts) = trim_window (window_size st) (versions st) (last_versions st);
           st = push_vote voting_version (st\<lparr>versions := vs, last_versions := counts\<rparr>)
       in (True, advance_fork (height + 1) st, db))"

definition add_block :: "block \<Rightarrow> u64 \<Rightarrow> hard_fork \<times> chain_db \<Rightarrow> bool \<times> hard_fork \<times> chain_db" where
  "add_block b height = add (major_version b) (get_block_vote b) height"

definition clear_votes :: "hard_fork \<Rightarrow> hard_fork" where
  "clear_votes st = st\<lparr>versions := [], last_versions := (\<lambda>_. 0)\<rparr>"

text \<open>Counting the votes of the blocks at heights \<open>h, h + 1, \<dots>\<close>, \<open>n\<close> of them.\<close>

fun count_votes :: "chain_db \<Rightarrow> nat \<Rightarrow> nat \<Rightarrow> hard_fork \<Rightarrow> hard_fork option" where
  "count_votes db h 0 st = Some st"
| "count_votes db h (Suc n) st = do {
     b \<leftarrow> get_block_from_height db (word_of_nat h);
     count_votes db (Suc h) n (push_vote (get_effective_version st (get_block_vote b)) st)
   }"

fun find_fork_of_version :: "hardfork_t list \<Rightarrow> u8 \<Rightarrow> nat \<Rightarrow> nat" where
  "find_fork_of_version [] lastv i = i"
| "find_fork_of_version [f] lastv i = i"
| "find_fork_of_version (f # fs) lastv i =
     (if fork_version f \<noteq> lastv then find_fork_of_version fs lastv (Suc i) else i)"

definition rescan_from_block_height :: "chain_db \<Rightarrow> u64 \<Rightarrow> hard_fork \<Rightarrow> (bool \<times> hard_fork) option" where
  "rescan_from_block_height db height st =
     (if height \<ge> db_height db then Some (False, st)
      else do {
        st \<leftarrow> count_votes db (unat height) (unat (db_height db) - unat height) (clear_votes st);
        lastv \<leftarrow> db_fork_versions db (db_height db - 1);
        let st = st\<lparr>current_fork_index := find_fork_of_version (heights st) lastv 0\<rparr>;
        Some (True, advance_fork (db_height db) st)
      })"

definition rescan_from_chain_height :: "chain_db \<Rightarrow> u64 \<Rightarrow> hard_fork \<Rightarrow> (bool \<times> hard_fork) option" where
  "rescan_from_chain_height db height st =
     (if height = 0 then Some (False, st) else rescan_from_block_height db (height - 1) st)"

definition init :: "chain_db \<Rightarrow> hard_fork \<Rightarrow> hard_fork option" where
  "init db st =
     (let st = (if heights st = []
                then st\<lparr>heights := [\<lparr>fork_version = original_version st, fork_height = 0,
                  fork_threshold = 0, fork_time = 0\<rparr>]\<rparr> else st);
          st = (clear_votes st)\<lparr>current_fork_index := 0\<rparr>;
          height = db_height db;
          height = (if height > window_size st then height - (window_size st - 1) else 1)
      in map_option snd (rescan_from_chain_height db height st))"

fun lower_fork :: "hardfork_t list \<Rightarrow> u8 \<Rightarrow> nat \<Rightarrow> nat" where
  "lower_fork fs start_version 0 = 0"
| "lower_fork fs start_version (Suc i) =
     (if fork_version (fs ! Suc i) > start_version then lower_fork fs start_version i else Suc i)"

fun add_blocks :: "nat \<Rightarrow> nat \<Rightarrow> hard_fork \<times> chain_db \<Rightarrow> (hard_fork \<times> chain_db) option" where
  "add_blocks h 0 st = Some st"
| "add_blocks h (Suc n) st = do {
     b \<leftarrow> get_block_from_height (snd st) (word_of_nat h);
     add_blocks (Suc h) n (snd (add_block b (word_of_nat h) st))
   }"

definition reorganize_from_block_height :: "u64 \<Rightarrow> hard_fork \<times> chain_db \<Rightarrow> (bool \<times> hard_fork \<times> chain_db) option" where
  "reorganize_from_block_height height = (\<lambda>(st, db).
     if height \<ge> db_height db then Some (False, st, db)
     else do {
       let rescan_height = (if height \<ge> window_size st - 1 then height - (window_size st - 1) else 0);
       start_version \<leftarrow> (if height = 0 then Some (original_version st) else db_fork_versions db height);
       let st = (clear_votes st)\<lparr>current_fork_index := lower_fork (heights st) start_version (current_fork_index st)\<rparr>;
       st \<leftarrow> count_votes db (unat rescan_height) (Suc (unat height) - unat rescan_height) st;
       (st, db) \<leftarrow> add_blocks (Suc (unat height)) (unat (db_height db) - Suc (unat height))
         (advance_fork (height + 1) st, db);
       Some (True, st, db)
     })"

definition reorganize_from_chain_height :: "u64 \<Rightarrow> hard_fork \<times> chain_db \<Rightarrow> (bool \<times> hard_fork \<times> chain_db) option" where
  "reorganize_from_chain_height height st =
     (if height = 0 then Some (False, st) else reorganize_from_block_height (height - 1) st)"

text \<open>
  The loop of \<open>on_block_popped\<close> over the \<open>n\<close> popped heights, from the highest down to \<open>new\<close>.
  Popping from an empty window is undefined.
\<close>

fun pop_votes :: "chain_db \<Rightarrow> u64 \<Rightarrow> nat \<Rightarrow> u8 list \<Rightarrow> u8 list option" where
  "pop_votes db new 0 vs = Some vs"
| "pop_votes db new (Suc n) vs = (if vs = [] then None else do {
     ver \<leftarrow> db_fork_versions db (new + word_of_nat n);
     pop_votes db new n (ver # butlast vs) })"

fun fork_at_height :: "hardfork_t list \<Rightarrow> u64 \<Rightarrow> nat \<Rightarrow> nat" where
  "fork_at_height fs height 0 = 0"
| "fork_at_height fs height (Suc i) =
     (if height \<ge> fork_height (fs ! Suc i) then Suc i else fork_at_height fs height i)"

text \<open>With an empty chain left, the unsigned loop condition is always true and the loop never ends.\<close>

definition on_block_popped :: "chain_db \<Rightarrow> u64 \<Rightarrow> hard_fork \<Rightarrow> hard_fork option" where
  "on_block_popped db nblocks st =
     (if \<not> nblocks > 0 then None
      else if db_height db = 0 then None
      else do {
        vs \<leftarrow> pop_votes db (db_height db) (unat nblocks) (versions st);
        Some (st\<lparr>versions := vs,
          current_fork_index := fork_at_height (heights st) (db_height db - 1) (length (heights st) - 1)\<rparr>)
      })"

definition get_state :: "hard_fork \<Rightarrow> int \<Rightarrow> fork_state" where
  "get_state st t =
     (if length (heights st) \<le> 1 then Ready
      else
        let t_last_fork = fork_time (last (heights st))
        in if t \<ge> t_last_fork + forked_time st then LikelyForked
           else if t \<ge> t_last_fork + update_time st then UpdateNeeded
           else Ready)"

definition get_current_version :: "hard_fork \<Rightarrow> u8" where
  "get_current_version st = fork_version (heights st ! current_fork_index st)"

definition get :: "chain_db \<Rightarrow> hard_fork \<Rightarrow> u64 \<Rightarrow> u8 option" where
  "get db st height =
     (if height > db_height db then Some 255
      else if height = db_height db then Some (get_current_version st)
      else db_fork_versions db height)"

definition get_ideal_version :: "hard_fork \<Rightarrow> u8" where
  "get_ideal_version st = fork_version (last (heights st))"

definition get_ideal_version_at :: "hard_fork \<Rightarrow> u64 \<Rightarrow> u8" where
  "get_ideal_version_at st height =
     (let n = fork_at_height (heights st) height (length (heights st) - 1)
      in if n > 0 then fork_version (heights st ! n) else original_version st)"

fun earliest_loop :: "u8 \<Rightarrow> u64 \<Rightarrow> hardfork_t list \<Rightarrow> u64" where
  "earliest_loop ver height [] = height"
| "earliest_loop ver height (f # fs) =
     (if fork_version f \<ge> ver then earliest_loop ver (fork_height f) fs else height)"

definition get_earliest_ideal_height_for_version :: "hard_fork \<Rightarrow> u8 \<Rightarrow> u64" where
  "get_earliest_ideal_height_for_version st ver = earliest_loop ver UINT64_MAX (rev (heights st))"

text \<open>The reverse iteration; \<open>newer\<close> is the fork visited before, if any.\<close>

fun next_version_loop :: "u64 \<Rightarrow> u8 \<Rightarrow> hardfork_t option \<Rightarrow> hardfork_t list \<Rightarrow> u8" where
  "next_version_loop height original newer [] = original"
| "next_version_loop height original newer (f # fs) =
     (if height \<ge> fork_height f then (case newer of None \<Rightarrow> fork_version f | Some g \<Rightarrow> fork_version g)
      else next_version_loop height original (Some f) fs)"

definition get_next_version :: "chain_db \<Rightarrow> hard_fork \<Rightarrow> u8" where
  "get_next_version db st = next_version_loop (db_height db) (original_version st) None (rev (heights st))"

record voting_info =
  vi_enabled :: bool
  vi_window :: u32
  vi_votes :: u32
  vi_threshold :: u32
  vi_earliest_height :: u64
  vi_voting :: u8

definition get_voting_info :: "hard_fork \<Rightarrow> u8 \<Rightarrow> voting_info" where
  "get_voting_info st ver =
     (let window = word_of_nat (length (versions st))
      in \<lparr>vi_enabled = get_current_version st \<ge> ver,
          vi_window = window,
          vi_votes = sum_list (map (\<lambda>n. last_versions st (word_of_nat n)) [unat ver..<256]),
          vi_threshold = (window * ucast (fork_threshold (heights st ! current_fork_index st)) + 99) div 100,
          vi_earliest_height = get_earliest_ideal_height_for_version st ver,
          vi_voting = fork_version (last (heights st))\<rparr>)"

section \<open>The fork schedules\<close>

definition mainnet_hard_forks :: "hardfork_t list" where
  "mainnet_hard_forks = [
    \<lparr>fork_version = 7, fork_height = 1, fork_threshold = 0, fork_time = 1744823806\<rparr>,
    \<lparr>fork_version = 8, fork_height = 50, fork_threshold = 0, fork_time = 1744824295\<rparr>,
    \<lparr>fork_version = 9, fork_height = 300, fork_threshold = 0, fork_time = 1744825855\<rparr>,
    \<lparr>fork_version = 10, fork_height = 400, fork_threshold = 0, fork_time = 1744826995\<rparr>,
    \<lparr>fork_version = 11, fork_height = 450, fork_threshold = 0, fork_time = 1749055791\<rparr>,
    \<lparr>fork_version = 12, fork_height = 460, fork_threshold = 0, fork_time = 1749055891\<rparr>]"

definition testnet_hard_forks :: "hardfork_t list" where
  "testnet_hard_forks = [
    \<lparr>fork_version = 7, fork_height = 1, fork_threshold = 0, fork_time = 1744823806\<rparr>,
    \<lparr>fork_version = 8, fork_height = 200, fork_threshold = 0, fork_time = 1744824295\<rparr>,
    \<lparr>fork_version = 9, fork_height = 300, fork_threshold = 0, fork_time = 1744825855\<rparr>,
    \<lparr>fork_version = 10, fork_height = 400, fork_threshold = 0, fork_time = 1744826995\<rparr>,
    \<lparr>fork_version = 11, fork_height = 450, fork_threshold = 0, fork_time = 1749055891\<rparr>]"

definition stagenet_hard_forks :: "hardfork_t list" where
  "stagenet_hard_forks = [
    \<lparr>fork_version = 7, fork_height = 1, fork_threshold = 0, fork_time = 1744823806\<rparr>,
    \<lparr>fork_version = 8, fork_height = 200, fork_threshold = 0, fork_time = 1744824295\<rparr>,
    \<lparr>fork_version = 9, fork_height = 300, fork_threshold = 0, fork_time = 1744825855\<rparr>,
    \<lparr>fork_version = 10, fork_height = 400, fork_threshold = 0, fork_time = 1744826995\<rparr>,
    \<lparr>fork_version = 11, fork_height = 450, fork_threshold = 0, fork_time = 1749055891\<rparr>]"

text \<open>\<open>Blockchain::init\<close> adds the schedule of its network to the fork table.\<close>

definition load_hard_forks :: "hardfork_t list \<Rightarrow> hard_fork \<Rightarrow> hard_fork" where
  "load_hard_forks fs st =
     fold (\<lambda>f st. snd (add_fork (fork_version f) (fork_height f) (fork_threshold f) (fork_time f) st)) fs st"

section \<open>The window of votes\<close>

definition counts_ok :: "u8 list \<Rightarrow> (u8 \<Rightarrow> u32) \<Rightarrow> bool" where
  "counts_ok vs counts \<longleftrightarrow> (\<forall>v. counts v = word_of_nat (count_list vs v))"

lemma counts_ok_tail: "counts_ok (v # vs) c \<Longrightarrow> counts_ok vs (c(v := c v - 1))"
  by (auto simp: counts_ok_def)

lemma counts_ok_snoc: "counts_ok vs c \<Longrightarrow> counts_ok (vs @ [v]) (c(v := c v + 1))"
  by (auto simp: counts_ok_def)

lemma trim_window_drop:
  assumes "trim_window w vs c = (vs', c')" and "w \<noteq> 0" and "length vs < 2 ^ 64" and "counts_ok vs c"
  shows "vs' = drop (Suc (length vs) - unat w) vs \<and> counts_ok vs' c'"
  using assms
proof (induction vs arbitrary: c)
  case (Cons v vs)
  have w: "0 < unat w" using Cons.prems(2) by (simp add: unat_gt_0)
  have len: "unat (word_of_nat (length (v # vs)) :: u64) = length (v # vs)"
    using Cons.prems(3) by (simp only: unat_of_nat) simp
  show ?case
  proof (cases "word_of_nat (length (v # vs)) \<ge> w")
    case True
    then have ge: "unat w \<le> Suc (length vs)" using len by (simp add: word_le_nat_alt)
    have "vs' = drop (Suc (length vs) - unat w) vs \<and> counts_ok vs' c'"
      by (rule Cons.IH [OF _ Cons.prems(2) _ counts_ok_tail [OF Cons.prems(4)]])
        (use Cons.prems(1,3) True in \<open>simp_all add: fun_upd_def\<close>)
    moreover have "Suc (length (v # vs)) - unat w = Suc (Suc (length vs) - unat w)" using ge by simp
    ultimately show ?thesis by auto
  next
    case False
    then have "length (v # vs) < unat w" using len by (simp add: word_le_nat_alt)
    then show ?thesis using False Cons.prems by auto
  qed
qed (auto simp: counts_ok_def)

text \<open>
  The invariant: there is a fork table of at most 255 forks and the current fork is one of them, the
  window holds at most \<open>window_size\<close> votes, and the count of each version is exact.
\<close>

definition hf_inv :: "hard_fork \<Rightarrow> bool" where
  "hf_inv st \<longleftrightarrow> heights st \<noteq> [] \<and> length (heights st) \<le> 256 \<and> current_fork_index st < length (heights st)
     \<and> window_size st \<noteq> 0 \<and> length (versions st) \<le> unat (window_size st)
     \<and> counts_ok (versions st) (last_versions st)"

lemma voted_fork_loop_range:
  "n < length (heights st) \<Longrightarrow> current_fork_index st < length (heights st) \<Longrightarrow>
   current_fork_index st \<le> voted_fork_loop st height n acc \<and> voted_fork_loop st height n acc < length (heights st)"
  by (induction n arbitrary: acc) (auto simp: Let_def)

lemma get_voted_fork_index_range:
  assumes "hf_inv st"
  shows "current_fork_index st \<le> get_voted_fork_index st height"
    and "get_voted_fork_index st height < length (heights st)"
  using assms voted_fork_loop_range [of "length (heights st) - 1" st height 0]
  by (auto simp: hf_inv_def get_voted_fork_index_def)

lemma advance_fork_eq:
  assumes "hf_inv st"
  shows "advance_fork height st = st\<lparr>current_fork_index := get_voted_fork_index st height\<rparr>"
proof -
  have "get_voted_fork_index st height < 256"
    using get_voted_fork_index_range(2) [OF assms, of height] assms by (simp add: hf_inv_def)
  then have "unat (word_of_nat (get_voted_fork_index st height) :: u8) = get_voted_fork_index st height"
    by (simp only: unat_of_nat) simp
  then show ?thesis
    using get_voted_fork_index_range(1) [OF assms, of height] by (auto simp: advance_fork_def Let_def)
qed

lemma advance_fork_inv: "hf_inv st \<Longrightarrow> hf_inv (advance_fork height st)"
  using get_voted_fork_index_range(2) by (simp add: advance_fork_eq) (simp add: hf_inv_def)

lemma add_core_inv:
  assumes "hf_inv st" and t: "trim_window (window_size st) (versions st) (last_versions st) = (vs, c)"
  shows "hf_inv (push_vote v (st\<lparr>versions := vs, last_versions := c\<rparr>))"
    and "vs = drop (Suc (length (versions st)) - unat (window_size st)) (versions st)"
proof -
  have w: "0 < unat (window_size st)" and len: "length (versions st) < 2 ^ 64"
    using assms(1) unat_u64_less [of "window_size st"] by (auto simp: hf_inv_def unat_gt_0)
  show vs: "vs = drop (Suc (length (versions st)) - unat (window_size st)) (versions st)"
    using trim_window_drop [OF t] assms(1) len by (auto simp: hf_inv_def)
  have "counts_ok vs c" using trim_window_drop [OF t] assms(1) len by (auto simp: hf_inv_def)
  then show "hf_inv (push_vote v (st\<lparr>versions := vs, last_versions := c\<rparr>))"
    using assms(1) vs w by (auto simp: push_vote_def hf_inv_def counts_ok_snoc)
qed

lemma add_step:
  assumes "hf_inv st" and "add bv vv height (st, db) = (r, st', db')"
  shows "hf_inv st' \<and> current_fork_index st \<le> current_fork_index st' \<and> (r \<longrightarrow>
    versions st' = drop (Suc (length (versions st)) - unat (window_size st))
      (versions st @ [get_effective_version st vv]))"
proof (cases "do_check st bv vv")
  case True
  obtain vs c where t: "trim_window (window_size st) (versions st) (last_versions st) = (vs, c)" by fastforce
  have w: "0 < unat (window_size st)" using assms(1) by (auto simp: hf_inv_def unat_gt_0)
  define st1 where "st1 = push_vote (get_effective_version st vv) (st\<lparr>versions := vs, last_versions := c\<rparr>)"
  have inv1: "hf_inv st1" and vs: "vs = drop (Suc (length (versions st)) - unat (window_size st)) (versions st)"
    using add_core_inv [OF assms(1) t] by (simp_all add: st1_def)
  have st': "st' = advance_fork (height + 1) st1"
    using assms(2) True t by (simp add: add_def Let_def st1_def)
  have "versions st' = vs @ [get_effective_version st vv]" "current_fork_index st \<le> current_fork_index st'"
    unfolding st' advance_fork_eq [OF inv1]
    using get_voted_fork_index_range(1) [OF inv1, of "height + 1"] by (simp_all add: st1_def push_vote_def)
  moreover have "hf_inv st'" unfolding st' by (rule advance_fork_inv [OF inv1])
  moreover have "drop (Suc (length (versions st)) - unat (window_size st)) (versions st @ [x])
      = drop (Suc (length (versions st)) - unat (window_size st)) (versions st) @ [x]" for x
    using w by simp
  ultimately show ?thesis by (simp add: vs)
qed (use assms in \<open>auto simp: add_def\<close>)

lemma count_votes_inv:
  assumes "count_votes db h n st = Some st'"
  shows "heights st' = heights st \<and> window_size st' = window_size st \<and> current_fork_index st' = current_fork_index st
    \<and> length (versions st') = length (versions st) + n
    \<and> (counts_ok (versions st) (last_versions st) \<longrightarrow> counts_ok (versions st') (last_versions st'))"
  using assms
proof (induction n arbitrary: h st)
  case (Suc n)
  then obtain b where "count_votes db (Suc h) n (push_vote (get_effective_version st (get_block_vote b)) st) = Some st'"
    by (auto simp: bind_eq_Some_conv)
  from Suc.IH [OF this] show ?case
    using counts_ok_snoc by (auto simp: push_vote_def fun_upd_def)
qed simp

lemma find_fork_range: "fs \<noteq> [] \<Longrightarrow> find_fork_of_version fs lastv i < i + length fs"
  by (induction fs lastv i rule: find_fork_of_version.induct) auto

lemma lower_fork_range: "lower_fork fs v i \<le> i"
  by (induction i) auto

lemma clear_votes_ok [simp]: "counts_ok (versions (clear_votes st)) (last_versions (clear_votes st))"
  "length (versions (clear_votes st)) = 0" "heights (clear_votes st) = heights st"
  "window_size (clear_votes st) = window_size st" "current_fork_index (clear_votes st) = current_fork_index st"
  by (simp_all add: clear_votes_def counts_ok_def)

lemma add_blocks_inv: "add_blocks h n (st, db) = Some (st', db') \<Longrightarrow> hf_inv st \<Longrightarrow> hf_inv st'"
proof (induction n arbitrary: h st db)
  case (Suc n)
  then obtain b where b: "add_blocks (Suc h) n (snd (add_block b (word_of_nat h) (st, db))) = Some (st', db')"
    by (auto simp: bind_eq_Some_conv)
  obtain r st1 db1 where a: "add_block b (word_of_nat h) (st, db) = (r, st1, db1)" by (metis prod_cases3)
  then have "hf_inv st1" using add_step Suc.prems(2) by (simp add: add_block_def)
  then show ?case using Suc.IH b a by simp
qed simp

lemma reorganize_inv:
  assumes "hf_inv st" and "reorganize_from_block_height height (st, db) = Some (r, st', db')"
  shows "hf_inv st'"
proof (cases "height \<ge> db_height db")
  case False
  define rescan where "rescan = (if height \<ge> window_size st - 1 then height - (window_size st - 1) else 0)"
  obtain sv st1 where st1: "count_votes db (unat rescan) (Suc (unat height) - unat rescan)
       ((clear_votes st)\<lparr>current_fork_index := lower_fork (heights st) sv (current_fork_index st)\<rparr>) = Some st1"
    and add: "add_blocks (Suc (unat height)) (unat (db_height db) - Suc (unat height))
       (advance_fork (height + 1) st1, db) = Some (st', db')"
    using assms(2) False
    by (auto simp: reorganize_from_block_height_def Let_def rescan_def [symmetric] bind_eq_Some_conv split: if_splits)
  have w: "unat (window_size st - 1) = unat (window_size st) - 1" "0 < unat (window_size st)"
    using assms(1) by (simp_all add: hf_inv_def unat_gt_0 unat_sub_nowrap Suc_le_eq)
  have "Suc (unat height) - unat rescan \<le> unat (window_size st)"
    using w by (auto simp: rescan_def unat_sub_nowrap word_le_nat_alt)
  moreover have "lower_fork (heights st) sv (current_fork_index st) < length (heights st)"
    using assms(1) lower_fork_range [of "heights st" sv "current_fork_index st"] by (simp add: hf_inv_def)
  ultimately have "hf_inv st1"
    using count_votes_inv [OF st1] assms(1) by (auto simp: hf_inv_def)
  then show ?thesis using add_blocks_inv [OF add] advance_fork_inv by blast
qed (use assms in \<open>auto simp: reorganize_from_block_height_def\<close>)

lemma init_inv:
  assumes "init db st = Some st'" and "window_size st \<noteq> 0" and "length (heights st) \<le> 256"
    and "length (db_blocks db) < 2 ^ 64"
  shows "hf_inv st'"
proof -
  define st0 where "st0 = (clear_votes (if heights st = []
      then st\<lparr>heights := [\<lparr>fork_version = original_version st, fork_height = 0, fork_threshold = 0, fork_time = 0\<rparr>]\<rparr>
      else st))\<lparr>current_fork_index := 0\<rparr>"
  have st0: "heights st0 \<noteq> []" "length (heights st0) \<le> 256" "window_size st0 = window_size st"
      "versions st0 = []" "counts_ok [] (last_versions st0)" "current_fork_index st0 = 0"
    using assms(3) by (auto simp: st0_def counts_ok_def clear_votes_def)
  then have inv0: "hf_inv st0" using assms(2) by (auto simp: hf_inv_def)
  define h where "h = (if db_height db > window_size st0 then db_height db - (window_size st0 - 1) else 1)"
  obtain r where r: "rescan_from_chain_height db h st0 = Some (r, st')"
    using assms(1) by (auto simp: init_def Let_def st0_def h_def split: if_splits)
  have w: "unat (window_size st - 1) = unat (window_size st) - 1" "0 < unat (window_size st)"
    using assms(2) by (simp_all add: unat_gt_0 unat_sub_nowrap Suc_le_eq)
  show ?thesis
  proof (cases "h = 0 \<or> h - 1 \<ge> db_height db")
    case True
    then have "st' = st0" using r by (auto simp: rescan_from_chain_height_def rescan_from_block_height_def split: if_splits)
    then show ?thesis using inv0 by simp
  next
    case False
    then obtain st1 lastv where st1: "count_votes db (unat (h - 1)) (unat (db_height db) - unat (h - 1)) (clear_votes st0) = Some st1"
      and st': "st' = advance_fork (db_height db) (st1\<lparr>current_fork_index := find_fork_of_version (heights st1) lastv 0\<rparr>)"
      using r by (auto simp: rescan_from_chain_height_def rescan_from_block_height_def Let_def bind_eq_Some_conv)
    have "unat (db_height db) - unat (h - 1) \<le> unat (window_size st)"
      using w by (auto simp: h_def st0(3) word_less_nat_alt unat_sub_nowrap)
    then have "hf_inv (st1\<lparr>current_fork_index := find_fork_of_version (heights st1) lastv 0\<rparr>)"
      using count_votes_inv [OF st1] st0 assms(2) find_fork_range [of "heights st0" lastv 0]
      by (auto simp: hf_inv_def)
    then show ?thesis unfolding st' by (rule advance_fork_inv)
  qed
qed

definition add_op :: "u8 \<times> u8 \<times> u64 \<Rightarrow> hard_fork \<times> chain_db \<Rightarrow> hard_fork \<times> chain_db" where
  "add_op = (\<lambda>(block_version, voting_version, height) s. snd (add block_version voting_version height s))"

interpretation adds: machine add_op "\<lambda>s. hf_inv (fst s)"
proof
  fix s :: "hard_fork \<times> chain_db" and op :: "u8 \<times> u8 \<times> u64"
  assume "hf_inv (fst s)"
  moreover obtain bv vv h where "op = (bv, vv, h)" by (metis prod_cases3)
  moreover obtain r st' db' where "add bv vv h (fst s, snd s) = (r, st', db')" by (metis prod_cases3)
  ultimately show "hf_inv (fst (add_op op s))"
    using add_step [of "fst s" bv vv h "snd s" r st' db'] by (simp add: add_op_def)
qed

section \<open>The fork table\<close>

definition fork_before :: "hardfork_t \<Rightarrow> hardfork_t \<Rightarrow> bool" where
  "fork_before f g \<longleftrightarrow> fork_version f < fork_version g \<and> fork_height f < fork_height g \<and> fork_time f < fork_time g"

definition fork_table :: "hardfork_t list \<Rightarrow> bool" where
  "fork_table fs \<longleftrightarrow> sorted_wrt fork_before fs \<and> list_all (\<lambda>f. fork_version f \<noteq> 0 \<and> fork_threshold f \<le> 100) fs"

lemma fork_before_trans: "fork_before f g \<Longrightarrow> fork_before g h \<Longrightarrow> fork_before f h"
  by (auto simp: fork_before_def)

lemma sorted_snoc_last:
  assumes "sorted_wrt fork_before fs" and "fs \<noteq> []"
  shows "sorted_wrt fork_before (fs @ [g]) \<longleftrightarrow> fork_before (last fs) g"
  using assms
proof (induction fs)
  case (Cons f fs)
  show ?case
  proof (cases "fs = []")
    case False
    then have "fork_before f (last fs)" using Cons.prems by auto
    then show ?thesis using False Cons by (auto intro: fork_before_trans)
  qed simp
qed simp

lemma fork_versions_distinct: "fork_table fs \<Longrightarrow> distinct (map fork_version fs)"
  by (induction fs) (auto simp: fork_table_def fork_before_def)

lemma fork_table_less:
  "fork_table fs \<Longrightarrow> i < j \<Longrightarrow> j < length fs \<Longrightarrow> fork_before (fs ! i) (fs ! j)"
  by (simp add: fork_table_def sorted_wrt_iff_nth_less)

text \<open>
  Votes for the forks from index \<open>i\<close> on, and the condition for fork \<open>i\<close> to be voted in: its height
  is reached and its threshold percentage of the window is met.
\<close>

definition votes_from :: "hard_fork \<Rightarrow> nat \<Rightarrow> nat" where
  "votes_from st i = length (filter (\<lambda>v. v \<in> fork_version ` set (drop i (heights st))) (versions st))"

definition voted_in :: "hard_fork \<Rightarrow> u64 \<Rightarrow> nat \<Rightarrow> bool" where
  "voted_in st height i \<longleftrightarrow> height \<ge> fork_height (heights st ! i)
     \<and> unat (window_size st) * unat (fork_threshold (heights st ! i)) \<le> 100 * votes_from st i"

lemma votes_from_Suc:
  assumes "i < length (heights st)" and "distinct (map fork_version (heights st))"
  shows "votes_from st i = votes_from st (Suc i) + count_list (versions st) (fork_version (heights st ! i))"
proof -
  have d: "drop i (heights st) = heights st ! i # drop (Suc i) (heights st)"
    using assms(1) by (simp add: Cons_nth_drop_Suc)
  have "distinct (map fork_version (drop i (heights st)))"
    using assms(2) by (simp add: drop_map [symmetric])
  then have "fork_version (heights st ! i) \<notin> fork_version ` set (drop (Suc i) (heights st))"
    unfolding d by simp
  moreover have "a \<notin> S \<Longrightarrow> length (filter (\<lambda>v. v \<in> insert a S) vs) = length (filter (\<lambda>v. v \<in> S) vs) + count_list vs a"
    for a :: u8 and S vs by (induction vs) auto
  ultimately show ?thesis unfolding votes_from_def d by simp
qed

lemma vote_threshold:
  assumes "unat (w :: u64) < 2 ^ 32" and "t \<le> (100 :: u8)"
  shows "unat (ucast ((w * ucast t + 99) div 100) :: u32) = (unat w * unat t + 99) div 100"
proof -
  have t: "unat t \<le> 100" using assms(2) by (simp add: word_le_nat_alt)
  then have "unat w * unat t \<le> 4294967295 * 100" using assms(1) by (intro mult_le_mono) auto
  then have v: "unat w * unat t + 99 < 2 ^ 64" "(unat w * unat t + 99) div 100 < 2 ^ 32" by auto
  have "unat (w * ucast t :: u64) = unat w * unat t"
    using v(1) using unat_u8_less [of t]
    by (subst unat_mult_nowrap) (simp_all add: unsigned_ucast_eq take_bit_nat_eq_self)
  then have "unat (w * ucast t + 99 :: u64) = unat w * unat t + 99"
    using v(1) by (subst unat_add_nowrap) simp_all
  then show ?thesis using v(2) by (simp add: unat_div unsigned_ucast_eq take_bit_nat_eq_self)
qed

lemma voted_fork_loop_Max:
  assumes "hf_inv st" and "fork_table (heights st)" and "unat (window_size st) < 2 ^ 32"
    and "n < length (heights st)" and "unat acc = votes_from st (Suc n)"
  shows "voted_fork_loop st height n acc
    = Max (insert (current_fork_index st) {i. current_fork_index st < i \<and> i \<le> n \<and> voted_in st height i})"
  using assms(4,5)
proof (induction n arbitrary: acc)
  case (Suc n)
  let ?cur = "current_fork_index st" and ?f = "heights st ! Suc n"
  let ?acc = "acc + last_versions st (fork_version ?f)"
  show ?case
  proof (cases "Suc n > ?cur")
    case True
    have le: "votes_from st (Suc n) < 2 ^ 32"
      using assms(1,3) length_filter_le [of _ "versions st"] unfolding votes_from_def hf_inv_def
      by (meson le_less_trans order_trans)
    have vf: "votes_from st (Suc n) = unat acc + count_list (versions st) (fork_version ?f)"
      using votes_from_Suc [OF Suc.prems(1) fork_versions_distinct [OF assms(2)]] Suc.prems(2) by simp
    have "last_versions st (fork_version ?f) = word_of_nat (count_list (versions st) (fork_version ?f))"
      using assms(1) by (simp add: hf_inv_def counts_ok_def)
    then have "?acc = word_of_nat (votes_from st (Suc n))" by (simp add: vf)
    then have acc: "unat ?acc = votes_from st (Suc n)" using le by (simp only: unat_of_nat) simp
    have "?f \<in> set (heights st)" using Suc.prems(1) by simp
    then have "fork_threshold ?f \<le> 100" using assms(2) by (auto simp: fork_table_def list_all_iff)
    note thr = vote_threshold [OF assms(3) this]
    have "(?acc \<ge> ucast ((window_size st * ucast (fork_threshold ?f) + 99) div 100))
        \<longleftrightarrow> unat (window_size st) * unat (fork_threshold ?f) \<le> 100 * votes_from st (Suc n)"
      unfolding word_le_nat_alt thr acc by linarith
    then have step: "voted_fork_loop st height (Suc n) acc =
        (if voted_in st height (Suc n) then Suc n else voted_fork_loop st height n ?acc)"
      using True by (simp add: Let_def voted_in_def)
    show ?thesis
    proof (cases "voted_in st height (Suc n)")
      case True
      then show ?thesis using \<open>Suc n > ?cur\<close> unfolding step by (intro Max_eqI [symmetric]) auto
    next
      case False
      then have "{i. ?cur < i \<and> i \<le> Suc n \<and> voted_in st height i} = {i. ?cur < i \<and> i \<le> n \<and> voted_in st height i}"
        by (auto simp: le_Suc_eq)
      then show ?thesis using False Suc.IH [of ?acc] acc Suc.prems(1) unfolding step by simp
    qed
  next
    case False
    then have none: "{i. ?cur < i \<and> i \<le> Suc n \<and> voted_in st height i} = {}" by auto
    show ?thesis unfolding none using False by simp
  qed
next
  case 0
  have none: "{i. current_fork_index st < i \<and> i \<le> 0 \<and> voted_in st height i} = {}" by auto
  show ?case unfolding none by simp
qed

lemma get_voted_fork_index_Max:
  assumes "hf_inv st" and "fork_table (heights st)" and "unat (window_size st) < 2 ^ 32"
  shows "get_voted_fork_index st height
    = Max (insert (current_fork_index st)
        {i. current_fork_index st < i \<and> i < length (heights st) \<and> voted_in st height i})"
proof -
  have ne: "heights st \<noteq> []" using assms(1) by (simp add: hf_inv_def)
  then have "votes_from st (Suc (length (heights st) - 1)) = 0" by (simp add: votes_from_def)
  then have "get_voted_fork_index st height = Max (insert (current_fork_index st)
      {i. current_fork_index st < i \<and> i \<le> length (heights st) - 1 \<and> voted_in st height i})"
    unfolding get_voted_fork_index_def using ne by (intro voted_fork_loop_Max assms) simp_all
  moreover have "i \<le> length (heights st) - 1 \<longleftrightarrow> i < length (heights st)" for i using ne by (cases "heights st") auto
  ultimately show ?thesis by simp
qed

lemma earliest_loop_find:
  "sorted_wrt (\<lambda>f g. fork_version g < fork_version f) fs \<Longrightarrow>
   earliest_loop ver h fs = (case find (\<lambda>f. fork_version f \<ge> ver) (rev fs) of None \<Rightarrow> h | Some f \<Rightarrow> fork_height f)"
proof (induction fs arbitrary: h)
  case (Cons f fs)
  show ?case
  proof (cases "fork_version f \<ge> ver")
    case False
    then have "find (\<lambda>f. fork_version f \<ge> ver) (rev fs @ [f]) = None"
      using Cons.prems by (auto simp: find_None_iff)
    then show ?thesis using False by simp
  next
    case True
    have "find P (xs @ [f]) = (case find P xs of None \<Rightarrow> if P f then Some f else None | Some g \<Rightarrow> Some g)" for P xs
      by (induction xs) auto
    then show ?thesis using True Cons by (auto split: option.splits)
  qed
qed simp

lemma fork_at_height_spec:
  "fork_at_height fs h n = i \<Longrightarrow> i \<le> n \<and> (i > 0 \<longrightarrow> fork_height (fs ! i) \<le> h)
    \<and> (\<forall>j. i < j \<and> j \<le> n \<longrightarrow> h < fork_height (fs ! j))"
proof (induction n)
  case (Suc n)
  then show ?case by (auto simp: le_Suc_eq not_le split: if_splits)
qed auto

lemma earliest_first_fork:
  assumes "fork_table (heights st)"
  shows "get_earliest_ideal_height_for_version st ver
    = (case find (\<lambda>f. fork_version f \<ge> ver) (heights st) of None \<Rightarrow> UINT64_MAX | Some f \<Rightarrow> fork_height f)"
proof -
  have "sorted_wrt (\<lambda>f g. fork_version g < fork_version f) (rev (heights st))"
    using assms by (auto simp: fork_table_def fork_before_def sorted_wrt_rev elim: sorted_wrt_mono_rel [rotated])
  then show ?thesis by (simp add: get_earliest_ideal_height_for_version_def earliest_loop_find)
qed

lemma find_index:
  "find P xs = None \<Longrightarrow> j < length xs \<Longrightarrow> \<not> P (xs ! j)"
  "find P xs = Some y \<Longrightarrow> \<exists>k < length xs. y = xs ! k \<and> P y \<and> (\<forall>j < k. \<not> P (xs ! j))"
  by (auto simp: find_None_iff find_Some_iff)

lemma ideal_version_earliest:
  assumes tab: "fork_table (heights st)" and ne: "heights st \<noteq> []"
    and orig: "fork_version (hd (heights st)) = original_version st" "original_version st < ver"
    and h: "h < UINT64_MAX"
  shows "ver \<le> get_ideal_version_at st h \<longleftrightarrow> get_earliest_ideal_height_for_version st ver \<le> h"
proof -
  define fs where "fs = heights st"
  define i where "i = fork_at_height fs h (length fs - 1)"
  have i: "i < length fs" "i > 0 \<Longrightarrow> fork_height (fs ! i) \<le> h"
      "\<And>j. i < j \<Longrightarrow> j < length fs \<Longrightarrow> h < fork_height (fs ! j)"
    using fork_at_height_spec [of fs h "length fs - 1" i] ne
    by (cases "heights st"; auto simp: i_def fs_def less_Suc_eq_le)+
  have v0: "fork_version (fs ! 0) = original_version st" using orig ne by (simp add: fs_def hd_conv_nth)
  then have ideal: "get_ideal_version_at st h = fork_version (fs ! i)"
    by (simp add: get_ideal_version_at_def i_def fs_def Let_def)
  show ?thesis
  proof (cases "find (\<lambda>f. fork_version f \<ge> ver) fs")
    case None
    then show ?thesis using find_index(1) [OF None i(1)] h tab
      by (simp add: earliest_first_fork ideal fs_def [symmetric])
  next
    case (Some f)
    then obtain k where k: "k < length fs" "f = fs ! k" "ver \<le> fork_version f" "\<forall>j < k. \<not> ver \<le> fork_version (fs ! j)"
      using find_index(2) [OF Some] by auto
    have "k > 0" using k v0 orig(2) by (cases k) auto
    have e: "get_earliest_ideal_height_for_version st ver = fork_height (fs ! k)"
      using Some k(2) tab by (simp add: earliest_first_fork fs_def [symmetric])
    have mono: "a \<le> b \<Longrightarrow> b < length fs \<Longrightarrow> fork_version (fs ! a) \<le> fork_version (fs ! b) \<and> fork_height (fs ! a) \<le> fork_height (fs ! b)"
      for a b using fork_table_less [OF tab, of a b] by (cases "a = b") (auto simp: fork_before_def fs_def)
    show ?thesis
    proof (cases "k \<le> i")
      case True
      then show ?thesis using mono [of k i] i(1,2) k(2,3) \<open>k > 0\<close> by (auto simp: e ideal)
    next
      case False
      then show ?thesis using k(1,4) i(3) [of k] by (auto simp: e ideal)
    qed
  qed
qed

lemma pop_votes_window:
  "pop_votes db new n vs = Some vs' \<Longrightarrow>
   vs' = take (length vs) (map (\<lambda>k. the (db_fork_versions db (new + word_of_nat k))) [0..<n] @ vs)"
proof (induction n arbitrary: vs)
  case (Suc n)
  then obtain ver where ver: "vs \<noteq> []" "db_fork_versions db (new + word_of_nat n) = Some ver"
      "pop_votes db new n (ver # butlast vs) = Some vs'"
    by (auto simp: bind_eq_Some_conv split: if_splits)
  from Suc.IH [OF ver(3)] ver(1,2) show ?case
    by (cases vs rule: rev_cases) (simp_all add: take_Cons')
qed simp

section \<open>Properties\<close>

text \<open>
  C33. Adding a block that passes the check: the window becomes the last \<open>window_size\<close> votes with the
  block's effective vote at its end, the counts stay exact, the fork version in force is stored at the
  block's height, and the current fork becomes the highest fork above it whose height is reached by the
  next block and whose threshold percentage of the window votes for it or a later fork.
\<close>

theorem add_votes_fork:
  assumes "hf_inv st" and "fork_table (heights st)" and "unat (window_size st) < 2 ^ 32"
    and "add bv vv height (st, db) = (True, st', db')"
  shows "hf_inv st'
    \<and> versions st' = drop (Suc (length (versions st)) - unat (window_size st)) (versions st @ [get_effective_version st vv])
    \<and> db_fork_versions db' = (db_fork_versions db)(height \<mapsto> get_current_version st)
    \<and> current_fork_index st' = Max (insert (current_fork_index st)
      {i. current_fork_index st < i \<and> i < length (heights st) \<and> voted_in st' (height + 1) i})"
proof -
  have chk: "do_check st bv vv" using assms(4) by (auto simp: add_def split: if_splits)
  obtain vs c where t: "trim_window (window_size st) (versions st) (last_versions st) = (vs, c)" by fastforce
  define st1 where "st1 = push_vote (get_effective_version st vv) (st\<lparr>versions := vs, last_versions := c\<rparr>)"
  have st': "st' = advance_fork (height + 1) st1" and db': "db' = db\<lparr>db_fork_versions := (db_fork_versions db)(height \<mapsto> get_current_version st)\<rparr>"
    using assms(4) chk t by (auto simp: add_def Let_def st1_def get_current_version_def)
  have same: "heights st1 = heights st" "window_size st1 = window_size st" "current_fork_index st1 = current_fork_index st"
    by (simp_all add: st1_def push_vote_def)
  have inv1: "hf_inv st1" unfolding st1_def by (rule add_core_inv(1) [OF assms(1) t])
  have "voted_in st' (height + 1) = voted_in st1 (height + 1)"
    unfolding st' advance_fork_eq [OF inv1] by (simp add: voted_in_def votes_from_def fun_eq_iff)
  then have "current_fork_index st' = Max (insert (current_fork_index st)
      {i. current_fork_index st < i \<and> i < length (heights st) \<and> voted_in st' (height + 1) i})"
    using get_voted_fork_index_Max [OF inv1, of "height + 1"] assms(2,3)
    unfolding st' advance_fork_eq [OF inv1] by (simp add: same)
  then show ?thesis using add_step [OF assms(1,4)] by (simp add: db')
qed

definition two_forks :: "hardfork_t list" where
  "two_forks = [\<lparr>fork_version = 7, fork_height = 0, fork_threshold = 0, fork_time = 0\<rparr>,
     \<lparr>fork_version = 8, fork_height = 2, fork_threshold = 50, fork_time = 10\<rparr>]"

definition voting_state :: hard_fork where
  "voting_state = \<lparr>original_version = 7, forked_time = 100, update_time = 50, window_size = 2,
     default_threshold_percent = 80, heights = two_forks, versions = [7, 7], last_versions = (\<lambda>_. 0)(7 := 2),
     current_fork_index = 0\<rparr>"

lemma voting_state_inv: "hf_inv voting_state \<and> fork_table (heights voting_state) \<and> unat (window_size voting_state) < 2 ^ 32"
  by (simp add: hf_inv_def voting_state_def two_forks_def counts_ok_def fork_table_def fork_before_def word_le_nat_alt word_less_nat_alt)

theorem add_votes_fork_witness:
  "(\<lambda>(r, st', db'). r \<and> hf_inv st' \<and> versions st' = [7, 8] \<and> current_fork_index st' = Max {0, 1})
     (add 7 8 1 (voting_state, \<lparr>db_blocks = [], db_fork_versions = Map.empty\<rparr>))"
proof -
  let ?db = "\<lparr>db_blocks = [], db_fork_versions = Map.empty\<rparr>"
  obtain r st' db' where a: "add 7 8 1 (voting_state, ?db) = (r, st', db')" by (metis prod_cases3)
  have "fst (add 7 8 1 (voting_state, ?db)) \<and> current_fork_index (fst (snd (add 7 8 1 (voting_state, ?db)))) = 1"
    by code_simp
  then have "r" "current_fork_index st' = 1" by (simp_all add: a)
  then show ?thesis
    using add_votes_fork [of voting_state 7 8 1 ?db st' db'] voting_state_inv a
    by (simp add: voting_state_def get_effective_version_def two_forks_def word_less_nat_alt)
qed

text \<open>
  The votes are never miscounted: from an initialised state (window size not 0, at most 256 forks),
  after any reorganisation and then any sequence of blocks added or refused, there is a current fork in
  the table, the window has at most \<open>window_size\<close> votes, and the count kept for each version is the
  number of its votes in the window.
\<close>

theorem votes_counted:
  assumes "init db st0 = Some st" and "window_size st0 \<noteq> 0" and "length (heights st0) \<le> 256"
    and "length (db_blocks db) < 2 ^ 64"
    and "reorganize_from_chain_height height (st, db) = Some (r, st', db')"
  shows "(\<lambda>(st, db). current_fork_index st < length (heights st)
      \<and> length (versions st) \<le> unat (window_size st)
      \<and> (\<forall>v. last_versions st v = word_of_nat (count_list (versions st) v)))
    (fold add_op ops (st', db'))"
proof -
  have st: "hf_inv st" using init_inv [OF assms(1-4)] .
  have "hf_inv (fst (st', db'))"
    using assms(5) reorganize_inv [OF st, of "height - 1" db r st' db'] st
    by (auto simp: reorganize_from_chain_height_def split: if_splits)
  then have "hf_inv (fst (fold add_op ops (st', db')))" by (rule adds.run_inv)
  then show ?thesis by (auto simp: hf_inv_def counts_ok_def)
qed

definition small_block :: "u8 \<Rightarrow> u8 \<Rightarrow> block" where
  "small_block major minor = \<lparr>major_version = major, minor_version = minor, timestamp = 0, prev_id = [], nonce = 0,
     miner_tx = \<lparr>version = 2, unlock_time = 0, vin = [], vout = [], extra = [], output_unlock_times = [],
       tx_type = 0, txnFee = 0\<rparr>, tx_hashes = []\<rparr>"

definition small_db :: chain_db where
  "small_db = \<lparr>db_blocks = [small_block 7 7, small_block 7 8, small_block 8 8],
     db_fork_versions = [0 \<mapsto> 7, 1 \<mapsto> 7, 2 \<mapsto> 8]\<rparr>"

theorem votes_counted_witness:
  "\<exists>st st' db' r. init small_db voting_state = Some st
     \<and> reorganize_from_chain_height 2 (st, small_db) = Some (r, st', db')
     \<and> (\<forall>v. last_versions (fst (fold add_op [(8, 8, 3)] (st', db'))) v
         = word_of_nat (count_list (versions (fst (fold add_op [(8, 8, 3)] (st', db')))) v))"
proof -
  have "(case init small_db voting_state of None \<Rightarrow> False
      | Some st \<Rightarrow> reorganize_from_chain_height 2 (st, small_db) \<noteq> None)" by code_simp
  then obtain st r st' db' where i: "init small_db voting_state = Some st"
      and o: "reorganize_from_chain_height 2 (st, small_db) = Some (r, st', db')"
    by (auto split: option.splits)
  have "window_size voting_state \<noteq> 0" "length (heights voting_state) \<le> 256" "length (db_blocks small_db) < 2 ^ 64"
    by (simp_all add: voting_state_def two_forks_def small_db_def)
  from votes_counted [OF i this o, of "[(8, 8, 3)]"] i o show ?thesis
    by (auto simp: case_prod_beta)
qed

lemma add_fork_cases:
  assumes "fork_table (heights st)"
  shows "add_fork ver height threshold time st =
    (let fs = heights st @ [\<lparr>fork_version = ver, fork_height = height, fork_threshold = threshold, fork_time = time\<rparr>]
     in if fork_table fs then (True, st\<lparr>heights := fs\<rparr>) else (False, st))"
proof -
  define g where "g = \<lparr>fork_version = ver, fork_height = height, fork_threshold = threshold, fork_time = time\<rparr>"
  have "fork_table (heights st @ [g]) \<longleftrightarrow>
      (heights st = [] \<or> fork_before (last (heights st)) g) \<and> ver \<noteq> 0 \<and> threshold \<le> 100"
    using assms sorted_snoc_last [of "heights st" g]
    by (cases "heights st = []") (auto simp: fork_table_def g_def)
  moreover have "heights st = [] \<or> fork_before (last (heights st)) g \<longleftrightarrow>
      heights st = [] \<or> \<not> ver \<le> fork_version (last (heights st)) \<and> \<not> height \<le> fork_height (last (heights st))
        \<and> \<not> time \<le> fork_time (last (heights st))"
    by (auto simp: fork_before_def g_def not_le)
  ultimately show ?thesis
    unfolding add_fork_def Let_def g_def [symmetric] by (simp add: not_le [symmetric])
qed

text \<open>
  \<open>add_fork\<close> accepts a fork exactly when the table extended by it is a fork table: versions,
  heights and times strictly increase, no version is 0 and no threshold exceeds 100. On success the
  fork is appended, and otherwise the state is unchanged.
\<close>

theorem add_fork_table:
  assumes "fork_table (heights st)"
  shows "add_fork ver height threshold time st =
    (let fs = heights st @ [\<lparr>fork_version = ver, fork_height = height, fork_threshold = threshold, fork_time = time\<rparr>]
     in if fork_table fs then (True, st\<lparr>heights := fs\<rparr>) else (False, st))"
  using assms by (rule add_fork_cases)

theorem add_fork_table_witness:
  "fst (add_fork 9 5 0 20 voting_state) \<and> \<not> fst (add_fork 9 2 0 20 voting_state)"
  using add_fork_table [of voting_state 9 5 0 20] add_fork_table [of voting_state 9 2 0 20]
  by (simp add: voting_state_inv) (simp add: voting_state_def two_forks_def fork_table_def fork_before_def
      word_le_nat_alt word_less_nat_alt)

text \<open>
  The two readings of the fork schedule agree: in a table that starts with the original version,
  the ideal version at a height is at least a later version exactly from the earliest ideal height of
  that version on.
\<close>

theorem ideal_version_from_earliest_height:
  assumes "fork_table (heights st)" and "heights st \<noteq> []"
    and "fork_version (hd (heights st)) = original_version st" and "original_version st < ver"
    and "h < UINT64_MAX"
  shows "ver \<le> get_ideal_version_at st h \<longleftrightarrow> get_earliest_ideal_height_for_version st ver \<le> h"
  using assms by (rule ideal_version_earliest)

theorem ideal_version_from_earliest_height_witness:
  "8 \<le> get_ideal_version_at voting_state 5 \<and> get_earliest_ideal_height_for_version voting_state 8 \<le> 5"
proof -
  have "8 \<le> get_ideal_version_at voting_state 5" by code_simp
  then show ?thesis
    using ideal_version_from_earliest_height [of voting_state 8 5] voting_state_inv
    by (simp add: voting_state_def two_forks_def word_less_nat_alt)
qed

lemma load_hard_forks_table:
  assumes "fork_table (heights st @ fs)"
  shows "heights (load_hard_forks fs st) = heights st @ fs \<and> original_version (load_hard_forks fs st) = original_version st"
  using assms
proof (induction fs arbitrary: st)
  case (Cons f fs)
  have sub: "fork_table (heights st)" "fork_table (heights st @ [f])"
    using Cons.prems by (auto simp: fork_table_def sorted_wrt_append)
  then have "snd (add_fork (fork_version f) (fork_height f) (fork_threshold f) (fork_time f) st)
      = st\<lparr>heights := heights st @ [f]\<rparr>"
    by (cases f) (simp add: add_fork_cases Let_def)
  then show ?case using Cons.IH [of "st\<lparr>heights := heights st @ [f]\<rparr>"] Cons.prems by (simp add: load_hard_forks_def)
qed (simp add: load_hard_forks_def)

lemmas schedule_simps = fork_table_def fork_before_def word_less_nat_alt word_le_nat_alt

lemma schedules_are_tables:
  "fork_table mainnet_hard_forks" "fork_table testnet_hard_forks" "fork_table stagenet_hard_forks"
  by (simp_all add: schedule_simps mainnet_hard_forks_def testnet_hard_forks_def stagenet_hard_forks_def)

text \<open>
  The three schedules load completely: after \<open>Blockchain::init\<close> has added them to a new fork table,
  every fork of the schedule is in it. On the main network the ideal version is then 7 below height 50,
  8 below 300, 9 below 400, 10 below 450, 11 below 460 and 12 from there on.
\<close>

theorem schedules_load:
  assumes "HardFork_new 7 forked update window threshold = Some st"
  shows "heights (load_hard_forks mainnet_hard_forks st) = mainnet_hard_forks
    \<and> heights (load_hard_forks testnet_hard_forks st) = testnet_hard_forks
    \<and> heights (load_hard_forks stagenet_hard_forks st) = stagenet_hard_forks
    \<and> get_ideal_version_at (load_hard_forks mainnet_hard_forks st) h =
      (if 460 \<le> h then 12 else if 450 \<le> h then 11 else if 400 \<le> h then 10 else if 300 \<le> h then 9
       else if 50 \<le> h then 8 else 7)"
proof -
  have st: "heights st = []" "original_version st = 7"
    using assms by (auto simp: HardFork_new_def split: if_splits)
  have tabs: "heights (load_hard_forks fs st) = fs \<and> original_version (load_hard_forks fs st) = 7"
    if "fork_table fs" for fs
    using load_hard_forks_table [of st fs] that st by simp
  have "fork_at_height mainnet_hard_forks h 5 = (if 460 \<le> h then 5 else if 450 \<le> h then 4 else if 400 \<le> h then 3
      else if 300 \<le> h then 2 else if 50 \<le> h then 1 else 0)"
    by (simp add: mainnet_hard_forks_def numeral_eq_Suc)
  then have "get_ideal_version_at (load_hard_forks mainnet_hard_forks st) h =
      (if 460 \<le> h then 12 else if 450 \<le> h then 11 else if 400 \<le> h then 10 else if 300 \<le> h then 9
       else if 50 \<le> h then 8 else 7)"
    using tabs [OF schedules_are_tables(1)]
    by (simp add: get_ideal_version_at_def Let_def mainnet_hard_forks_def)
  then show ?thesis using tabs schedules_are_tables by simp
qed

theorem schedules_load_witness:
  "\<exists>st. HardFork_new 7 31557600 15778800 10080 80 = Some st
     \<and> get_ideal_version_at (load_hard_forks mainnet_hard_forks st) 305 = 9"
proof -
  obtain st where st: "HardFork_new 7 31557600 15778800 10080 80 = Some st"
    by (simp add: HardFork_new_def word_less_nat_alt)
  show ?thesis using schedules_load [OF st, of 305] st by (simp add: word_le_nat_alt)
qed

text \<open>
  C36. \<open>on_block_popped\<close> moves the window but not the counts: from a consistent state, popping a block
  whose vote at the end of the window differs from the fork version stored for its height leaves counts
  that no longer match the window.
\<close>

theorem on_block_popped_stale_counts:
  assumes "hf_inv st" and "unat (window_size st) < 2 ^ 32" and "on_block_popped db 1 st = Some st'"
    and "db_fork_versions db (db_height db) \<noteq> Some (last (versions st))"
  shows "last_versions st' = last_versions st
    \<and> last_versions st' (last (versions st)) \<noteq> word_of_nat (count_list (versions st') (last (versions st)))"
proof -
  obtain ver where ver: "db_fork_versions db (db_height db) = Some ver" "versions st \<noteq> []"
      "versions st' = ver # butlast (versions st)" "last_versions st' = last_versions st"
    using assms(3) by (auto simp: on_block_popped_def bind_eq_Some_conv split: if_splits)
  define v where "v = last (versions st)"
  have vs: "versions st = butlast (versions st) @ [v]" using ver(2) by (simp add: v_def)
  have "count_list (versions st) v = Suc (count_list (butlast (versions st)) v)" by (subst vs) simp
  then have c: "count_list (versions st) v = Suc (count_list (versions st') v)"
    using ver(1,3) assms(4) by (simp add: v_def [symmetric])
  have "count_list (versions st) v < 2 ^ 32"
    using assms(1,2) count_le_length [of "versions st" v] by (simp add: hf_inv_def)
  then have "word_of_nat (Suc (count_list (versions st') v)) \<noteq> (word_of_nat (count_list (versions st') v) :: u32)"
    by simp
  then show ?thesis using assms(1) ver(4) c by (simp add: hf_inv_def counts_ok_def v_def)
qed

theorem on_block_popped_stale_counts_witness:
  "\<exists>st'. on_block_popped (small_db\<lparr>db_fork_versions := [3 \<mapsto> 8]\<rparr>) 1 voting_state = Some st'
     \<and> last_versions st' 7 \<noteq> word_of_nat (count_list (versions st') 7)"
proof -
  let ?db = "small_db\<lparr>db_fork_versions := [3 \<mapsto> 8]\<rparr>"
  obtain st' where st': "on_block_popped ?db 1 voting_state = Some st'"
    by (simp add: on_block_popped_def small_db_def db_height_def voting_state_def)
  moreover have "last (versions voting_state) = 7" by (simp add: voting_state_def)
  moreover have "db_fork_versions ?db (db_height ?db) \<noteq> Some 7" by (simp add: small_db_def db_height_def)
  ultimately show ?thesis
    using on_block_popped_stale_counts [OF _ _ st'] voting_state_inv by auto
qed

end
