(* ===== verification/Shuffle.thy ===== *)
theory Shuffle
  imports Prelude "HOL-Library.Monad_Syntax" "HOL-Library.Multiset"
begin

unbundle bit_operations_syntax

text \<open>
  The deterministic randomness of \<^verbatim>\<open>src/cryptonote_core/full_node_list.cpp\<close>: the standard generator
  \<open>std::mt19937_64\<close>, the unbiased draw \<open>uniform_distribution_portable\<close> and \<open>antd_shuffle\<close>. The draw
  rejects values until one is small enough; it is a partial function whose value is \<^const>\<open>None\<close> when
  no later output of the generator is.
\<close>

section \<open>std::mt19937\_64\<close>

text \<open>The state is the list of the last 312 words, the oldest first.\<close>

type_synonym mt = "u64 list"

fun mt_seed_words :: "nat \<Rightarrow> u64 \<Rightarrow> nat \<Rightarrow> u64 list" where
  "mt_seed_words 0 prev i = []"
| "mt_seed_words (Suc n) prev i =
     (let x = 6364136223846793005 * (prev XOR drop_bit 62 prev) + word_of_nat i
      in x # mt_seed_words n x (Suc i))"

definition mt_seed :: "u64 \<Rightarrow> mt" where
  "mt_seed seed = seed # mt_seed_words 311 seed 1"

definition mt_temper :: "u64 \<Rightarrow> u64" where
  "mt_temper x =
     (let z = x XOR (drop_bit 29 x AND 0x5555555555555555);
          z = z XOR (push_bit 17 z AND 0x71d67fffeda60000);
          z = z XOR (push_bit 37 z AND 0xfff7eee000000000)
      in z XOR drop_bit 43 z)"

definition mt_next :: "mt \<Rightarrow> u64 \<times> mt" where
  "mt_next s =
     (let y = (s ! 0 AND 0xFFFFFFFF80000000) OR (s ! 1 AND 0x7FFFFFFF);
          x = s ! 156 XOR drop_bit 1 y XOR (if y AND 1 = 0 then 0 else 0xb5026f5aa96619e9)
      in (mt_temper x, tl s @ [x]))"

section \<open>Drawing\<close>

partial_function (option) draw_below :: "u64 \<Rightarrow> mt \<Rightarrow> (u64 \<times> mt) option" where
  "draw_below secureMax s =
     (let (x, s') = mt_next s in if x \<ge> secureMax then draw_below secureMax s' else Some (x, s'))"

text \<open>A modulus of 0 divides by zero in the code.\<close>

definition uniform_distribution_portable :: "mt \<Rightarrow> u64 \<Rightarrow> (u64 \<times> mt) option" where
  "uniform_distribution_portable s n =
     (if n = 0 then None else do {
        let secureMax = UINT64_MAX - UINT64_MAX mod n;
        (x, s) \<leftarrow> draw_below secureMax s;
        Some (x div (secureMax div n), s) })"

section \<open>Shuffling\<close>

definition swap_elements :: "'a list \<Rightarrow> nat \<Rightarrow> nat \<Rightarrow> 'a list" where
  "swap_elements a i j = a[i := a ! j, j := a ! i]"

fun shuffle_loop :: "nat \<Rightarrow> nat \<Rightarrow> 'a list \<Rightarrow> mt \<Rightarrow> 'a list option" where
  "shuffle_loop 0 i a s = Some a"
| "shuffle_loop (Suc n) i a s = do {
     (j, s) \<leftarrow> uniform_distribution_portable s (word_of_nat (i + 1));
     let a = (if i \<noteq> unat j then swap_elements a i (unat j) else a);
     shuffle_loop n (Suc i) a s
   }"

definition antd_shuffle :: "'a list \<Rightarrow> u64 \<Rightarrow> 'a list option" where
  "antd_shuffle a seed = (if length a \<le> 1 then Some a else shuffle_loop (length a - 1) 1 a (mt_seed seed))"

section \<open>Correctness\<close>

text \<open>The \<open>k\<close>-th later state of the generator, and the output it gives.\<close>

definition mt_state :: "nat \<Rightarrow> mt \<Rightarrow> mt" where
  "mt_state k s = ((\<lambda>s. snd (mt_next s)) ^^ k) s"

definition mt_output :: "nat \<Rightarrow> mt \<Rightarrow> u64" where
  "mt_output k s = fst (mt_next (mt_state k s))"

definition first_below :: "u64 \<Rightarrow> mt \<Rightarrow> nat \<Rightarrow> bool" where
  "first_below m s k \<longleftrightarrow> mt_output k s < m \<and> (\<forall>j < k. m \<le> mt_output j s)"

lemma mt_shift:
  "mt_state (Suc k) s = mt_state k (snd (mt_next s))" "mt_output (Suc k) s = mt_output k (snd (mt_next s))"
  "mt_state 0 s = s" "mt_output 0 s = fst (mt_next s)"
  by (simp_all add: mt_state_def mt_output_def funpow_Suc_right del: funpow.simps(2))

lemma first_below_Suc: "m \<le> fst (mt_next s) \<Longrightarrow> first_below m (snd (mt_next s)) k \<longleftrightarrow> first_below m s (Suc k)"
  by (auto simp: first_below_def mt_shift less_Suc_eq_0_disj)

lemma draw_below_returns: "first_below m s k \<Longrightarrow> draw_below m s = Some (mt_output k s, mt_state (Suc k) s)"
proof (induction k arbitrary: s)
  case 0
  then show ?case
    by (subst draw_below.simps) (auto simp: first_below_def mt_shift case_prod_beta)
next
  case (Suc k)
  have ge: "m \<le> fst (mt_next s)" using Suc.prems by (auto simp: first_below_def mt_shift(4) [symmetric])
  then have "first_below m (snd (mt_next s)) k" using Suc.prems by (simp add: first_below_Suc)
  from Suc.IH [OF this] ge show ?case
    by (subst draw_below.simps) (simp add: case_prod_beta mt_shift)
qed

lemma draw_below_Some:
  assumes "draw_below m s = Some y"
  shows "\<exists>k. first_below m s k \<and> y = (mt_output k s, mt_state (Suc k) s)"
proof (rule draw_below.raw_induct [OF _ assms])
  fix f m s y
  assume IH: "\<And>m s y. f m s = Some y \<Longrightarrow> \<exists>k. first_below m s k \<and> y = (mt_output k s, mt_state (Suc k) s)"
    and step: "(let (x, s') = mt_next s in if m \<le> x then f m s' else Some (x, s')) = Some y"
  show "\<exists>k. first_below m s k \<and> y = (mt_output k s, mt_state (Suc k) s)"
  proof (cases "m \<le> fst (mt_next s)")
    case True
    with step have "f m (snd (mt_next s)) = Some y" by (simp add: case_prod_beta)
    from IH [OF this] obtain k where "first_below m (snd (mt_next s)) k"
        "y = (mt_output k (snd (mt_next s)), mt_state (Suc k) (snd (mt_next s)))" by blast
    then have "first_below m s (Suc k)" "y = (mt_output (Suc k) s, mt_state (Suc (Suc k)) s)"
      using first_below_Suc [OF True] by (simp_all add: mt_shift)
    then show ?thesis by blast
  next
    case False
    with step have "first_below m s 0 \<and> y = (mt_output 0 s, mt_state (Suc 0) s)"
      by (auto simp: case_prod_beta first_below_def mt_shift)
    then show ?thesis by blast
  qed
qed

lemma secure_max:
  assumes "n \<noteq> (0 :: u64)"
  shows "UINT64_MAX - UINT64_MAX mod n = n * (UINT64_MAX div n)"
    and "unat (n * (UINT64_MAX div n)) = unat n * unat (UINT64_MAX div n)"
    and "(n * (UINT64_MAX div n)) div n = UINT64_MAX div n"
    and "0 < unat (UINT64_MAX div n)"
proof -
  have "UINT64_MAX div n * n + UINT64_MAX mod n = UINT64_MAX" by (rule div_mult_mod_eq)
  then show "UINT64_MAX - UINT64_MAX mod n = n * (UINT64_MAX div n)"
    by (metis add_diff_cancel_right' mult.commute)
  have div: "unat (UINT64_MAX div n) = (2 ^ 64 - 1) div unat n" by (simp add: unat_div_distrib)
  have "unat n * (18446744073709551615 div unat n) < 18446744073709551616"
    using times_div_less_eq_dividend [of "unat n" 18446744073709551615] by (rule le_less_trans) simp
  then show mult: "unat (n * (UINT64_MAX div n)) = unat n * unat (UINT64_MAX div n)"
    by (subst unat_mult_nowrap) (simp_all add: div)
  have n: "0 < unat n" using assms by (simp add: unat_gt_0)
  have "unat ((n * (UINT64_MAX div n)) div n) = unat (UINT64_MAX div n)"
    using n unfolding unat_div_distrib mult by simp
  then show "(n * (UINT64_MAX div n)) div n = UINT64_MAX div n" by (simp only: word_unat_eq_iff)
  show "0 < unat (UINT64_MAX div n)"
    using n unat_u64_less [of n] unfolding div by (subst div_greater_zero_iff) simp
qed

lemma uniform_eq:
  assumes "n \<noteq> 0"
  shows "uniform_distribution_portable s n = Some (x, s') \<longleftrightarrow>
    (\<exists>k. first_below (n * (UINT64_MAX div n)) s k \<and> x = mt_output k s div (UINT64_MAX div n) \<and> s' = mt_state (Suc k) s)"
  using assms draw_below_Some draw_below_returns
  by (fastforce simp: uniform_distribution_portable_def secure_max(1,3) [OF assms] bind_eq_Some_conv)

lemma uniform_less:
  assumes "uniform_distribution_portable s n = Some (x, s')"
  shows "n \<noteq> 0 \<and> x < n"
proof -
  have n: "n \<noteq> 0" using assms by (auto simp: uniform_distribution_portable_def split: if_splits)
  with assms obtain k where k: "mt_output k s < n * (UINT64_MAX div n)" "x = mt_output k s div (UINT64_MAX div n)"
    by (auto simp: uniform_eq first_below_def)
  have "unat (mt_output k s) < unat n * unat (UINT64_MAX div n)"
    using k(1) unfolding word_less_nat_alt secure_max(2) [OF n] .
  then have "unat x < unat n"
    unfolding k(2) unat_div_distrib [of "mt_output k s"] by (rule less_mult_imp_div_less)
  then show ?thesis using n by (simp add: word_less_nat_alt)
qed

lemma mset_swap_elements: "i < length a \<Longrightarrow> j < length a \<Longrightarrow> mset (swap_elements a i j) = mset a"
  unfolding swap_elements_def by (metis mset_swap)

lemma length_swap_elements [simp]: "length (swap_elements a i j) = length a"
  by (simp add: swap_elements_def)

lemma shuffle_loop_mset:
  "shuffle_loop n i a s = Some b \<Longrightarrow> i + n \<le> length a \<Longrightarrow> length a < 2 ^ 64 \<Longrightarrow> mset b = mset a"
proof (induction n arbitrary: i a s)
  case (Suc n)
  then obtain j s' where j: "uniform_distribution_portable s (word_of_nat (i + 1)) = Some (j, s')"
      and rest: "shuffle_loop n (Suc i) (if i \<noteq> unat j then swap_elements a i (unat j) else a) s' = Some b"
    by (auto simp: bind_eq_Some_conv)
  have "unat (word_of_nat (i + 1) :: u64) = i + 1"
    using Suc.prems(2,3) by (simp only: unat_of_nat) simp
  then have "unat j \<le> i" using uniform_less [OF j] by (simp add: word_less_nat_alt)
  then have "mset (if i \<noteq> unat j then swap_elements a i (unat j) else a) = mset a"
    using Suc.prems(2) by (simp add: mset_swap_elements)
  then show ?case using Suc.IH [OF rest] Suc.prems(2,3) by (simp split: if_splits)
qed simp

lemma antd_shuffle_mset: "antd_shuffle a seed = Some b \<Longrightarrow> length a < 2 ^ 64 \<Longrightarrow> mset b = mset a"
  using shuffle_loop_mset [of "length a - 1" 1 a] by (auto simp: antd_shuffle_def split: if_splits)

text \<open>Every value below \<open>n\<close> is the quotient of the same number of accepted outputs.\<close>

lemma outputs_per_value:
  assumes "n \<noteq> (0 :: u64)" and "v < n"
  defines "q \<equiv> UINT64_MAX div n"
  shows "card {out. out < n * q \<and> out div q = v} = unat q"
proof -
  have q: "0 < unat q" and nq: "unat (n * q) = unat n * unat q"
    using secure_max(2,4) [OF assms(1)] by (simp_all only: q_def)
  have v: "unat v < unat n" using assms(2) by (simp add: word_less_nat_alt)
  then have le: "Suc (unat v) * unat q \<le> unat n * unat q" by (intro mult_le_mono1) simp
  have "unat ` {out. out < n * q \<and> out div q = v} = {unat v * unat q..<Suc (unat v) * unat q}"
  proof (intro set_eqI iffI)
    fix k assume "k \<in> unat ` {out. out < n * q \<and> out div q = v}"
    then obtain out where out: "k = unat out" "out div q = v" by blast
    then have "k div unat q = unat v" using unat_div_distrib [of out q] by simp
    then show "k \<in> {unat v * unat q..<Suc (unat v) * unat q}"
      using q div_mult_mod_eq [of k "unat q"] mod_less_divisor [OF q, of k] by auto
  next
    fix k assume k: "k \<in> {unat v * unat q..<Suc (unat v) * unat q}"
    then have less: "k < unat (n * q)" using le by (simp only: nq) simp
    then have u: "unat (word_of_nat k :: u64) = k"
      using unat_u64_less [of "n * q"] by (simp only: unat_of_nat) simp
    have "k div unat q = unat v" using k q by (intro div_nat_eqI) (auto simp: mult.commute)
    then have "unat (word_of_nat k div q) = unat v" by (simp only: unat_div_distrib u)
    then have "word_of_nat k div q = v" by (rule word_unat_eq_iff [THEN iffD2])
    moreover have "word_of_nat k < n * q" using less by (simp only: word_less_nat_alt u)
    ultimately show "k \<in> unat ` {out. out < n * q \<and> out div q = v}"
      using u by (intro image_eqI [of _ _ "word_of_nat k"]) simp_all
  qed
  moreover have "inj_on unat {out. out < n * q \<and> out div q = v}" by (rule inj_onI) (erule word_unat_eq_iff [THEN iffD2])
  ultimately have "card {out. out < n * q \<and> out div q = v} = card {unat v * unat q..<Suc (unat v) * unat q}"
    using card_image by fastforce
  then show ?thesis by simp
qed

text \<open>
  The draw is unbiased and in range: for a modulus \<open>n\<close> it returns exactly when some later output of
  the generator is below the largest multiple \<open>n * q\<close> of \<open>n\<close>, and then the value is the first such
  output divided by \<open>q\<close>, so that each of the \<open>n\<close> values has exactly \<open>q\<close> outputs, and is below \<open>n\<close>.
\<close>

theorem uniform_distribution_portable_correct:
  assumes "n \<noteq> 0"
  defines "q \<equiv> UINT64_MAX div n"
  shows "(uniform_distribution_portable s n = Some (x, s') \<longleftrightarrow>
      (\<exists>k. first_below (n * q) s k \<and> x = mt_output k s div q \<and> s' = mt_state (Suc k) s))
    \<and> (uniform_distribution_portable s n = Some (x, s') \<longrightarrow> x < n)
    \<and> (v < n \<longrightarrow> card {out. out < n * q \<and> out div q = v} = unat q)"
  using uniform_eq [OF assms(1)] uniform_less outputs_per_value [OF assms(1)] unfolding q_def by blast

lemma mt_first_output: "fst (mt_next (mt_seed 5489)) = 14514284786278117030"
  by code_simp

theorem uniform_distribution_portable_correct_witness:
  "\<exists>s'. uniform_distribution_portable (mt_seed 5489) 10 = Some (7, s')"
proof -
  have q: "UINT64_MAX div 10 = (1844674407370955161 :: u64)" by code_simp
  have "first_below (10 * (UINT64_MAX div 10)) (mt_seed 5489) 0"
    unfolding q by (simp add: first_below_def mt_shift mt_first_output word_less_nat_alt)
  moreover have "7 = mt_output 0 (mt_seed 5489) div (UINT64_MAX div 10)"
    unfolding q mt_shift mt_first_output by code_simp
  moreover have "(10 :: u64) \<noteq> 0" by simp
  ultimately have "uniform_distribution_portable (mt_seed 5489) 10 = Some (7, mt_state (Suc 0) (mt_seed 5489))"
    using uniform_distribution_portable_correct [of 10 "mt_seed 5489" 7 "mt_state (Suc 0) (mt_seed 5489)" 7] by blast
  then show ?thesis by blast
qed

end
