(* ===== verification/BlockReward.thy ===== *)
theory BlockReward
  imports Transaction
begin

text \<open>
  What a block pays: the base reward with its penalty for heavy blocks
  (\<^verbatim>\<open>src/cryptonote_basic/cryptonote_basic_impl.cpp\<close>), its split between miner, full node and the
  control output, and the miner transaction built from it
  (\<^verbatim>\<open>src/cryptonote_core/cryptonote_tx_utils.cpp\<close>). Cryptographic operations and the configured
  control wallet address are parameters; an uninitialised variable is an argument of its value.
\<close>

section \<open>The base reward\<close>

definition get_min_block_weight :: "u8 \<Rightarrow> u64" where
  "get_min_block_weight ver = (if ver < 2 then 20000 else if ver < 5 then 60000 else 300000)"

text \<open>
  \<open>reward\<close> is in and out; the result pairs the returned flag with its value. The assertions are left out: the last one,
  \<open>reward_lo < base_reward\<close>, names a variable that does not exist, so the function compiles only where they are disabled.
  A median whose low 32 bits are zero divides by zero in the code; in the words here such a quotient is 0.
\<close>

definition get_base_block_reward :: "u64 \<Rightarrow> u64 \<Rightarrow> u64 \<Rightarrow> u64 \<Rightarrow> u8 \<Rightarrow> bool \<times> u64" where
  "get_base_block_reward median_weight current_block_weight already_generated_coins reward ver =
     (if already_generated_coins = 0 then (True, 22500000000000000)
      else
        let reward = (if ver \<ge> 7 then 600 * COIN else reward);
            full_reward_zone = get_min_block_weight ver;
            median_weight = (if median_weight < full_reward_zone then full_reward_zone else median_weight)
        in if current_block_weight \<le> median_weight then (True, reward)
           else if current_block_weight > 2 * median_weight then (False, reward)
           else
             let multiplicand = 2 * median_weight - current_block_weight;
                 multiplicand = multiplicand * current_block_weight;
                 (product_lo, product_hi) = mul128 reward multiplicand;
                 (_, reward_hi, reward_lo) = div128_32 product_hi product_lo (ucast median_weight);
                 (_, reward_hi, reward_lo) = div128_32 reward_hi reward_lo (ucast median_weight)
             in (True, reward_lo))"

section \<open>The parts of the reward\<close>

definition CONTROL_BASE_REWARD_DIVISOR :: u64 where "CONTROL_BASE_REWARD_DIVISOR = 6"
definition FULL_NODE_BASE_REWARD_DIVISOR :: u64 where "FULL_NODE_BASE_REWARD_DIVISOR = 2"

definition control_reward_formula :: "u64 \<Rightarrow> u64" where
  "control_reward_formula base_reward = base_reward div CONTROL_BASE_REWARD_DIVISOR"

definition full_node_reward_formula :: "u64 \<Rightarrow> int \<Rightarrow> u64" where
  "full_node_reward_formula base_reward hard_fork_version =
     (if hard_fork_version \<ge> 9 then base_reward div FULL_NODE_BASE_REWARD_DIVISOR else 0)"

definition get_portion_of_reward :: "u64 \<Rightarrow> u64 \<Rightarrow> u64" where
  "get_portion_of_reward portions total_full_node_reward =
     (let (lo, hi) = mul128 total_full_node_reward portions;
          (_, rewardhi, rewardlo) = div128_64 hi lo STAKING_PORTIONS
      in rewardlo)"

type_synonym winner_info = "(account_public_address \<times> u64) list"

definition calculate_sum_of_portions :: "winner_info \<Rightarrow> u64 \<Rightarrow> u64" where
  "calculate_sum_of_portions portions total_full_node_reward =
     fold (\<lambda>p reward. reward + get_portion_of_reward (snd p) total_full_node_reward) portions 0"

definition null_address :: account_public_address where
  "null_address = \<lparr>m_spend_public_key = null_pkey, m_view_public_key = null_pkey\<rparr>"

definition null_winner :: winner_info where
  "null_winner = [(null_address, STAKING_PORTIONS)]"

record block_reward_parts =
  full_node_total :: u64
  full_node_paid :: u64
  control :: u64
  base_miner :: u64
  base_miner_fee :: u64
  adjusted_base_reward :: u64
  original_base_reward :: u64

definition miner_reward :: "block_reward_parts \<Rightarrow> u64" where
  "miner_reward parts = base_miner parts + base_miner_fee parts"

record antd_block_reward_context =
  ctx_height :: u64
  fee :: u64
  batched_control :: u64
  snode_winner_info :: winner_info

definition no_reward_parts :: block_reward_parts where
  "no_reward_parts = \<lparr>full_node_total = 0, full_node_paid = 0, control = 0, base_miner = 0,
     base_miner_fee = 0, adjusted_base_reward = 0, original_base_reward = 0\<rparr>"

text \<open>\<open>uninit\<close> is the value of the local \<open>base_reward\<close> before the call that sets it.\<close>

definition get_antd_block_reward ::
    "u64 \<Rightarrow> u64 \<Rightarrow> u64 \<Rightarrow> u64 \<Rightarrow> int \<Rightarrow> antd_block_reward_context \<Rightarrow> block_reward_parts option" where
  "get_antd_block_reward uninit median_weight current_block_weight already_generated_coins hard_fork_version ctx =
     (let (ok, base_reward) = get_base_block_reward median_weight current_block_weight
        already_generated_coins uninit (word_of_int hard_fork_version)
      in if \<not> ok then None
         else if base_reward = 0 then None
         else if already_generated_coins = 0 then
           Some (no_reward_parts\<lparr>original_base_reward := base_reward, adjusted_base_reward := base_reward,
             base_miner := base_reward\<rparr>)
         else
           let total = full_node_reward_formula base_reward hard_fork_version;
               paid = (if snode_winner_info ctx = [] then calculate_sum_of_portions null_winner total
                       else calculate_sum_of_portions (snode_winner_info ctx) total);
               (ctrl, adjusted) =
                 (if hard_fork_version \<ge> 10
                  then (let adjusted = base_reward - control_reward_formula base_reward
                        in (batched_control ctx,
                            if batched_control ctx > 0 then adjusted + batched_control ctx else adjusted))
                  else (control_reward_formula base_reward, base_reward))
           in Some \<lparr>full_node_total = total, full_node_paid = paid, control = ctrl,
                base_miner = adjusted - (ctrl + paid), base_miner_fee = fee ctx,
                adjusted_base_reward = adjusted, original_base_reward = base_reward\<rparr>)"

section \<open>The control output\<close>

text \<open>
  \<open>get_config\<close> returns a reference to a static record per network. The one of the main network is
  also used for the fake chain, whose call overwrites the reward interval; \<open>mainnet_interval\<close> is
  the current value of that static member.
\<close>

definition get_config_control_interval :: "network_type \<Rightarrow> u64 \<Rightarrow> (u64 \<times> u64) option" where
  "get_config_control_interval nettype mainnet_interval =
     (case nettype of
        MAINNET \<Rightarrow> Some (mainnet_interval, mainnet_interval)
      | FAKECHAIN \<Rightarrow> Some (100, 100)
      | TESTNET \<Rightarrow> Some (1000, mainnet_interval)
      | STAGENET \<Rightarrow> Some (60 * 60 * 24 * 7 div 120, mainnet_interval)
      | UNDEFINED \<Rightarrow> None)"

text \<open>The answer and the static interval afterwards; \<^const>\<open>None\<close> is the exception of \<open>get_config\<close>.\<close>

definition height_has_control_output :: "u64 \<Rightarrow> network_type \<Rightarrow> int \<Rightarrow> u64 \<Rightarrow> (bool \<times> u64) option" where
  "height_has_control_output mainnet_interval nettype hard_fork_version height =
     (if height = 0 then Some (False, mainnet_interval)
      else if hard_fork_version \<le> 9 then Some (True, mainnet_interval)
      else do {
        (interval, mainnet_interval) \<leftarrow> get_config_control_interval nettype mainnet_interval;
        Some (\<not> height mod interval \<noteq> 0, mainnet_interval)
      })"

definition block_has_control_output :: "u64 \<Rightarrow> network_type \<Rightarrow> block \<Rightarrow> (bool \<times> u64) option" where
  "block_has_control_output mainnet_interval nettype b =
     height_has_control_output mainnet_interval nettype (uint (major_version b)) (get_block_height b)"

text \<open>
  \<open>vout_end\<close> is unsigned: with no outputs and a control output expected it wraps around, and the
  loop reads past the end, which is \<^const>\<open>None\<close> here. A failed sanity check returns \<open>false\<close>, that is 0.
\<close>

definition derive_control_from_block_reward :: "u64 \<Rightarrow> network_type \<Rightarrow> block \<Rightarrow> u64 option" where
  "derive_control_from_block_reward mainnet_interval nettype b = do {
     (has_control, _) \<leftarrow> block_has_control_output mainnet_interval nettype b;
     let outs = vout (miner_tx b);
     if has_control \<and> outs = [] then None else do {
     let paid = (if has_control then butlast outs else outs);
     let snode_reward = fold (\<lambda>out r. r + amount out) (drop 1 paid) 0;
     let base_reward = snode_reward * FULL_NODE_BASE_REWARD_DIVISOR;
     let ctrl = control_reward_formula base_reward;
     let block_reward = base_reward - ctrl;
     let actual_reward = fold (\<lambda>out r. r + amount out) outs 0;
     if \<not> block_reward \<le> actual_reward then Some 0 else Some ctrl } }"

section \<open>The miner transaction\<close>

text \<open>The cryptographic operations the builder calls.\<close>

record crypto_env =
  generate_key_derivation :: "public_key \<Rightarrow> secret_key \<Rightarrow> bytes option"
  derive_public_key :: "bytes \<Rightarrow> u64 \<Rightarrow> public_key \<Rightarrow> public_key option"
  recover_keys :: "secret_key \<Rightarrow> public_key \<times> secret_key"

definition get_deterministic_keypair_from_height :: "crypto_env \<Rightarrow> u64 \<Rightarrow> public_key \<times> secret_key" where
  "get_deterministic_keypair_from_height env height =
     recover_keys env
       (map (\<lambda>i. let height_byte = height AND push_bit (i * 8) 0xFF in ucast (drop_bit (i * 8) height_byte)) [0..<8]
        @ replicate 24 0)"

definition get_deterministic_output_key ::
    "crypto_env \<Rightarrow> account_public_address \<Rightarrow> secret_key \<Rightarrow> u64 \<Rightarrow> public_key option" where
  "get_deterministic_output_key env address sec output_index = do {
     derivation \<leftarrow> generate_key_derivation env (m_view_public_key address) sec;
     derive_public_key env derivation output_index (m_spend_public_key address)
   }"

definition validate_control_reward_key ::
    "crypto_env \<Rightarrow> account_public_address \<Rightarrow> u64 \<Rightarrow> u64 \<Rightarrow> public_key \<Rightarrow> bool" where
  "validate_control_reward_key env control_wallet_address height output_index output_key =
     (let (_, sec) = get_deterministic_keypair_from_height env height
      in case get_deterministic_output_key env control_wallet_address sec output_index of
           None \<Rightarrow> False
         | Some correct_key \<Rightarrow> correct_key = output_key)"

definition make_output :: "crypto_env \<Rightarrow> account_public_address \<Rightarrow> secret_key \<Rightarrow> u64 \<Rightarrow> u64 \<Rightarrow> tx_out option" where
  "make_output env address sec index amt = do {
     key \<leftarrow> get_deterministic_output_key env address sec index;
     Some \<lparr>amount = amt, target = txout_to_key key\<rparr>
   }"

fun full_node_outputs :: "crypto_env \<Rightarrow> secret_key \<Rightarrow> u64 \<Rightarrow> u64 \<Rightarrow> winner_info \<Rightarrow> tx_out list option" where
  "full_node_outputs env sec tot i [] = Some []"
| "full_node_outputs env sec tot i ((address, portions) # infos) = do {
     out \<leftarrow> make_output env address sec (1 + i) (get_portion_of_reward portions tot);
     outs \<leftarrow> full_node_outputs env sec tot (i + 1) infos;
     Some (out # outs)
   }"

definition miner_tx_outputs ::
    "crypto_env \<Rightarrow> account_public_address \<Rightarrow> secret_key \<Rightarrow> secret_key \<Rightarrow> account_public_address \<Rightarrow>
     winner_info \<Rightarrow> u64 \<Rightarrow> u8 \<Rightarrow> block_reward_parts \<Rightarrow> tx_out list option" where
  "miner_tx_outputs env miner_address tx_sec ctrl_sec control_wallet_address infos already_generated_coins
     hard_fork_version parts = do {
     miner_out \<leftarrow> make_output env miner_address tx_sec 0 (miner_reward parts);
     node_outs \<leftarrow> (if hard_fork_version \<ge> network_version_9_full_nodes
       then full_node_outputs env ctrl_sec (full_node_total parts) 0 infos else Some []);
     let outs = miner_out # node_outs;
     if already_generated_coins \<noteq> 0
     then if control parts = 0
          then if \<not> hard_fork_version \<ge> network_version_10_bulletproofs then None else Some outs
          else do {
            control_out \<leftarrow> make_output env control_wallet_address ctrl_sec (word_of_nat (length outs)) (control parts);
            Some (outs @ [control_out]) }
     else Some outs
   }"

definition CRYPTONOTE_MINED_MONEY_UNLOCK_WINDOW :: u64 where
  "CRYPTONOTE_MINED_MONEY_UNLOCK_WINDOW = 35"

text \<open>\<open>txkey\<close> is the freshly generated key pair; \<open>winner\<close> and \<open>winner_infos\<close> are the miner context.\<close>

definition construct_miner_tx ::
    "crypto_env \<Rightarrow> u64 \<Rightarrow> public_key \<times> secret_key \<Rightarrow> account_public_address \<Rightarrow> u64 \<Rightarrow> u64 \<Rightarrow> u64 \<Rightarrow> u64 \<Rightarrow> u64 \<Rightarrow>
     account_public_address \<Rightarrow> bytes \<Rightarrow> u8 \<Rightarrow> public_key \<Rightarrow> winner_info \<Rightarrow> u64 \<Rightarrow> transaction \<Rightarrow> transaction option" where
  "construct_miner_tx env uninit txkey control_wallet_address height median_weight already_generated_coins
     current_block_weight fee_amount miner_address extra_nonce hard_fork_version winner winner_infos batched tx = do {
     let (tx_pub, tx_sec) = txkey;
     let infos = (if winner_infos = [] then null_winner else winner_infos);
     let ex = add_tx_pub_key_to_extra [] tx_pub;
     ex \<leftarrow> (if extra_nonce \<noteq> [] then add_extra_nonce_to_tx_extra ex extra_nonce else Some ex);
     ex \<leftarrow> sort_tx_extra ex False;
     let (ctrl_pub, ctrl_sec) = get_deterministic_keypair_from_height env height;
     let ex = (if already_generated_coins \<noteq> 0 then add_tx_pub_key_to_extra ex ctrl_pub else ex);
     let ex = add_full_node_winner_to_tx_extra ex winner;
     parts \<leftarrow> get_antd_block_reward uninit median_weight current_block_weight already_generated_coins
       (uint hard_fork_version)
       \<lparr>ctx_height = height, fee = fee_amount, batched_control = batched, snode_winner_info = winner_infos\<rparr>;
     outs \<leftarrow> miner_tx_outputs env miner_address tx_sec ctrl_sec control_wallet_address infos
       already_generated_coins hard_fork_version parts;
     let summary_amounts = fold (\<lambda>out s. s + amount out) outs 0;
     let expected_amount = miner_reward parts + control parts + full_node_paid parts;
     if summary_amounts \<noteq> expected_amount then None
     else Some (tx\<lparr>version := (if hard_fork_version \<ge> network_version_9_full_nodes
            then version_3_per_output_unlock_times else version_2),
          unlock_time := height + CRYPTONOTE_MINED_MONEY_UNLOCK_WINDOW,
          vin := [txin_gen height], vout := outs, extra := ex,
          output_unlock_times := replicate (length outs) (height + CRYPTONOTE_MINED_MONEY_UNLOCK_WINDOW),
          tx_type := type_num type_standard\<rparr>)
   }"

section \<open>The penalty\<close>

lemma penalty_factor:
  fixes M B :: nat
  assumes "M < B" and "B \<le> 2 * M"
  shows "(2 * M - B) * B < M * M"
proof -
  obtain k where k: "B = M + k" "0 < k" "k \<le> M" using assms by (metis add_le_cancel_left less_imp_add_positive mult_2)
  then have "(M - k) * (M + k) + k * k = M * M" by (auto simp: algebra_simps diff_mult_distrib dest!: le_Suc_ex)
  moreover have "2 * M - B = M - k" using k by simp
  ultimately show ?thesis using k by (metis less_add_same_cancel1 mult_pos_pos)
qed

lemma penalty_less:
  fixes R M B :: nat
  assumes "M < B" and "B \<le> 2 * M" and "0 < R"
  shows "R * ((2 * M - B) * B) div M div M < R"
proof -
  have "R * ((2 * M - B) * B) < R * (M * M)" using penalty_factor [OF assms(1,2)] assms(3) by simp
  then show ?thesis unfolding div_mult2_eq [symmetric] by (rule less_mult_imp_div_less)
qed

text \<open>
  For weights below 2 to the power 32 the base reward of version 7 and later is 600 coins up to
  the effective median weight, refused above twice that, and in between reduced to the exact
  value of the penalty formula, which is smaller than the full reward.
\<close>
theorem get_base_block_reward_correct:
  assumes "ver \<ge> 7" and "already_generated_coins \<noteq> 0" and "unat median < 2 ^ 32" and "unat weight < 2 ^ 32"
  defines "M \<equiv> max (unat median) 300000" and "R \<equiv> unat (600 * COIN)"
  shows "get_base_block_reward median weight already_generated_coins r0 ver =
    (if unat weight \<le> M then (True, 600 * COIN)
     else if 2 * M < unat weight then (False, 600 * COIN)
     else (True, word_of_nat (R * ((2 * M - unat weight) * unat weight) div M div M)))
   \<and> (M < unat weight \<longrightarrow> unat weight \<le> 2 * M \<longrightarrow> R * ((2 * M - unat weight) * unat weight) div M div M < R)"
proof -
  define m where "m = (if median < 300000 then 300000 else median)"
  have m: "unat m = M" unfolding m_def M_def by (simp add: word_less_nat_alt max_def)
  have ver: "\<not> ver < 2" "\<not> ver < 5"
    using assms(1) by (auto simp: word_less_nat_alt word_le_nat_alt)
  have M32: "M < 2 ^ 32" "0 < M" using assms(3) by (auto simp: M_def)
  have m2: "unat (2 * m) = 2 * M" using M32 by (subst unat_mult_nowrap) (simp_all add: m)
  have R: "R = 600000000000" "unat (600 * COIN :: u64) = R" by (simp_all add: R_def COIN_def)
  have small: "R * ((2 * M - unat weight) * unat weight) div M div M < R"
    if "M < unat weight" "unat weight \<le> 2 * M" by (rule penalty_less [OF that]) (simp add: R)
  have code: "get_base_block_reward median weight already_generated_coins r0 ver =
     (if weight \<le> m then (True, 600 * COIN) else if weight > 2 * m then (False, 600 * COIN)
      else case mul128 (600 * COIN) ((2 * m - weight) * weight) of (lo, hi) \<Rightarrow>
        case div128_32 hi lo (ucast m) of (_, h1, l1) \<Rightarrow>
        case div128_32 h1 l1 (ucast m) of (_, h2, l2) \<Rightarrow> (True, l2))"
    using ver assms(1,2) unfolding get_base_block_reward_def get_min_block_weight_def Let_def m_def by simp
  show ?thesis
  proof (cases "M < unat weight \<and> unat weight \<le> 2 * M")
    case False
    then show ?thesis
      using small by (auto simp: code word_le_nat_alt word_less_nat_alt m m2)
  next
    case True
    define k where "k = (2 * m - weight) * weight"
    have sub: "unat (2 * m - weight) = 2 * M - unat weight"
      using True by (subst unat_sub_nowrap) (simp_all add: m2)
    have "(2 * M - unat weight) * unat weight < M * M" using True by (intro penalty_factor) simp_all
    moreover have "M * M \<le> 2 ^ 32 * 2 ^ 32" using M32 by (intro mult_le_mono) simp_all
    ultimately have k: "unat k = (2 * M - unat weight) * unat weight"
      unfolding k_def by (subst unat_mult_nowrap) (simp_all add: sub)
    have um: "unat (ucast m :: u32) = M" "(ucast m :: u32) \<noteq> 0"
      using M32 by (simp_all add: unsigned_ucast_eq take_bit_nat_eq_self m word_unat_eq_iff)
    obtain lo hi where p: "mul128 (600 * COIN) k = (lo, hi)" by fastforce
    obtain r1 h1 l1 where d1: "div128_32 hi lo (ucast m) = (r1, h1, l1)" by (metis prod_cases3)
    obtain r2 h2 l2 where d2: "div128_32 h1 l1 (ucast m) = (r2, h2, l2)" by (metis prod_cases3)
    have v: "val128 h2 l2 = R * ((2 * M - unat weight) * unat weight) div M div M"
      using div128_32_val [OF um(2) d1] div128_32_val [OF um(2) d2] wide.mul_val [OF p] by (simp add: um k R(2))
    have "unat h2 = 0"
      using v small True R(1) by (cases "unat h2") (auto simp: val128_def)
    then have l2: "l2 = word_of_nat (R * ((2 * M - unat weight) * unat weight) div M div M)"
      using v by (simp add: val128_def flip: v)
    have "get_base_block_reward median weight already_generated_coins r0 ver = (True, l2)"
      using True by (simp add: code word_le_nat_alt word_less_nat_alt m m2 k_def [symmetric] p d1 d2)
    then show ?thesis using True small l2 by simp
  qed
qed

theorem get_base_block_reward_correct_witness:
  "get_base_block_reward 300000 450000 1 0 9 = (True, 450000000000)"
  using get_base_block_reward_correct [of 9 1 300000 450000 0] by (simp add: COIN_def)

section \<open>The split of the reward\<close>

lemma get_portion_of_reward_val:
  assumes "portions \<le> STAKING_PORTIONS"
  shows "unat (get_portion_of_reward portions tot) = unat tot * unat portions div unat STAKING_PORTIONS"
  using portions_to_amount_val [OF assms, of tot]
  by (simp add: get_portion_of_reward_def portions_to_amount_def)

lemma get_portion_of_reward_zero: "get_portion_of_reward portions 0 = 0"
proof -
  obtain lo hi where m: "mul128 0 portions = (lo, hi)" by fastforce
  obtain r qh ql where d: "div128_64 hi lo STAKING_PORTIONS = (r, qh, ql)" by (metis prod_cases3)
  show ?thesis
    using wide.muldiv_fits [OF STAKING_PORTIONS_nz m d] by (simp add: get_portion_of_reward_def m d unat_eq_zero)
qed

lemma sum_div_le: "sum_list (map (\<lambda>p. t * p div S) ps) \<le> t * sum_list ps div (S :: nat)"
proof (induction ps)
  case (Cons p ps)
  have "t * p div S + t * sum_list ps div S \<le> (t * p + t * sum_list ps) div S" by (subst div_add1_eq) simp
  then show ?case using Cons by (simp add: distrib_left)
qed simp

lemma fold_add_sum: "fold (\<lambda>x r. r + f x) xs (r :: u64) = r + sum_list (map f xs)"
  by (induction xs arbitrary: r) (simp_all add: add.assoc)

lemma unat_sum_list_nowrap:
  "sum_list (map unat xs) < 2 ^ 64 \<Longrightarrow> unat (sum_list (xs :: u64 list)) = sum_list (map unat xs)"
proof (induction xs)
  case (Cons x xs)
  then show ?case by (simp add: unat_add_nowrap)
qed simp

definition portions_within :: "winner_info \<Rightarrow> bool" where
  "portions_within infos \<longleftrightarrow> sum_list (map (unat \<circ> snd) infos) \<le> unat STAKING_PORTIONS"

lemma calculate_sum_of_portions_val:
  assumes "portions_within infos"
  shows "unat (calculate_sum_of_portions infos tot)
      = sum_list (map (\<lambda>p. unat tot * unat (snd p) div unat STAKING_PORTIONS) infos)"
    and "calculate_sum_of_portions infos tot \<le> tot"
proof -
  have each: "snd p \<le> STAKING_PORTIONS" if "p \<in> set infos" for p
    using assms that member_le_sum_list [of "unat (snd p)" "map (unat \<circ> snd) infos"]
    by (simp add: portions_within_def word_le_nat_alt)
  let ?f = "\<lambda>p. unat tot * unat (snd p) div unat STAKING_PORTIONS"
  have vals: "map unat (map (\<lambda>p. get_portion_of_reward (snd p) tot) infos) = map ?f infos"
    using each by (simp add: get_portion_of_reward_val)
  have "sum_list (map ?f infos) \<le> unat tot * sum_list (map (unat \<circ> snd) infos) div unat STAKING_PORTIONS"
    using sum_div_le [of "unat tot" "unat STAKING_PORTIONS" "map (unat \<circ> snd) infos"] by (simp add: comp_def)
  also have "\<dots> \<le> unat tot * unat STAKING_PORTIONS div unat STAKING_PORTIONS"
    using assms by (intro div_le_mono mult_le_mono2) (simp add: portions_within_def)
  also have "\<dots> = unat tot" by (simp add: STAKING_PORTIONS_nat)
  finally have le: "sum_list (map ?f infos) \<le> unat tot" .
  have "calculate_sum_of_portions infos tot = sum_list (map (\<lambda>p. get_portion_of_reward (snd p) tot) infos)"
    by (simp add: calculate_sum_of_portions_def fold_add_sum)
  moreover have "unat (sum_list (map (\<lambda>p. get_portion_of_reward (snd p) tot) infos)) = sum_list (map ?f infos)"
    using unat_sum_list_nowrap [of "map (\<lambda>p. get_portion_of_reward (snd p) tot) infos"] le unat_u64_less [of tot]
    unfolding vals by simp
  ultimately show "unat (calculate_sum_of_portions infos tot) = sum_list (map ?f infos)"
    and "calculate_sum_of_portions infos tot \<le> tot"
    using le by (simp_all add: word_le_nat_alt)
qed

lemma null_winner_within: "portions_within null_winner"
  by (simp add: portions_within_def null_winner_def)

text \<open>
  C34. From version 9 on, after the first coins, when the winner's portions stay within the maximum:
  the full node is paid at most half of the base reward, the miner's part is what is left of the
  base reward after a sixth for the control output and the amount paid to the full node, with no
  wrap-around, and it is at least a third of the base reward; the batched control amount of later
  versions does not change it.
\<close>
theorem get_antd_block_reward_conserves:
  assumes "get_antd_block_reward uninit median weight already hf ctx = Some parts"
    and "already \<noteq> 0" and "hf \<ge> 9" and "portions_within (snode_winner_info ctx)"
  shows "unat (base_miner parts) + unat (full_node_paid parts) + unat (original_base_reward parts) div 6
      = unat (original_base_reward parts)
    \<and> 2 * unat (full_node_paid parts) \<le> unat (original_base_reward parts)
    \<and> unat (original_base_reward parts) \<le> 3 * unat (base_miner parts)
    \<and> control parts = (if hf \<ge> 10 then batched_control ctx else original_base_reward parts div 6)"
proof -
  obtain ok base where b: "get_base_block_reward median weight already uninit (word_of_int hf) = (ok, base)"
    by fastforce
  have ok: "ok" "base \<noteq> 0"
    using assms(1) b by (auto simp: get_antd_block_reward_def split: if_splits)
  define infos where "infos = (if snode_winner_info ctx = [] then null_winner else snode_winner_info ctx)"
  define paid where "paid = calculate_sum_of_portions infos (base div 2)"
  have within: "portions_within infos" using assms(4) null_winner_within by (simp add: infos_def)
  have half: "unat (base div 2) = unat base div 2" and sixth: "unat (base div 6) = unat base div 6"
    by (simp_all add: unat_div_distrib)
  have paid: "unat paid \<le> unat base div 2"
    using calculate_sum_of_portions_val(2) [OF within, of "base div 2"]
    by (simp add: paid_def word_le_nat_alt half)
  have orig: "original_base_reward parts = base" and fp: "full_node_paid parts = paid"
    and ctrl: "control parts = (if hf \<ge> 10 then batched_control ctx else base div 6)"
    and bm: "base_miner parts = base - (base div 6 + paid)"
    using assms(1-3) b ok
    by (auto simp: get_antd_block_reward_def full_node_reward_formula_def control_reward_formula_def
        FULL_NODE_BASE_REWARD_DIVISOR_def CONTROL_BASE_REWARD_DIVISOR_def paid_def infos_def Let_def
        no_reward_parts_def word_greater_zero_iff split: if_splits)
  have "unat (base div 6 + paid) = unat base div 6 + unat paid"
    using paid unat_u64_less [of base] by (subst unat_add_nowrap) (simp_all add: sixth)
  then have "unat (base_miner parts) = unat base - (unat base div 6 + unat paid)"
    unfolding bm using paid by (subst unat_sub_nowrap) simp_all
  then show ?thesis using paid by (simp add: orig fp ctrl) linarith
qed

theorem get_antd_block_reward_conserves_witness:
  "\<exists>parts. get_antd_block_reward 0 300000 1000 1 9 \<lparr>ctx_height = 5, fee = 0, batched_control = 0, snode_winner_info = []\<rparr>
       = Some parts
     \<and> unat (base_miner parts) + unat (full_node_paid parts) + unat (original_base_reward parts) div 6
       = unat (original_base_reward parts)"
proof -
  let ?ctx = "\<lparr>ctx_height = 5, fee = 0, batched_control = 0, snode_winner_info = []\<rparr>"
  have "get_base_block_reward 300000 1000 1 0 9 = (True, 600000000000)"
    by (simp add: get_base_block_reward_def get_min_block_weight_def COIN_def word_le_nat_alt word_less_nat_alt)
  then obtain parts where p: "get_antd_block_reward 0 300000 1000 1 9 ?ctx = Some parts"
    by (simp add: get_antd_block_reward_def Let_def)
  then show ?thesis using get_antd_block_reward_conserves [OF p] by (simp add: portions_within_def)
qed

section \<open>The outputs of the miner transaction\<close>

lemma make_output_amount: "make_output env adr sec i amt = Some out \<Longrightarrow> amount out = amt"
  by (auto simp: make_output_def bind_eq_Some_conv)

lemma full_node_outputs_amounts:
  "full_node_outputs env sec tot i infos = Some outs \<Longrightarrow>
   map amount outs = map (\<lambda>p. get_portion_of_reward (snd p) tot) infos"
  by (induction infos arbitrary: i outs) (auto simp: bind_eq_Some_conv dest!: make_output_amount)

lemma calculate_sum_of_portions_sum:
  "calculate_sum_of_portions infos tot = sum_list (map (\<lambda>p. get_portion_of_reward (snd p) tot) infos)"
  by (simp add: calculate_sum_of_portions_def fold_add_sum)

lemma sum_portions_zero: "sum_list (map (\<lambda>p. get_portion_of_reward (snd p) 0) infos) = 0"
  by (induction infos) (simp_all add: get_portion_of_reward_zero)

lemma miner_outputs_sum:
  assumes "get_antd_block_reward uninit median weight already (uint hf)
      \<lparr>ctx_height = height, fee = f, batched_control = batched, snode_winner_info = winners\<rparr> = Some parts"
    and "miner_tx_outputs env miner tx_sec ctrl_sec wallet (if winners = [] then null_winner else winners)
      already hf parts = Some outs"
  shows "sum_list (map amount outs) = miner_reward parts + control parts + full_node_paid parts"
proof -
  define infos where "infos = (if winners = [] then null_winner else winners)"
  obtain ok base where b: "get_base_block_reward median weight already uninit (word_of_int (uint hf)) = (ok, base)"
    by fastforce
  have nine: "hf \<ge> network_version_9_full_nodes \<longleftrightarrow> uint hf \<ge> 9"
    by (simp add: network_version_9_full_nodes_def word_le_def)
  have paid: "full_node_paid parts = (if hf \<ge> network_version_9_full_nodes
      then sum_list (map (\<lambda>p. get_portion_of_reward (snd p) (full_node_total parts)) infos) else 0)"
    and zero: "already = 0 \<Longrightarrow> control parts = 0"
    using assms(1) b nine
    by (auto simp: get_antd_block_reward_def no_reward_parts_def Let_def calculate_sum_of_portions_sum infos_def
        sum_portions_zero full_node_reward_formula_def split: if_splits)
  obtain mo where mo: "make_output env miner tx_sec 0 (miner_reward parts) = Some mo"
    using assms(2) by (auto simp: miner_tx_outputs_def bind_eq_Some_conv)
  obtain nodes where nodes: "(if hf \<ge> network_version_9_full_nodes
      then full_node_outputs env ctrl_sec (full_node_total parts) 0 infos else Some []) = Some nodes"
    using assms(2) by (auto simp: miner_tx_outputs_def bind_eq_Some_conv infos_def split: if_splits)
  have "sum_list (map amount nodes) = full_node_paid parts"
    using nodes full_node_outputs_amounts [of env ctrl_sec "full_node_total parts" 0 infos nodes]
    by (auto simp: paid split: if_splits)
  moreover have "amount mo = miner_reward parts" using make_output_amount [OF mo] .
  moreover have "outs = mo # nodes \<and> control parts = 0 \<or>
      (\<exists>co. outs = mo # nodes @ [co] \<and> amount co = control parts)"
    using assms(2) mo nodes zero unfolding infos_def [symmetric] miner_tx_outputs_def
    by (cases "already = 0") (auto simp: bind_eq_Some_conv Let_def dest!: make_output_amount split: if_splits)
  ultimately show ?thesis by (auto simp: algebra_simps)
qed

text \<open>
  Whenever the reward is computed and the outputs of the miner transaction can be derived, the
  outputs add up to exactly the miner's reward, the control amount and the amount paid to the full
  node: the final consistency check of the builder never fails, for any version and any winner.
\<close>
theorem construct_miner_tx_amounts:
  assumes "get_antd_block_reward uninit median weight already (uint hf)
      \<lparr>ctx_height = height, fee = f, batched_control = batched, snode_winner_info = winners\<rparr> = Some parts"
    and "miner_tx_outputs env miner tx_sec ctrl_sec wallet (if winners = [] then null_winner else winners)
      already hf parts = Some outs"
  shows "sum_list (map amount outs) = miner_reward parts + control parts + full_node_paid parts"
  using assms by (rule miner_outputs_sum)

theorem construct_miner_tx_amounts_witness:
  "\<exists>parts outs. get_antd_block_reward 0 300000 1000 1 (uint (9 :: u8))
       \<lparr>ctx_height = 5, fee = 3, batched_control = 0, snode_winner_info = []\<rparr> = Some parts
     \<and> miner_tx_outputs \<lparr>generate_key_derivation = \<lambda>p s. Some p, derive_public_key = \<lambda>d i p. Some p,
         recover_keys = \<lambda>s. (s, s)\<rparr> null_address [] [] null_address null_winner 1 9 parts = Some outs
     \<and> sum_list (map amount outs) = miner_reward parts + control parts + full_node_paid parts"
proof -
  let ?ctx = "\<lparr>ctx_height = 5, fee = 3, batched_control = 0, snode_winner_info = []\<rparr>"
  let ?env = "\<lparr>generate_key_derivation = \<lambda>p s. Some p, derive_public_key = \<lambda>d i p. Some p, recover_keys = \<lambda>s. (s, s)\<rparr>"
  have "get_base_block_reward 300000 1000 1 0 9 = (True, 600000000000)"
    by (simp add: get_base_block_reward_def get_min_block_weight_def COIN_def word_le_nat_alt word_less_nat_alt)
  then obtain parts where p: "get_antd_block_reward 0 300000 1000 1 (uint (9 :: u8)) ?ctx = Some parts"
      and c: "control parts \<noteq> 0"
    by (simp add: get_antd_block_reward_def Let_def control_reward_formula_def CONTROL_BASE_REWARD_DIVISOR_def)
  obtain outs where o: "miner_tx_outputs ?env null_address [] [] null_address null_winner 1 9 parts = Some outs"
    using c by (simp add: miner_tx_outputs_def null_winner_def make_output_def get_deterministic_output_key_def
        network_version_9_full_nodes_def)
  with construct_miner_tx_amounts [OF p, of ?env null_address "[]" "[]" null_address outs] p
  show ?thesis by auto
qed

end
