(* ===== verification/Staking.thy ===== *)
theory Staking
  imports BlockReward "HOL-Library.More_List"
begin

text \<open>
  Staking records and the transactions that carry them, from \<^verbatim>\<open>src/cryptonote_core/full_node_list.cpp\<close>
  and its header: the information kept per full node, the decoding of a contribution, and the test
  whether a transaction registers a full node. Cryptographic checks and the decoding of hidden amounts
  are the fields of \<open>staking_crypto\<close>; the answers of the blockchain are the fields of \<open>chain_view\<close>.
\<close>

section \<open>Data\<close>

definition QUEUE_SWARM_ID :: u64 where "QUEUE_SWARM_ID = 0"
definition CRYPTONOTE_MAX_BLOCK_NUMBER :: u64 where "CRYPTONOTE_MAX_BLOCK_NUMBER = 500000000"

record contribution_t =
  ct_version :: u8
  ct_key_image_pub_key :: public_key
  ct_key_image :: key_image
  ct_amount :: u64

record contributor_t =
  cr_version :: u8
  cr_amount :: u64
  cr_reserved :: u64
  cr_address :: account_public_address
  locked_contributions :: "contribution_t list"

record full_node_info =
  info_version :: u8
  registration_height :: u64
  requested_unlock_height :: u64
  last_reward_block_height :: u64
  last_reward_transaction_index :: u32
  contributors :: "contributor_t list"
  total_contributed :: u64
  total_reserved :: u64
  staking_requirement :: u64
  portions_for_operator :: u64
  swarm_id :: u64
  operator_address :: account_public_address
  dummy :: u32

definition is_fully_funded :: "full_node_info \<Rightarrow> bool" where
  "is_fully_funded info \<longleftrightarrow> total_contributed info \<ge> staking_requirement info"

definition total_num_locked_contributions :: "full_node_info \<Rightarrow> u64" where
  "total_num_locked_contributions info =
     fold (\<lambda>contributor result. result + word_of_nat (length (locked_contributions contributor))) (contributors info) 0"

text \<open>The value-initialised records.\<close>

definition empty_info :: full_node_info where
  "empty_info = \<lparr>info_version = 0, registration_height = 0, requested_unlock_height = 0,
     last_reward_block_height = 0, last_reward_transaction_index = 0, contributors = [],
     total_contributed = 0, total_reserved = 0, staking_requirement = 0, portions_for_operator = 0,
     swarm_id = 0, operator_address = null_address, dummy = 0\<rparr>"

definition new_contributor :: "u8 \<Rightarrow> account_public_address \<Rightarrow> contributor_t" where
  "new_contributor ver address =
     \<lparr>cr_version = ver, cr_amount = 0, cr_reserved = 0, cr_address = address, locked_contributions = []\<rparr>"

record key_image_blacklist_entry =
  be_version :: u8
  be_key_image :: key_image
  be_unlock_height :: u64

record parsed_tx_contribution =
  pc_address :: account_public_address
  transferred :: u64
  pc_tx_key :: secret_key
  pc_locked_contributions :: "contribution_t list"

definition get_min_full_node_info_version_for_hf :: "u8 \<Rightarrow> u8" where
  "get_min_full_node_info_version_for_hf hf_version =
     (if hf_version \<ge> 7 \<and> hf_version \<le> network_version_9_full_nodes then 0
      else if hf_version = network_version_10_bulletproofs then 1
      else 2)"

section \<open>The environment\<close>

text \<open>
  \<open>decode_amount tx i derivation\<close> is the hidden amount of output \<open>i\<close>, and 0 when the ring signature
  type is not supported or decoding throws.
\<close>

record staking_crypto =
  key_crypto :: crypto_env
  check_key :: "public_key \<Rightarrow> bool"
  check_signature :: "crypto_hash \<Rightarrow> public_key \<Rightarrow> signature \<Rightarrow> bool"
  check_ring_signature :: "crypto_hash \<Rightarrow> key_image \<Rightarrow> public_key list \<Rightarrow> signature \<Rightarrow> bool"
  cn_fast_hash :: "bytes \<Rightarrow> crypto_hash"
  decode_amount :: "transaction \<Rightarrow> nat \<Rightarrow> bytes \<Rightarrow> u64"

text \<open>
  \<open>block_at\<close> is the block stored at a height; \<open>get_transactions\<close> are the stored transactions among
  some hashes, \<^const>\<open>None\<close> when one of them cannot be parsed; \<open>block_id_by_height\<close> is the null hash when
  there is no such block.
\<close>

record chain_view =
  nettype :: network_type
  hard_fork_version :: "u64 \<Rightarrow> u8"
  block_id_by_height :: "u64 \<Rightarrow> crypto_hash"
  block_at :: "u64 \<Rightarrow> block option"
  get_transactions :: "crypto_hash list \<Rightarrow> transaction list option"
  hardfork_9_from_height :: u64
  current_height :: u64

section \<open>Contributions\<close>

definition get_reg_tx_staking_output_contribution :: "staking_crypto \<Rightarrow> transaction \<Rightarrow> nat \<Rightarrow> bytes \<Rightarrow> u64" where
  "get_reg_tx_staking_output_contribution env tx i derivation =
     (case target (vout tx ! i) of
        txout_to_key _ \<Rightarrow> decode_amount env tx i derivation
      | _ \<Rightarrow> 0)"

text \<open>The first proof accepted by \<open>ok\<close>, and the proofs without it.\<close>

fun take_proof :: "(key_image_proof \<Rightarrow> bool) \<Rightarrow> key_image_proof list \<Rightarrow> (key_image_proof \<times> key_image_proof list) option" where
  "take_proof ok [] = None"
| "take_proof ok (p # ps) =
     (if ok p then Some (p, ps) else map_option (\<lambda>(q, qs). (q, p # qs)) (take_proof ok ps))"

definition output_key :: "tx_out \<Rightarrow> public_key option" where
  "output_key out = (case target out of txout_to_key k \<Rightarrow> Some k | _ \<Rightarrow> None)"

text \<open>The body of the output loop from version 11 on; \<open>continue\<close> leaves the state as it is.\<close>

definition lock_output :: "staking_crypto \<Rightarrow> transaction \<Rightarrow> bytes \<Rightarrow> nat \<Rightarrow>
    key_image_proof list \<times> parsed_tx_contribution \<Rightarrow> key_image_proof list \<times> parsed_tx_contribution" where
  "lock_output env tx derivation i = (\<lambda>(proofs, parsed).
     let amt = get_reg_tx_staking_output_contribution env tx i derivation
     in if amt = 0 then (proofs, parsed)
        else case derive_public_key (key_crypto env) derivation (word_of_nat i) (m_spend_public_key (pc_address parsed)) of
          None \<Rightarrow> (proofs, parsed)
        | Some ephemeral_pub_key \<Rightarrow>
            if output_key (vout tx ! i) \<noteq> Some ephemeral_pub_key then (proofs, parsed)
            else (case take_proof (\<lambda>p. check_ring_signature env (proof_key_image p) (proof_key_image p)
                   [ephemeral_pub_key] (proof_signature p)) proofs of
              None \<Rightarrow> (proofs, parsed)
            | Some (p, rest) \<Rightarrow> (rest,
                parsed\<lparr>pc_locked_contributions := pc_locked_contributions parsed @
                    [\<lparr>ct_version = 2, ct_key_image_pub_key = ephemeral_pub_key,
                      ct_key_image = proof_key_image p, ct_amount = amt\<rparr>],
                  transferred := transferred parsed + amt\<rparr>)))"

text \<open>
  The body of the output loop before version 11. The parser makes the unlock times as many as the
  outputs; a missing one reads as 0.
\<close>

definition add_output :: "staking_crypto \<Rightarrow> network_type \<Rightarrow> u64 \<Rightarrow> transaction \<Rightarrow> bytes \<Rightarrow> nat \<Rightarrow>
    parsed_tx_contribution \<Rightarrow> parsed_tx_contribution" where
  "add_output env net block_height tx derivation i parsed =
     (let t = (if version tx \<ge> version_3_per_output_unlock_times then nth_default 0 (output_unlock_times tx) i
               else unlock_time tx);
          min_height = block_height + staking_num_lock_blocks net;
          has_correct_unlock_time = (t < CRYPTONOTE_MAX_BLOCK_NUMBER \<and> t \<ge> min_height)
      in if has_correct_unlock_time
         then parsed\<lparr>transferred := transferred parsed + get_reg_tx_staking_output_contribution env tx i derivation\<rparr>
         else parsed)"

definition get_contribution :: "staking_crypto \<Rightarrow> network_type \<Rightarrow> u8 \<Rightarrow> transaction \<Rightarrow> u64 \<Rightarrow> parsed_tx_contribution option" where
  "get_contribution env net hf_version tx block_height = do {
     address \<leftarrow> get_full_node_contributor_from_tx_extra (extra tx);
     tx_key \<leftarrow> get_tx_secret_key_from_tx_extra (extra tx);
     derivation \<leftarrow> generate_key_derivation (key_crypto env) (m_view_public_key address) tx_key;
     let parsed = \<lparr>pc_address = address, transferred = 0, pc_tx_key = tx_key, pc_locked_contributions = []\<rparr>;
     if hf_version \<ge> network_version_11_infinite_staking
     then do {
       proofs \<leftarrow> get_tx_key_image_proofs_from_tx_extra (extra tx);
       Some (snd (fold (lock_output env tx derivation) [0..<length (vout tx)] (proofs, parsed)))
     }
     else Some (fold (add_output env net block_height tx derivation) [0..<length (vout tx)] parsed)
   }"

section \<open>Registrations\<close>

fun portions_left_loop :: "u64 \<Rightarrow> u64 list \<Rightarrow> bool" where
  "portions_left_loop portions_left [] = True"
| "portions_left_loop portions_left (p # ps) =
     (if p > portions_left then False else portions_left_loop (portions_left - p) ps)"

definition u64_bytes :: "u64 \<Rightarrow> bytes" where
  "u64_bytes x = map (\<lambda>i. ucast (drop_bit (8 * i) x)) [0..<8]"

definition address_bytes :: "account_public_address \<Rightarrow> bytes" where
  "address_bytes a = m_spend_public_key a @ m_view_public_key a"

definition get_registration_hash :: "staking_crypto \<Rightarrow> account_public_address list \<Rightarrow> u64 \<Rightarrow> u64 list \<Rightarrow> u64 \<Rightarrow> crypto_hash option" where
  "get_registration_hash env addresses operator_portions portions expiration_timestamp =
     (if length addresses \<noteq> length portions then None
      else if \<not> portions_left_loop STAKING_PORTIONS portions then None
      else Some (cn_fast_hash env (u64_bytes operator_portions
        @ concat (map (\<lambda>(a, p). address_bytes a @ u64_bytes p) (zip addresses portions))
        @ u64_bytes expiration_timestamp)))"

record registration_fields =
  reg_addresses :: "account_public_address list"
  reg_portions_for_operator :: u64
  reg_portions :: "u64 list"
  reg_expiration_timestamp :: u64
  reg_full_node_key :: public_key
  reg_signature :: signature

definition reg_tx_extract_fields :: "transaction \<Rightarrow> registration_fields option" where
  "reg_tx_extract_fields tx = do {
     registration \<leftarrow> get_full_node_register_from_tx_extra (extra tx);
     full_node_key \<leftarrow> get_full_node_pubkey_from_tx_extra (extra tx);
     Some \<lparr>reg_addresses = map2 (\<lambda>s v. \<lparr>m_spend_public_key = s, m_view_public_key = v\<rparr>)
             (m_public_spend_keys registration) (m_public_view_keys registration),
           reg_portions_for_operator = m_portions_for_operator registration,
           reg_portions = m_portions registration,
           reg_expiration_timestamp = m_expiration_timestamp registration,
           reg_full_node_key = full_node_key,
           reg_signature = m_full_node_signature registration\<rparr>
   }"

text \<open>The contributor loop: a duplicate address ends it with \<open>false\<close>.\<close>

fun add_contributors :: "u8 \<Rightarrow> account_public_address list \<Rightarrow> (account_public_address \<times> u64) list \<Rightarrow> full_node_info \<Rightarrow> full_node_info option" where
  "add_contributors ver seen [] info = Some info"
| "add_contributors ver seen ((address, portions) # rest) info =
     (if address \<in> set seen then None
      else
        let (lo, hi) = mul128 (staking_requirement info) portions;
            (_, resulthi, resultlo) = div128_64 hi lo STAKING_PORTIONS
        in add_contributors ver (seen @ [address]) rest
             (info\<lparr>contributors := contributors info @ [(new_contributor ver address)\<lparr>cr_reserved := resultlo\<rparr>],
                total_reserved := total_reserved info + resultlo\<rparr>))"

definition is_registration_tx :: "staking_crypto \<Rightarrow> chain_view \<Rightarrow> transaction \<Rightarrow> u64 \<Rightarrow> u64 \<Rightarrow> u32 \<Rightarrow> full_node_info \<Rightarrow>
    (public_key \<times> full_node_info) option" where
  "is_registration_tx env chain tx block_timestamp block_height index info = do {
     reg \<leftarrow> reg_tx_extract_fields tx;
     let addresses = reg_addresses reg;
     let portions = reg_portions reg;
     if length portions \<noteq> length addresses \<or> portions = [] then None else do {
     let hf_version = hard_fork_version chain block_height;
     if \<not> check_full_node_portions hf_version portions then None else do {
     if reg_portions_for_operator reg > STAKING_PORTIONS then None else do {
     hash \<leftarrow> get_registration_hash env addresses (reg_portions_for_operator reg) portions (reg_expiration_timestamp reg);
     if \<not> check_key env (reg_full_node_key reg) \<or> \<not> check_signature env hash (reg_full_node_key reg) (reg_signature reg) then None else do {
     if reg_expiration_timestamp reg < block_timestamp then None else do {
     let info = info\<lparr>staking_requirement := get_staking_requirement (nettype chain) block_height hf_version\<rparr>;
     parsed \<leftarrow> get_contribution env (nettype chain) hf_version tx block_height;
     if transferred parsed < get_min_node_contribution hf_version (staking_requirement info) (total_reserved info)
          (total_num_locked_contributions info) then None else do {
     let total_num_of_addr = (if pc_address parsed \<in> set addresses then length addresses else Suc (length addresses));
     if total_num_of_addr > unat MAX_NUMBER_OF_CONTRIBUTORS then None else do {
     let ver = get_min_full_node_info_version_for_hf hf_version;
     let info = info\<lparr>operator_address := hd addresses, portions_for_operator := reg_portions_for_operator reg,
       registration_height := block_height, last_reward_block_height := block_height,
       last_reward_transaction_index := index, total_contributed := 0, total_reserved := 0,
       info_version := ver, swarm_id := (if ver \<ge> 1 then QUEUE_SWARM_ID else swarm_id info), contributors := []\<rparr>;
     info \<leftarrow> add_contributors ver [] (zip addresses portions) info;
     Some (reg_full_node_key reg, info) }}}}}}}
   }"

section \<open>The funding invariant\<close>

text \<open>
  What holds of every registered node: the totals are the sums over the contributors, nobody has
  contributed more than reserved, the reserved stake fits into the requirement, there are one to four
  contributors with distinct addresses, and the first one is the operator.
\<close>

definition node_ok :: "full_node_info \<Rightarrow> bool" where
  "node_ok info \<longleftrightarrow>
     sum_list (map (\<lambda>c. unat (cr_amount c)) (contributors info)) = unat (total_contributed info)
   \<and> sum_list (map (\<lambda>c. unat (cr_reserved c)) (contributors info)) = unat (total_reserved info)
   \<and> total_reserved info \<le> staking_requirement info
   \<and> list_all (\<lambda>c. cr_amount c \<le> cr_reserved c) (contributors info)
   \<and> distinct (map cr_address (contributors info))
   \<and> contributors info \<noteq> [] \<and> length (contributors info) \<le> 4
   \<and> operator_address info = cr_address (hd (contributors info))
   \<and> portions_for_operator info \<le> STAKING_PORTIONS
   \<and> staking_requirement info \<noteq> 0"

lemma portions_left_loop_sum:
  "portions_left_loop left ps \<longleftrightarrow> sum_list (map unat ps) \<le> unat left"
proof (induction ps arbitrary: left)
  case (Cons p ps)
  show ?case
  proof (cases "p > left")
    case True
    then show ?thesis by (simp add: word_less_nat_alt)
  next
    case False
    then have le: "unat p \<le> unat left" by (simp add: word_less_nat_alt)
    then show ?thesis using False Cons.IH [of "left - p"] by (auto simp: unat_sub_nowrap)
  qed
qed simp

lemma add_contributors_Cons:
  "add_contributors ver seen ((address, portions) # rest) info =
    (if address \<in> set seen then None
     else add_contributors ver (seen @ [address]) rest
       (info\<lparr>contributors := contributors info
            @ [(new_contributor ver address)\<lparr>cr_reserved := portions_to_amount portions (staking_requirement info)\<rparr>],
          total_reserved := total_reserved info + portions_to_amount portions (staking_requirement info)\<rparr>))"
  by (simp add: portions_to_amount_def case_prod_beta Let_def)

declare add_contributors.simps(2) [simp del]

lemma add_contributors_result:
  assumes "add_contributors ver seen aps info = Some info'"
  shows "info' = info\<lparr>contributors := contributors info
      @ map (\<lambda>(a, p). (new_contributor ver a)\<lparr>cr_reserved := portions_to_amount p (staking_requirement info)\<rparr>) aps,
      total_reserved := total_reserved info + sum_list (map (\<lambda>(a, p). portions_to_amount p (staking_requirement info)) aps)\<rparr>
    \<and> distinct (map fst aps) \<and> set (map fst aps) \<inter> set seen = {}"
  using assms
proof (induction aps arbitrary: seen info)
  case (Cons ap aps)
  obtain a p where ap: "ap = (a, p)" by fastforce
  with Cons.prems have ns: "a \<notin> set seen" and step: "add_contributors ver (seen @ [a]) aps
      (info\<lparr>contributors := contributors info
            @ [(new_contributor ver a)\<lparr>cr_reserved := portions_to_amount p (staking_requirement info)\<rparr>],
          total_reserved := total_reserved info + portions_to_amount p (staking_requirement info)\<rparr>) = Some info'"
    by (auto simp: add_contributors_Cons split: if_splits)
  from Cons.IH [OF step] ns show ?case by (auto simp: ap add.assoc)
qed simp

lemma portions_to_amount_sum:
  assumes "sum_list (map unat ps) \<le> unat STAKING_PORTIONS"
  shows "unat (sum_list (map (\<lambda>p. portions_to_amount p req) ps)) = sum_list (map (\<lambda>p. unat (portions_to_amount p req)) ps)"
    and "sum_list (map (\<lambda>p. unat (portions_to_amount p req)) ps) \<le> unat req"
proof -
  have each: "p \<le> STAKING_PORTIONS" if "p \<in> set ps" for p
    using assms that member_le_sum_list [of "unat p" "map unat ps"] by (simp add: word_le_nat_alt)
  have vals: "map (\<lambda>p. unat (portions_to_amount p req)) ps = map (\<lambda>p. unat req * p div unat STAKING_PORTIONS) (map unat ps)"
    using each by (simp add: portions_to_amount_val)
  have "sum_list (map (\<lambda>p. unat req * p div unat STAKING_PORTIONS) (map unat ps))
      \<le> unat req * sum_list (map unat ps) div unat STAKING_PORTIONS"
    by (rule sum_div_le)
  also have "\<dots> \<le> unat req * unat STAKING_PORTIONS div unat STAKING_PORTIONS"
    using assms by (intro div_le_mono mult_le_mono2)
  also have "\<dots> = unat req" by (simp add: STAKING_PORTIONS_nat)
  finally show le: "sum_list (map (\<lambda>p. unat (portions_to_amount p req)) ps) \<le> unat req" unfolding vals .
  show "unat (sum_list (map (\<lambda>p. portions_to_amount p req) ps)) = sum_list (map (\<lambda>p. unat (portions_to_amount p req)) ps)"
    using unat_sum_list_nowrap [of "map (\<lambda>p. portions_to_amount p req) ps"] le unat_u64_less [of req]
    by (simp add: comp_def)
qed

text \<open>The record of a registration before its contributors are added.\<close>

definition start_info :: "chain_view \<Rightarrow> u64 \<Rightarrow> u32 \<Rightarrow> registration_fields \<Rightarrow> full_node_info \<Rightarrow> full_node_info" where
  "start_info chain h i reg info =
     (let ver = get_min_full_node_info_version_for_hf (hard_fork_version chain h)
      in info\<lparr>staking_requirement := get_staking_requirement (nettype chain) h (hard_fork_version chain h),
        operator_address := hd (reg_addresses reg), portions_for_operator := reg_portions_for_operator reg,
        registration_height := h, last_reward_block_height := h, last_reward_transaction_index := i,
        total_contributed := 0, total_reserved := 0, info_version := ver,
        swarm_id := (if ver \<ge> 1 then QUEUE_SWARM_ID else swarm_id info), contributors := []\<rparr>)"

lemma is_registration_txD:
  assumes "is_registration_tx env chain tx ts h i info0 = Some (key, info)"
  obtains reg :: registration_fields where "length (reg_portions reg) = length (reg_addresses reg)" and "reg_portions reg \<noteq> []"
    and "length (reg_addresses reg) \<le> 4" and "reg_portions_for_operator reg \<le> STAKING_PORTIONS"
    and "portions_left_loop STAKING_PORTIONS (reg_portions reg)"
    and "add_contributors (get_min_full_node_info_version_for_hf (hard_fork_version chain h)) []
      (zip (reg_addresses reg) (reg_portions reg)) (start_info chain h i reg info0) = Some info"
    and "reg_tx_extract_fields tx = Some reg" and "key = reg_full_node_key reg"
  using assms unfolding is_registration_tx_def start_info_def
  by (fastforce simp: bind_eq_Some_conv Let_def get_registration_hash_def MAX_NUMBER_OF_CONTRIBUTORS_def not_less
      split: if_splits)

lemma map_zip_snd: "length xs = length ys \<Longrightarrow> map (\<lambda>(a, p). f p) (zip xs ys) = map f ys"
  by (induction xs ys rule: list_induct2) auto

lemma map_zip_fst: "length xs = length ys \<Longrightarrow> map (\<lambda>(a, p). f a) (zip xs ys) = map f xs"
  by (induction xs ys rule: list_induct2) auto

lemma registration_ok:
  assumes "is_registration_tx env chain tx ts h i empty_info = Some (key, info)"
  shows "node_ok info \<and> total_contributed info = 0 \<and> requested_unlock_height info = KEY_IMAGE_AWAITING_UNLOCK_HEIGHT
    \<and> registration_height info = h \<and> last_reward_block_height info = h \<and> last_reward_transaction_index info = i"
proof -
  from assms obtain reg where len: "length (reg_portions reg) = length (reg_addresses reg)" "reg_portions reg \<noteq> []"
      "length (reg_addresses reg) \<le> 4"
    and op: "reg_portions_for_operator reg \<le> STAKING_PORTIONS"
    and left: "portions_left_loop STAKING_PORTIONS (reg_portions reg)"
    and contr: "add_contributors (get_min_full_node_info_version_for_hf (hard_fork_version chain h)) []
      (zip (reg_addresses reg) (reg_portions reg)) (start_info chain h i reg empty_info) = Some info"
    by (rule is_registration_txD)
  define req where "req = get_staking_requirement (nettype chain) h (hard_fork_version chain h)"
  define start where "start = start_info chain h i reg empty_info"
  have start: "staking_requirement start = req" "total_reserved start = 0" "contributors start = []"
      "total_contributed start = 0" "operator_address start = hd (reg_addresses reg)"
      "portions_for_operator start = reg_portions_for_operator reg" "requested_unlock_height start = 0"
      "registration_height start = h" "last_reward_block_height start = h" "last_reward_transaction_index start = i"
    by (simp_all add: start_def start_info_def Let_def req_def empty_info_def)
  have req: "req \<noteq> 0" by (simp add: req_def get_staking_requirement_def COIN_def)
  have sum: "sum_list (map unat (reg_portions reg)) \<le> unat STAKING_PORTIONS"
    using left by (simp add: portions_left_loop_sum)
  note tot = portions_to_amount_sum [OF sum, of req]
  define aps where "aps = zip (reg_addresses reg) (reg_portions reg)"
  have fst: "map fst aps = reg_addresses reg" using len(1) by (simp add: aps_def)
  have "aps \<noteq> []" using len by (simp add: aps_def) (metis length_0_conv)
  note r = add_contributors_result [OF contr, folded start_def aps_def, unfolded start]
  have sn: "map (\<lambda>(a, p). f p) aps = map f (reg_portions reg)" for f :: "u64 \<Rightarrow> 'b"
    unfolding aps_def using len(1) by (intro map_zip_snd) simp
  have "total_reserved info = sum_list (map (\<lambda>p. portions_to_amount p req) (reg_portions reg))"
    using r start by (simp add: sn)
  moreover have "map cr_address (contributors info) = reg_addresses reg"
    using r start fst by (simp add: comp_def case_prod_beta' new_contributor_def)
  moreover have "map (\<lambda>c. unat (cr_reserved c)) (contributors info) = map (\<lambda>p. unat (portions_to_amount p req)) (reg_portions reg)"
    using r start sn [of "\<lambda>p. unat (portions_to_amount p req)"] by (simp add: comp_def case_prod_beta')
  moreover have "map (\<lambda>c. unat (cr_amount c)) (contributors info) = map (\<lambda>_. 0) aps"
    and "list_all (\<lambda>c. cr_amount c \<le> cr_reserved c) (contributors info)"
    using r start by (auto simp: comp_def case_prod_beta' new_contributor_def list_all_iff)
  moreover have "distinct (reg_addresses reg)" using r fst by simp
  moreover have "contributors info \<noteq> []" "length (contributors info) \<le> 4"
      "operator_address info = hd (reg_addresses reg)" "total_contributed info = 0" "staking_requirement info = req"
      "portions_for_operator info = reg_portions_for_operator reg"
      "requested_unlock_height info = 0 \<and> registration_height info = h \<and> last_reward_block_height info = h
        \<and> last_reward_transaction_index info = i"
    using r start \<open>aps \<noteq> []\<close> len by (auto simp: aps_def)
  moreover have "cr_address (hd (contributors info)) = hd (reg_addresses reg)"
    using calculation by (metis hd_map)
  ultimately show ?thesis
    using op req tot by (simp add: node_ok_def KEY_IMAGE_AWAITING_UNLOCK_HEIGHT_def word_le_nat_alt)
qed

end
