(* ===== verification/Swarm.thy ===== *)
theory Swarm
  imports Shuffle Staking
begin

text \<open>
  The assignment of full nodes to storage swarms, \<open>calc_swarm_changes\<close> of
  \<^verbatim>\<open>src/cryptonote_core/full_node_list.cpp\<close>. A \<open>std::map\<close> from swarm ids to node lists is an
  association list in the order of the ids. A value of \<^const>\<open>None\<close> means that the generator never gives
  an acceptable draw.
\<close>

type_synonym swarms = "(u64 \<times> public_key list) list"

definition MAX_SWARM_SIZE :: nat where "MAX_SWARM_SIZE = 10"
definition SWARM_BUFFER :: nat where "SWARM_BUFFER = 5"
definition MIN_SWARM_SIZE :: nat where "MIN_SWARM_SIZE = 5"

text \<open>\<open>at(id)\<close> for an id in the map, \<open>push_back\<close> on the list of an id, and \<open>insert\<close>, which keeps an existing entry.\<close>

definition swarm_at :: "swarms \<Rightarrow> u64 \<Rightarrow> public_key list" where
  "swarm_at m sid = (case map_of m sid of None \<Rightarrow> [] | Some v \<Rightarrow> v)"

definition set_swarm :: "u64 \<Rightarrow> public_key list \<Rightarrow> swarms \<Rightarrow> swarms" where
  "set_swarm sid v m = map (\<lambda>(k, w). if k = sid then (k, v) else (k, w)) m"

definition insert_swarm :: "u64 \<Rightarrow> public_key list \<Rightarrow> swarms \<Rightarrow> swarms" where
  "insert_swarm sid v m = (if sid \<in> fst ` set m then m else insort_key fst (sid, v) m)"

partial_function (option) new_swarm_loop :: "mt \<Rightarrow> u64 list \<Rightarrow> u64 \<Rightarrow> (u64 \<times> mt) option" where
  "new_swarm_loop s ids id_new =
     (if id_new = QUEUE_SWARM_ID \<or> id_new \<in> set ids
      then do { (x, s) \<leftarrow> uniform_distribution_portable s UINT64_MAX; new_swarm_loop s ids x }
      else Some (id_new, s))"

definition get_new_swarm_id :: "mt \<Rightarrow> u64 list \<Rightarrow> (u64 \<times> mt) option" where
  "get_new_swarm_id s ids = new_swarm_loop s ids QUEUE_SWARM_ID"

definition get_all_swarms :: "swarms \<Rightarrow> u64 list" where
  "get_all_swarms m = map fst m"

definition pop_random_snode :: "mt \<Rightarrow> public_key list \<Rightarrow> (public_key \<times> public_key list \<times> mt) option" where
  "pop_random_snode s vec = do {
     (idx, s) \<leftarrow> uniform_distribution_portable s (word_of_nat (length vec));
     Some (vec ! unat idx, take (unat idx) vec @ drop (Suc (unat idx)) vec, s)
   }"

text \<open>\<open>std::max_element\<close> and \<open>std::min_element\<close> by size: the first of the extreme elements.\<close>

definition largest_swarm :: "swarms \<Rightarrow> u64 list \<Rightarrow> u64" where
  "largest_swarm m ids = fold (\<lambda>sid best. if length (swarm_at m best) < length (swarm_at m sid) then sid else best) (tl ids) (hd ids)"

definition smallest_swarm :: "swarms \<Rightarrow> u64 list \<Rightarrow> u64" where
  "smallest_swarm m ids = fold (\<lambda>sid best. if length (swarm_at m sid) < length (swarm_at m best) then sid else best) (tl ids) (hd ids)"

text \<open>1. Fill the starving swarms from the queue.\<close>

fun fill_swarm :: "nat \<Rightarrow> u64 \<Rightarrow> mt \<times> public_key list \<times> swarms \<Rightarrow> (mt \<times> public_key list \<times> swarms) option" where
  "fill_swarm 0 sid st = Some st"
| "fill_swarm (Suc j) sid (s, buf, m) =
     (if buf = [] then Some (s, buf, m)
      else do {
        (k, buf, s) \<leftarrow> pop_random_snode s buf;
        fill_swarm j sid (s, buf, set_swarm sid (swarm_at m sid @ [k]) m) })"

fun fill_starving :: "u64 list \<Rightarrow> mt \<times> public_key list \<times> swarms \<Rightarrow> (mt \<times> public_key list \<times> swarms) option" where
  "fill_starving [] st = Some st"
| "fill_starving (sid # ids) (s, buf, m) = do {
     (s, buf, m) \<leftarrow> fill_swarm (MIN_SWARM_SIZE - length (swarm_at m sid)) sid (s, buf, m);
     if buf = [] then Some (s, buf, m) else fill_starving ids (s, buf, m)
   }"

text \<open>2. Steal nodes for them from the largest swarms; the flag is \<open>can_continue\<close>.\<close>

fun steal_nodes :: "nat \<Rightarrow> u64 list \<Rightarrow> u64 \<Rightarrow> mt \<times> swarms \<Rightarrow> (bool \<times> mt \<times> swarms) option" where
  "steal_nodes 0 ids sid (s, m) = Some (True, s, m)"
| "steal_nodes (Suc j) ids sid (s, m) =
     (let large = largest_swarm m ids
      in if length (swarm_at m large) \<le> MIN_SWARM_SIZE then Some (False, s, m)
         else do {
           (k, rest, s) \<leftarrow> pop_random_snode s (swarm_at m large);
           let m = set_swarm large rest m;
           steal_nodes j ids sid (s, set_swarm sid (swarm_at m sid @ [k]) m) })"

fun steal_starving :: "u64 list \<Rightarrow> u64 list \<Rightarrow> mt \<times> swarms \<Rightarrow> (mt \<times> swarms) option" where
  "steal_starving ids [] st = Some st"
| "steal_starving ids (sid # rest) (s, m) =
     (if length (swarm_at m sid) = MIN_SWARM_SIZE then steal_starving ids rest (s, m)
      else do {
        (can_continue, s, m) \<leftarrow> steal_nodes (MIN_SWARM_SIZE - length (swarm_at m sid)) ids sid (s, m);
        if can_continue then steal_starving ids rest (s, m) else Some (s, m) })"

text \<open>
  3. Fill the smallest swarms up. Every iteration takes a node from the queue, so the length of the
  queue bounds the number of iterations.
\<close>

fun fill_smallest :: "nat \<Rightarrow> u64 list \<Rightarrow> mt \<times> public_key list \<times> swarms \<Rightarrow> (mt \<times> public_key list \<times> swarms) option" where
  "fill_smallest 0 ids st = Some st"
| "fill_smallest (Suc n) ids (s, buf, m) =
     (if buf = [] \<or> ids = [] then Some (s, buf, m)
      else
        let small = smallest_swarm m ids
        in if length (swarm_at m small) = MAX_SWARM_SIZE then Some (s, buf, m)
           else do {
             (k, buf, s) \<leftarrow> pop_random_snode s buf;
             fill_smallest n ids (s, buf, set_swarm small (swarm_at m small @ [k]) m) })"

text \<open>4. Create new swarms; the selected nodes are exchanged for nodes of random existing swarms.\<close>

fun select_snodes :: "nat \<Rightarrow> mt \<times> public_key list \<times> swarms \<times> public_key list \<Rightarrow>
    (mt \<times> public_key list \<times> swarms \<times> public_key list) option" where
  "select_snodes 0 st = Some st"
| "select_snodes (Suc n) (s, buf, m, selected) =
     (let fresh = last buf; buf = butlast buf
      in if length m > 0
         then do {
           (swarm_idx, s) \<leftarrow> uniform_distribution_portable s (word_of_nat (length m));
           let (sid, nodes) = m ! unat swarm_idx;
           (snode, rest, s) \<leftarrow> pop_random_snode s nodes;
           select_snodes n (s, buf, m[unat swarm_idx := (sid, rest @ [fresh])], selected @ [snode]) }
         else select_snodes n (s, buf, m, selected @ [fresh]))"

text \<open>Every iteration removes \<open>MAX_SWARM_SIZE\<close> nodes from the queue; its length bounds the iterations.\<close>

fun create_swarms :: "nat \<Rightarrow> u64 \<Rightarrow> u64 list \<Rightarrow> mt \<times> public_key list \<times> swarms \<Rightarrow> (mt \<times> public_key list \<times> swarms) option" where
  "create_swarms 0 seed ids st = Some st"
| "create_swarms (Suc n) seed ids (s, buf, m) =
     (if length buf \<ge> MAX_SWARM_SIZE + SWARM_BUFFER
      then do {
        (new_id, s) \<leftarrow> get_new_swarm_id s ids;
        buf \<leftarrow> antd_shuffle buf (seed + new_id);
        (s, buf, m, selected) \<leftarrow> select_snodes MAX_SWARM_SIZE (s, buf, m, []);
        create_swarms n seed ids (s, buf, insert_swarm new_id selected m) }
      else Some (s, buf, m))"

definition calc_swarm_changes :: "swarms \<Rightarrow> u64 \<Rightarrow> swarms option" where
  "calc_swarm_changes m seed = do {
     let s = mt_seed seed;
     let buf = swarm_at m QUEUE_SWARM_ID;
     let m = filter (\<lambda>(sid, _). sid \<noteq> QUEUE_SWARM_ID) m;
     ids \<leftarrow> antd_shuffle (sort (get_all_swarms m)) seed;
     let starving = filter (\<lambda>sid. length (swarm_at m sid) < MIN_SWARM_SIZE) ids;
     (s, buf, m) \<leftarrow> fill_starving starving (s, buf, m);
     (s, m) \<leftarrow> steal_starving ids starving (s, m);
     (s, buf, m) \<leftarrow> fill_smallest (length buf) ids (s, buf, m);
     (s, buf, m) \<leftarrow> create_swarms (length buf) seed ids (s, buf, m);
     Some (insert_swarm QUEUE_SWARM_ID buf m)
   }"

section \<open>No node is lost\<close>

definition swarm_nodes :: "swarms \<Rightarrow> public_key multiset" where
  "swarm_nodes m = mset (concat (map snd m))"

lemma swarm_nodes_simps [simp]:
  "swarm_nodes [] = {#}" "swarm_nodes (e # m) = mset (snd e) + swarm_nodes m"
  "swarm_nodes (m @ m') = swarm_nodes m + swarm_nodes m'"
  by (simp_all add: swarm_nodes_def)

lemma set_swarm_keys [simp]: "map fst (set_swarm sid v m) = map fst m"
  by (simp add: set_swarm_def comp_def case_prod_beta)

lemma set_swarm_absent: "sid \<notin> fst ` set m \<Longrightarrow> set_swarm sid v m = m"
  by (induction m) (auto simp: set_swarm_def)

lemma set_swarm_nodes:
  "distinct (map fst m) \<Longrightarrow> sid \<in> fst ` set m \<Longrightarrow>
   swarm_nodes (set_swarm sid v m) + mset (swarm_at m sid) = swarm_nodes m + mset v"
proof (induction m)
  case (Cons e m)
  show ?case
  proof (cases "fst e = sid")
    case True
    then have "set_swarm sid v m = m" using Cons.prems by (intro set_swarm_absent) auto
    then show ?thesis using True by (cases e) (auto simp: set_swarm_def swarm_at_def)
  next
    case False
    then show ?thesis using Cons by (cases e) (auto simp: set_swarm_def swarm_at_def algebra_simps)
  qed
qed simp

lemma push_swarm_nodes:
  assumes "distinct (map fst m)" and "sid \<in> fst ` set m"
  shows "swarm_nodes (set_swarm sid (swarm_at m sid @ [k]) m) = add_mset k (swarm_nodes m)"
  using set_swarm_nodes [OF assms, of "swarm_at m sid @ [k]"] by simp

lemma pop_random_snode_mset:
  assumes "pop_random_snode s vec = Some (k, rest, s')"
  shows "mset vec = add_mset k (mset rest) \<and> length vec = Suc (length rest)"
proof -
  obtain idx where u: "uniform_distribution_portable s (word_of_nat (length vec)) = Some (idx, s')"
      and k: "k = vec ! unat idx" "rest = take (unat idx) vec @ drop (Suc (unat idx)) vec"
    using assms by (auto simp: pop_random_snode_def bind_eq_Some_conv)
  have "unat idx < unat (word_of_nat (length vec) :: u64)"
    using uniform_less [OF u] by (simp add: word_less_nat_alt)
  also have "\<dots> \<le> length vec" by (simp only: unat_of_nat) simp
  finally have "unat idx < length vec" .
  then have "vec = take (unat idx) vec @ k # drop (Suc (unat idx)) vec" by (simp add: k id_take_nth_drop)
  then have "mset vec = add_mset k (mset (take (unat idx) vec) + mset (drop (Suc (unat idx)) vec))"
    by (metis mset.simps(2) mset_append union_mset_add_mset_right)
  then show ?thesis using \<open>unat idx < length vec\<close> by (simp add: k)
qed

lemma fill_swarm_nodes:
  assumes "fill_swarm j sid (s, buf, m) = Some (s', buf', m')" and "distinct (map fst m)" and "sid \<in> fst ` set m"
  shows "mset buf' + swarm_nodes m' = mset buf + swarm_nodes m \<and> map fst m' = map fst m \<and> length buf' \<le> length buf"
  using assms
proof (induction j arbitrary: s buf m)
  case (Suc j)
  show ?case
  proof (cases "buf = []")
    case False
    with Suc.prems(1) obtain k buf1 s1 where pop: "pop_random_snode s buf = Some (k, buf1, s1)"
      and rest: "fill_swarm j sid (s1, buf1, set_swarm sid (swarm_at m sid @ [k]) m) = Some (s', buf', m')"
      by (auto simp: bind_eq_Some_conv)
    have mem: "sid \<in> fst ` set (set_swarm sid (swarm_at m sid @ [k]) m)"
      using Suc.prems(3) by (metis set_map set_swarm_keys)
    have dist: "distinct (map fst (set_swarm sid (swarm_at m sid @ [k]) m))" using Suc.prems(2) by simp
    show ?thesis
      using Suc.IH [OF rest dist mem] push_swarm_nodes [OF Suc.prems(2,3), of k] pop_random_snode_mset [OF pop] by simp
  qed (use Suc.prems in simp)
qed simp

lemma fill_starving_nodes:
  assumes "fill_starving ids (s, buf, m) = Some (s', buf', m')" and "distinct (map fst m)" and "set ids \<subseteq> fst ` set m"
  shows "mset buf' + swarm_nodes m' = mset buf + swarm_nodes m \<and> map fst m' = map fst m \<and> length buf' \<le> length buf"
  using assms
proof (induction ids arbitrary: s buf m)
  case (Cons sid ids)
  then obtain s1 buf1 m1 where f: "fill_swarm (MIN_SWARM_SIZE - length (swarm_at m sid)) sid (s, buf, m) = Some (s1, buf1, m1)"
      and rest: "(if buf1 = [] then Some (s1, buf1, m1) else fill_starving ids (s1, buf1, m1)) = Some (s', buf', m')"
    by (auto simp: bind_eq_Some_conv)
  have one: "mset buf1 + swarm_nodes m1 = mset buf + swarm_nodes m \<and> map fst m1 = map fst m \<and> length buf1 \<le> length buf"
    using fill_swarm_nodes [OF f] Cons.prems(2,3) by simp
  then have keys: "fst ` set m1 = fst ` set m" by (metis set_map)
  show ?case
  proof (cases "buf1 = []")
    case False
    then have "fill_starving ids (s1, buf1, m1) = Some (s', buf', m')" using rest by simp
    moreover have "distinct (map fst m1)" "set ids \<subseteq> fst ` set m1" using one keys Cons.prems(2,3) by simp_all
    ultimately show ?thesis using Cons.IH [of s1 buf1 m1] one by simp
  qed (use rest one in simp)
qed simp

lemma fold_choice_in: "fold (\<lambda>sid best. if P sid best then sid else best) xs b \<in> insert b (set xs)"
  by (induction xs arbitrary: b) auto

lemma extreme_swarm_in:
  assumes "ids \<noteq> []"
  shows "largest_swarm m ids \<in> set ids" and "smallest_swarm m ids \<in> set ids"
  using assms fold_choice_in [of _ "tl ids" "hd ids"] unfolding largest_swarm_def smallest_swarm_def
  by (cases ids; auto)+

lemma keys_set: "map fst m' = map fst m \<Longrightarrow> fst ` set m' = fst ` set m"
  by (metis set_map)

lemma steal_nodes_nodes:
  assumes "steal_nodes j ids sid (s, m) = Some (c, s', m')" and "distinct (map fst m)" and "sid \<in> fst ` set m"
    and "ids \<noteq> []" and "set ids \<subseteq> fst ` set m"
  shows "swarm_nodes m' = swarm_nodes m \<and> map fst m' = map fst m"
  using assms
proof (induction j arbitrary: s m)
  case (Suc j)
  define large where "large = largest_swarm m ids"
  show ?case
  proof (cases "length (swarm_at m large) \<le> MIN_SWARM_SIZE")
    case False
    with Suc.prems(1) obtain k rest s1 where pop: "pop_random_snode s (swarm_at m large) = Some (k, rest, s1)"
      and step: "steal_nodes j ids sid (s1, set_swarm sid (swarm_at (set_swarm large rest m) sid @ [k]) (set_swarm large rest m)) = Some (c, s', m')"
      by (auto simp: bind_eq_Some_conv Let_def large_def)
    let ?m = "set_swarm large rest m"
    have large: "large \<in> fst ` set m" using extreme_swarm_in(1) [OF Suc.prems(4), of m] Suc.prems(5) by (auto simp: large_def)
    have dist: "distinct (map fst ?m)" using Suc.prems(2) by simp
    have keys: "fst ` set ?m = fst ` set m" by (rule keys_set) simp
    have keys2: "fst ` set (set_swarm sid (swarm_at ?m sid @ [k]) ?m) = fst ` set m"
      by (rule trans [OF keys_set keys]) simp
    have "swarm_nodes ?m + mset (swarm_at m large) = swarm_nodes m + mset rest"
      by (rule set_swarm_nodes [OF Suc.prems(2) large])
    then have "add_mset k (swarm_nodes ?m) = swarm_nodes m" using pop_random_snode_mset [OF pop] by simp
    moreover have "swarm_nodes (set_swarm sid (swarm_at ?m sid @ [k]) ?m) = add_mset k (swarm_nodes ?m)"
      using Suc.prems(3) keys by (intro push_swarm_nodes [OF dist]) simp
    ultimately show ?thesis
      using Suc.IH [OF step] dist keys2 Suc.prems(3,4,5) by simp
  qed (use Suc.prems in \<open>simp add: large_def\<close>)
qed simp

lemma steal_starving_nodes:
  assumes "steal_starving ids rest (s, m) = Some (s', m')" and "distinct (map fst m)"
    and "set rest \<subseteq> fst ` set m" and "set rest \<subseteq> set ids" and "set ids \<subseteq> fst ` set m"
  shows "swarm_nodes m' = swarm_nodes m \<and> map fst m' = map fst m"
  using assms
proof (induction rest arbitrary: s m)
  case (Cons sid rest)
  show ?case
  proof (cases "length (swarm_at m sid) = MIN_SWARM_SIZE")
    case True
    then show ?thesis using Cons.IH [of s m] Cons.prems by simp
  next
    case False
    with Cons.prems(1) obtain c s1 m1 where st: "steal_nodes (MIN_SWARM_SIZE - length (swarm_at m sid)) ids sid (s, m) = Some (c, s1, m1)"
        and rest: "(if c then steal_starving ids rest (s1, m1) else Some (s1, m1)) = Some (s', m')"
      by (auto simp: bind_eq_Some_conv)
    have ids: "ids \<noteq> []" using Cons.prems(4) by auto
    have mem: "sid \<in> fst ` set m" using Cons.prems(3) by simp
    note one = steal_nodes_nodes [OF st Cons.prems(2) mem ids Cons.prems(5)]
    have keys: "fst ` set m1 = fst ` set m" using one by (intro keys_set) simp
    show ?thesis
    proof (cases c)
      case True
      then have "steal_starving ids rest (s1, m1) = Some (s', m')" using rest by simp
      then show ?thesis using Cons.IH [of s1 m1] one keys Cons.prems by simp
    qed (use rest one in simp)
  qed
qed simp

lemma fill_smallest_nodes:
  assumes "fill_smallest n ids (s, buf, m) = Some (s', buf', m')" and "distinct (map fst m)" and "set ids \<subseteq> fst ` set m"
  shows "mset buf' + swarm_nodes m' = mset buf + swarm_nodes m \<and> map fst m' = map fst m \<and> length buf' \<le> length buf"
  using assms
proof (induction n arbitrary: s buf m)
  case (Suc n)
  define small where "small = smallest_swarm m ids"
  show ?case
  proof (cases "buf = [] \<or> ids = [] \<or> length (swarm_at m small) = MAX_SWARM_SIZE")
    case True
    then show ?thesis using Suc.prems(1) by (auto simp: small_def Let_def split: if_splits)
  next
    case False
    with Suc.prems(1) obtain k buf1 s1 where pop: "pop_random_snode s buf = Some (k, buf1, s1)"
      and rest: "fill_smallest n ids (s1, buf1, set_swarm small (swarm_at m small @ [k]) m) = Some (s', buf', m')"
      by (auto simp: bind_eq_Some_conv Let_def small_def)
    have small: "small \<in> fst ` set m" using extreme_swarm_in(2) [of ids m] False Suc.prems(3) by (auto simp: small_def)
    have sub: "set ids \<subseteq> fst ` set (set_swarm small (swarm_at m small @ [k]) m)"
      using Suc.prems(3) keys_set [OF set_swarm_keys] by simp
    have dist: "distinct (map fst (set_swarm small (swarm_at m small @ [k]) m))" using Suc.prems(2) by simp
    show ?thesis
      using Suc.IH [OF rest dist sub] push_swarm_nodes [OF Suc.prems(2) small, of k] pop_random_snode_mset [OF pop] by simp
  qed
qed simp

lemma exchange_nodes:
  assumes "i < length m" and "m ! i = (sid, nodes)" and "mset nodes = add_mset k (mset rest)"
  shows "add_mset k (swarm_nodes (m[i := (sid, rest @ [f])])) = add_mset f (swarm_nodes m)"
    and "map fst (m[i := (sid, rest @ [f])]) = map fst m"
proof -
  have m: "m = take i m @ m ! i # drop (Suc i) m" using assms(1) by (rule id_take_nth_drop)
  have upd: "m[i := e] = take i m @ e # drop (Suc i) m" for e using assms(1) by (rule upd_conv_take_nth_drop)
  have "swarm_nodes m = swarm_nodes (take i m) + (mset nodes + swarm_nodes (drop (Suc i) m))"
    by (subst m) (simp add: assms(2))
  then show "add_mset k (swarm_nodes (m[i := (sid, rest @ [f])])) = add_mset f (swarm_nodes m)"
    by (simp add: upd assms(3))
  show "map fst (m[i := (sid, rest @ [f])]) = map fst m"
    using assms(1,2) by (metis fst_conv list_update_id map_update)
qed

lemma select_snodes_nodes:
  assumes "select_snodes n (s, buf, m, sel) = Some (s', buf', m', sel')" and "n \<le> length buf"
  shows "mset buf' + swarm_nodes m' + mset sel' = mset buf + swarm_nodes m + mset sel \<and> map fst m' = map fst m
    \<and> length buf' = length buf - n"
  using assms
proof (induction n arbitrary: s buf m sel)
  case (Suc n)
  obtain bs f where buf: "buf = bs @ [f]" using Suc.prems(2) by (cases buf rule: rev_cases) auto
  show ?case
  proof (cases "length m > 0")
    case True
    with Suc.prems(1) buf obtain idx s1 where u: "uniform_distribution_portable s (word_of_nat (length m)) = Some (idx, s1)"
      by (auto simp: bind_eq_Some_conv Let_def)
    obtain sid nodes where nth: "m ! unat idx = (sid, nodes)" by fastforce
    from True Suc.prems(1) u nth obtain k rest s2 where pop: "pop_random_snode s1 nodes = Some (k, rest, s2)"
        and step: "select_snodes n (s2, bs, m[unat idx := (sid, rest @ [f])], sel @ [k]) = Some (s', buf', m', sel')"
      by (auto simp: bind_eq_Some_conv Let_def buf)
    have "unat idx < unat (word_of_nat (length m) :: u64)"
      using uniform_less [OF u] by (simp add: word_less_nat_alt)
    also have "\<dots> \<le> length m" by (simp only: unat_of_nat) simp
    finally have idx: "unat idx < length m" .
    note ex = exchange_nodes [OF idx nth pop_random_snode_mset [OF pop, THEN conjunct1]]
    show ?thesis using Suc.IH [OF step] ex(1) [of f] ex(2) Suc.prems(2) by (simp add: buf)
  next
    case False
    then show ?thesis using Suc.IH [of s bs m "sel @ [f]"] Suc.prems by (auto simp: buf Let_def)
  qed
qed simp

lemma insert_swarm_nodes:
  "swarm_nodes (insert_swarm sid v m) = (if sid \<in> fst ` set m then swarm_nodes m else mset v + swarm_nodes m)"
proof -
  have "swarm_nodes (insort_key fst e m) = mset (snd e) + swarm_nodes m" for e
    by (induction m) (simp_all add: ac_simps)
  then show ?thesis by (simp add: insert_swarm_def)
qed

lemma new_swarm_loop_fresh:
  assumes "new_swarm_loop s ids x = Some (y, s')"
  shows "y \<noteq> QUEUE_SWARM_ID \<and> y \<notin> set ids"
proof (rule new_swarm_loop.raw_induct [OF _ assms, of "\<lambda>s ids x r. fst r \<noteq> QUEUE_SWARM_ID \<and> fst r \<notin> set ids", simplified])
qed (auto simp: bind_eq_Some_conv split: if_splits)

lemma create_swarms_nodes:
  assumes "create_swarms n seed ids (s, buf, m) = Some (s', buf', m')" and "length buf < 2 ^ 64"
  shows "mset buf' + swarm_nodes m' \<subseteq># mset buf + swarm_nodes m
    \<and> (QUEUE_SWARM_ID \<notin> fst ` set m \<longrightarrow> QUEUE_SWARM_ID \<notin> fst ` set m')
    \<and> (length buf < 25 \<longrightarrow> fst ` set m \<subseteq> set ids \<longrightarrow> mset buf' + swarm_nodes m' = mset buf + swarm_nodes m)"
  using assms
proof (induction n arbitrary: s buf m)
  case (Suc n)
  show ?case
  proof (cases "length buf \<ge> MAX_SWARM_SIZE + SWARM_BUFFER")
    case True
    with Suc.prems(1) obtain nid s1 buf1 s2 buf2 m2 sel where nid: "get_new_swarm_id s ids = Some (nid, s1)"
        and sh: "antd_shuffle buf (seed + nid) = Some buf1"
        and sel: "select_snodes MAX_SWARM_SIZE (s1, buf1, m, []) = Some (s2, buf2, m2, sel)"
        and rest: "create_swarms n seed ids (s2, buf2, insert_swarm nid sel m2) = Some (s', buf', m')"
      by (auto simp: bind_eq_Some_conv)
    have b1: "mset buf1 = mset buf" "length buf1 = length buf"
      using antd_shuffle_mset [OF sh Suc.prems(2)] by (auto dest: mset_eq_length)
    have fresh: "nid \<noteq> QUEUE_SWARM_ID" "nid \<notin> set ids"
      using nid new_swarm_loop_fresh by (auto simp: get_new_swarm_id_def)
    have ten: "MAX_SWARM_SIZE \<le> length buf1" using True b1 by simp
    note one = select_snodes_nodes [OF sel ten]
    have k2: "fst ` set m2 = fst ` set m" using one by (intro keys_set) simp
    have keys: "fst ` set (insert_swarm nid sel m2) = insert nid (fst ` set m)"
      using k2 by (auto simp: insert_swarm_def set_insort_key)
    have len2: "length buf2 < 2 ^ 64" using one b1 Suc.prems(2) by simp
    note IH = Suc.IH [OF rest len2]
    have sub: "mset buf2 + swarm_nodes (insert_swarm nid sel m2) \<subseteq># mset buf + swarm_nodes m"
      using one b1 mset_subset_eq_add_left [of "mset buf2 + swarm_nodes m2" "mset sel"]
      by (simp add: insert_swarm_nodes ac_simps)
    have "length buf < 25 \<Longrightarrow> n = 0 \<or> \<not> length buf2 \<ge> MAX_SWARM_SIZE + SWARM_BUFFER"
      using one b1 by (auto simp: MAX_SWARM_SIZE_def SWARM_BUFFER_def)
    then have last: "length buf < 25 \<Longrightarrow> buf' = buf2 \<and> m' = insert_swarm nid sel m2"
      using rest by (cases n) auto
    have exact: "fst ` set m \<subseteq> set ids \<Longrightarrow> mset buf2 + swarm_nodes (insert_swarm nid sel m2) = mset buf + swarm_nodes m"
      using one b1 fresh k2 by (auto simp: insert_swarm_nodes ac_simps)
    show ?thesis
    proof (intro conjI impI)
      show "mset buf' + swarm_nodes m' \<subseteq># mset buf + swarm_nodes m"
        using IH sub by (blast intro: subset_mset.order_trans)
      show "QUEUE_SWARM_ID \<notin> fst ` set m'" if "QUEUE_SWARM_ID \<notin> fst ` set m"
        using IH that fresh(1) unfolding keys by simp
      show "mset buf' + swarm_nodes m' = mset buf + swarm_nodes m" if "length buf < 25" "fst ` set m \<subseteq> set ids"
        using last [OF that(1)] exact [OF that(2)] by simp
    qed
  qed (use Suc.prems in auto)
qed simp

lemma filter_queue_nodes:
  assumes "distinct (map fst m)"
  shows "mset (swarm_at m sid) + swarm_nodes (filter (\<lambda>(k, _). k \<noteq> sid) m) = swarm_nodes m"
  using assms
proof (induction m)
  case (Cons e m)
  obtain k v where e: "e = (k, v)" by fastforce
  show ?case
  proof (cases "k = sid")
    case True
    then have "filter (\<lambda>(k, _). k \<noteq> sid) m = m" using Cons.prems by (force simp: e filter_id_conv)
    then show ?thesis using True by (simp add: e swarm_at_def)
  next
    case False
    then have "swarm_at (e # m) sid = swarm_at m sid" by (simp add: e swarm_at_def)
    then show ?thesis using False Cons by (simp add: e ac_simps)
  qed
qed (simp add: swarm_at_def)

text \<open>
  C12. Reassigning swarms invents and duplicates no node: whenever the changes are computed, the nodes
  over all swarms with the queue are, counted with multiplicity, among those of the input. When the
  queue holds fewer than 25 nodes none is lost either. The bound cannot be dropped: the ids of new
  swarms are only compared with the swarms that existed before, and inserting a second new swarm with
  the same id drops its nodes.
\<close>

theorem calc_swarm_changes_nodes:
  assumes "calc_swarm_changes m seed = Some m'" and "distinct (map fst m)" and "length m < 2 ^ 64"
    and "size (swarm_nodes m) < 2 ^ 64"
  shows "swarm_nodes m' \<subseteq># swarm_nodes m
    \<and> (length (swarm_at m QUEUE_SWARM_ID) < 25 \<longrightarrow> swarm_nodes m' = swarm_nodes m)"
proof -
  define buf where "buf = swarm_at m QUEUE_SWARM_ID"
  define m0 where "m0 = filter (\<lambda>(sid, _). sid \<noteq> QUEUE_SWARM_ID) m"
  obtain ids s1 buf1 m1 s2 m2 s3 buf3 m3 s4 buf4 m4
    where ids: "antd_shuffle (sort (get_all_swarms m0)) seed = Some ids"
      and fs: "fill_starving (filter (\<lambda>sid. length (swarm_at m0 sid) < MIN_SWARM_SIZE) ids) (mt_seed seed, buf, m0) = Some (s1, buf1, m1)"
      and ss: "steal_starving ids (filter (\<lambda>sid. length (swarm_at m0 sid) < MIN_SWARM_SIZE) ids) (s1, m1) = Some (s2, m2)"
      and fm: "fill_smallest (length buf1) ids (s2, buf1, m2) = Some (s3, buf3, m3)"
      and cs: "create_swarms (length buf3) seed ids (s3, buf3, m3) = Some (s4, buf4, m4)"
      and m': "m' = insert_swarm QUEUE_SWARM_ID buf4 m4"
    using assms(1) by (auto simp: calc_swarm_changes_def bind_eq_Some_conv Let_def buf_def m0_def)
  have nodes0: "mset buf + swarm_nodes m0 = swarm_nodes m"
    unfolding buf_def m0_def by (rule filter_queue_nodes [OF assms(2)])
  have d0: "distinct (map fst m0)" using assms(2) by (simp add: m0_def distinct_map_filter)
  have "length (sort (get_all_swarms m0)) < 2 ^ 64"
    using assms(3) le_less_trans [OF length_filter_le] by (simp add: get_all_swarms_def m0_def)
  from antd_shuffle_mset [OF ids this] have "set ids = fst ` set m0"
    by (metis get_all_swarms_def mset_sort set_map set_mset_mset)
  then have sub: "set (filter P ids) \<subseteq> fst ` set m0" "set ids \<subseteq> fst ` set m0" for P by auto
  note one = fill_starving_nodes [OF fs d0 sub(1)]
  have k1: "fst ` set m1 = fst ` set m0" using one by (intro keys_set) simp
  have two: "swarm_nodes m2 = swarm_nodes m1 \<and> map fst m2 = map fst m1"
    using sub k1 one d0 by (intro steal_starving_nodes [OF ss]) auto
  have k2: "fst ` set m2 = fst ` set m0" using two k1 keys_set [of m2 m1] by simp
  have three: "mset buf3 + swarm_nodes m3 = mset buf1 + swarm_nodes m2 \<and> map fst m3 = map fst m2 \<and> length buf3 \<le> length buf1"
    using sub k2 one two d0 by (intro fill_smallest_nodes [OF fm]) auto
  have k3: "fst ` set m3 = fst ` set m0" using three k2 keys_set [of m3 m2] by simp
  have "length buf \<le> size (swarm_nodes m)" unfolding nodes0 [symmetric] by simp
  then have len3: "length buf3 < 2 ^ 64" and le3: "length buf3 \<le> length buf" using one three assms(4) by simp_all
  note four = create_swarms_nodes [OF cs len3]
  have q: "QUEUE_SWARM_ID \<notin> fst ` set m0" by (auto simp: m0_def)
  then have "QUEUE_SWARM_ID \<notin> fst ` set m4" using four k3 by simp
  then have e: "swarm_nodes m' = mset buf4 + swarm_nodes m4" by (simp add: m' insert_swarm_nodes)
  have i: "mset buf3 + swarm_nodes m3 = swarm_nodes m" using one two three nodes0 by simp
  show ?thesis
  proof (intro conjI impI)
    show "swarm_nodes m' \<subseteq># swarm_nodes m" using four unfolding e i [symmetric] by (rule conjunct1)
    assume "length (swarm_at m QUEUE_SWARM_ID) < 25"
    then have "length buf3 < 25" using le3 by (simp add: buf_def)
    then show "swarm_nodes m' = swarm_nodes m"
      using four k3 \<open>set ids = fst ` set m0\<close> unfolding e i [symmetric] by simp
  qed
qed

theorem calc_swarm_changes_nodes_witness:
  "\<exists>m'. calc_swarm_changes [(QUEUE_SWARM_ID, [[1], [2]]), (7, replicate 10 [3])] 1 = Some m'
     \<and> swarm_nodes m' = mset ([[1], [2]] @ replicate 10 [3])"
proof -
  let ?m = "[(QUEUE_SWARM_ID, [[1], [2]]), (7, replicate 10 [3])] :: swarms"
  have "calc_swarm_changes ?m 1 = Some ?m"
    by (simp add: calc_swarm_changes_def QUEUE_SWARM_ID_def swarm_at_def antd_shuffle_def get_all_swarms_def
        MIN_SWARM_SIZE_def MAX_SWARM_SIZE_def SWARM_BUFFER_def smallest_swarm_def insert_swarm_def)
  from calc_swarm_changes_nodes [OF this] show ?thesis
    using \<open>calc_swarm_changes ?m 1 = Some ?m\<close> by (simp add: QUEUE_SWARM_ID_def swarm_nodes_def)
qed

end
