(* ===== verification/FullNodeList.thy ===== *)
theory FullNodeList
  imports Swarm "HOL-Library.AList" "HOL-Library.List_Lexorder" "HOL-Library.Product_Lexorder"
begin

text \<open>
  The full node list, \<^verbatim>\<open>src/cryptonote_core/full_node_list.cpp\<close>: the state kept per block and the
  operations that process registrations, contributions, deregistrations and unlock requests, expire
  nodes, build quorums, select the winner, and roll back when the chain is detached.

  The \<open>std::unordered_map\<close> of nodes is an association list in its iteration order; the position of a
  new entry is unspecified in C++ and at the end here. The \<open>std::map\<close> of quorums is an association list
  ordered by height. Log messages, the mutex and the node's own key, which only the messages use, are
  left out. A value of \<^const>\<open>None\<close> is an exception or a draw that never returns.
\<close>

section \<open>State\<close>

definition QUORUM_SIZE :: nat where "QUORUM_SIZE = 5"
definition NTH_OF_THE_NETWORK_TO_TEST :: nat where "NTH_OF_THE_NETWORK_TO_TEST = 100"
definition MIN_NODES_TO_TEST :: nat where "MIN_NODES_TO_TEST = 50"
definition QUORUM_LIFETIME :: u64 where "QUORUM_LIFETIME = 6 * BLOCKS_EXPECTED_IN_HOURS 2"
definition STAKING_REQUIREMENT_LOCK_BLOCKS_EXCESS :: u64 where "STAKING_REQUIREMENT_LOCK_BLOCKS_EXCESS = 20"
definition ROLLBACK_EVENT_EXPIRATION_BLOCKS :: u64 where "ROLLBACK_EVENT_EXPIRATION_BLOCKS = 30"
definition null_hash :: crypto_hash where "null_hash = replicate 32 0"

record quorum_state =
  quorum_nodes :: "public_key list"
  nodes_to_test :: "public_key list"

datatype rollback_event =
    rollback_change u64 public_key full_node_info
  | rollback_new u64 public_key
  | prevent_rollback u64
  | rollback_key_image_blacklist u64 key_image_blacklist_entry bool
  | rollback_key_image_unlock u64 public_key

fun m_block_height :: "rollback_event \<Rightarrow> u64" where
  "m_block_height (rollback_change h _ _) = h"
| "m_block_height (rollback_new h _) = h"
| "m_block_height (prevent_rollback h) = h"
| "m_block_height (rollback_key_image_blacklist h _ _) = h"
| "m_block_height (rollback_key_image_unlock h _) = h"

type_synonym node_map = "(public_key \<times> full_node_info) list"

record transient_state =
  full_nodes_infos :: node_map
  key_image_blacklist :: "key_image_blacklist_entry list"
  quorum_states :: "(u64 \<times> quorum_state) list"
  rollback_events :: "rollback_event list"
  state_height :: u64

text \<open>\<open>operator[]\<close> of the ordered map.\<close>

fun set_quorum :: "u64 \<Rightarrow> quorum_state \<Rightarrow> (u64 \<times> quorum_state) list \<Rightarrow> (u64 \<times> quorum_state) list" where
  "set_quorum h q [] = [(h, q)]"
| "set_quorum h q ((k, r) # qs) =
     (if h < k then (h, q) # (k, r) # qs else if h = k then (h, q) # qs else (k, r) # set_quorum h q qs)"

definition push_event :: "rollback_event \<Rightarrow> transient_state \<Rightarrow> transient_state" where
  "push_event e st = st\<lparr>rollback_events := rollback_events st @ [e]\<rparr>"

definition put_node :: "public_key \<Rightarrow> full_node_info \<Rightarrow> transient_state \<Rightarrow> transient_state" where
  "put_node key info st = st\<lparr>full_nodes_infos := AList.update key info (full_nodes_infos st)\<rparr>"

definition erase_node :: "public_key \<Rightarrow> transient_state \<Rightarrow> transient_state" where
  "erase_node key st = st\<lparr>full_nodes_infos := AList.delete key (full_nodes_infos st)\<rparr>"

abbreviation find_node :: "transient_state \<Rightarrow> public_key \<Rightarrow> full_node_info option" where
  "find_node st key \<equiv> map_of (full_nodes_infos st) key"

section \<open>Queries\<close>

definition get_full_nodes_pubkeys :: "transient_state \<Rightarrow> public_key list" where
  "get_full_nodes_pubkeys st = sort (map fst (filter (\<lambda>(_, info). is_fully_funded info) (full_nodes_infos st)))"

definition get_quorum_state :: "transient_state \<Rightarrow> u64 \<Rightarrow> quorum_state option" where
  "get_quorum_state st height = map_of (quorum_states st) height"

definition get_full_node_list_state :: "transient_state \<Rightarrow> public_key list \<Rightarrow> (public_key \<times> full_node_info) list" where
  "get_full_node_list_state st pubkeys =
     (if pubkeys = [] then full_nodes_infos st
      else List.map_filter (\<lambda>key. map_option (\<lambda>info. (key, info)) (find_node st key)) pubkeys)"

definition is_full_node :: "transient_state \<Rightarrow> public_key \<Rightarrow> bool" where
  "is_full_node st pubkey \<longleftrightarrow> find_node st pubkey \<noteq> None"

text \<open>The first contribution that locks the image, with the unlock height its node requested.\<close>

definition is_key_image_locked :: "transient_state \<Rightarrow> key_image \<Rightarrow> (u64 \<times> contribution_t) option" where
  "is_key_image_locked st check_image =
     (case [(requested_unlock_height info, c). (_, info) \<leftarrow> full_nodes_infos st,
            contributor \<leftarrow> contributors info, c \<leftarrow> locked_contributions contributor, ct_key_image c = check_image] of
        [] \<Rightarrow> None
      | found # _ \<Rightarrow> Some found)"

text \<open>The vector has an entry per node; without the filled ones the rest stays zero.\<close>

definition get_all_full_nodes_public_keys :: "transient_state \<Rightarrow> bool \<Rightarrow> public_key list" where
  "get_all_full_nodes_public_keys st fully_funded_nodes_only =
     (let keys = map fst (if fully_funded_nodes_only then filter (\<lambda>(_, info). is_fully_funded info) (full_nodes_infos st)
                          else full_nodes_infos st)
      in keys @ replicate (length (full_nodes_infos st) - length keys) null_pkey)"

section \<open>Deregistrations\<close>

text \<open>Blacklisting the key images of a node, each with its rollback event.\<close>

definition blacklist_key_images :: "network_type \<Rightarrow> u64 \<Rightarrow> full_node_info \<Rightarrow> transient_state \<Rightarrow> transient_state" where
  "blacklist_key_images net block_height info st =
     fold (\<lambda>c st.
         let entry = \<lparr>be_version = 2, be_key_image = ct_key_image c,
                      be_unlock_height = block_height + staking_num_lock_blocks net\<rparr>
         in push_event (rollback_key_image_blacklist block_height entry True)
              (st\<lparr>key_image_blacklist := key_image_blacklist st @ [entry]\<rparr>))
       (concat (map locked_contributions (contributors info))) st"

text \<open>The node a deregistration names, with its key; \<^const>\<open>None\<close> where the code returns \<open>false\<close>.\<close>

definition find_deregistered_node :: "transaction \<Rightarrow> transient_state \<Rightarrow> (public_key \<times> full_node_info) option" where
  "find_deregistered_node tx st =
     (if get_type tx \<noteq> type_deregister then None
      else do {
        deregister \<leftarrow> get_full_node_deregister_from_tx_extra (extra tx);
        state \<leftarrow> get_quorum_state st (dereg_block_height deregister);
        if unat (dereg_full_node_index deregister) \<ge> length (nodes_to_test state) then None
        else do {
          let key = nodes_to_test state ! unat (dereg_full_node_index deregister);
          info \<leftarrow> find_node st key;
          Some (key, info) } })"

definition process_deregistration_tx :: "chain_view \<Rightarrow> transaction \<Rightarrow> u64 \<Rightarrow> transient_state \<Rightarrow> bool \<times> transient_state" where
  "process_deregistration_tx chain tx block_height st =
     (case find_deregistered_node tx st of
        None \<Rightarrow> (False, st)
      | Some (key, info) \<Rightarrow>
          let st = push_event (rollback_change block_height key info) st;
              st = (if hard_fork_version chain block_height \<ge> network_version_11_infinite_staking
                    then blacklist_key_images (nettype chain) block_height info st else st)
          in (True, erase_node key st))"

section \<open>Registrations and contributions\<close>

definition process_registration_tx :: "staking_crypto \<Rightarrow> chain_view \<Rightarrow> transaction \<Rightarrow> u64 \<Rightarrow> u64 \<Rightarrow> u32 \<Rightarrow>
    transient_state \<Rightarrow> bool \<times> transient_state" where
  "process_registration_tx env chain tx block_timestamp block_height index st =
     (case is_registration_tx env chain tx block_timestamp block_height index empty_info of
        None \<Rightarrow> (False, st)
      | Some (key, info) \<Rightarrow>
          let hf = hard_fork_version chain block_height;
              done = (\<lambda>info. (True, put_node key info (push_event (rollback_new block_height key) st)))
          in (case find_node st key of
               None \<Rightarrow> done info
             | Some old_info \<Rightarrow>
                 if hf \<ge> network_version_11_infinite_staking then (False, st)
                 else if hf \<ge> network_version_10_bulletproofs
                 then (if block_height < registration_height old_info + staking_num_lock_blocks (nettype chain)
                       then (False, st)
                       else done (info\<lparr>last_reward_block_height := last_reward_block_height old_info,
                              last_reward_transaction_index := last_reward_transaction_index old_info\<rparr>))
                 else (False, st)))"

definition set_contributor :: "nat \<Rightarrow> contributor_t \<Rightarrow> full_node_info \<Rightarrow> full_node_info" where
  "set_contributor n c info = info\<lparr>contributors := (contributors info)[n := c]\<rparr>"

fun add_locked :: "nat \<Rightarrow> contribution_t list \<Rightarrow> full_node_info \<Rightarrow> full_node_info" where
  "add_locked n [] info = info"
| "add_locked n (contribution # rest) info =
     (if total_num_locked_contributions info < MAX_KEY_IMAGES_PER_CONTRIBUTOR * MAX_NUMBER_OF_CONTRIBUTORS
      then let c = contributors info ! n
           in add_locked n rest (set_contributor n (c\<lparr>locked_contributions := locked_contributions c @ [contribution]\<rparr>) info)
      else info)"

text \<open>The changes of an accepted contribution to the node; \<open>n\<close> is the index of the contributor.\<close>

definition apply_contribution :: "u8 \<Rightarrow> u64 \<Rightarrow> u32 \<Rightarrow> parsed_tx_contribution \<Rightarrow> nat \<Rightarrow> full_node_info \<Rightarrow> full_node_info" where
  "apply_contribution hf_version block_height index parsed n info =
     (let c = contributors info ! n;
          can_increase_reserved_by = staking_requirement info - total_reserved info;
          max_amount = cr_reserved c + can_increase_reserved_by;
          amt = min (max_amount - cr_amount c) (transferred parsed);
          c = c\<lparr>cr_amount := cr_amount c + amt\<rparr>;
          info = info\<lparr>total_contributed := total_contributed info + amt\<rparr>;
          (c, info) = (if cr_amount c > cr_reserved c
             then (c\<lparr>cr_reserved := cr_amount c\<rparr>,
                   info\<lparr>total_reserved := total_reserved info + (cr_amount c - cr_reserved c)\<rparr>)
             else (c, info));
          info = set_contributor n c (info\<lparr>last_reward_block_height := block_height, last_reward_transaction_index := index\<rparr>)
      in if hf_version \<ge> network_version_11_infinite_staking
         then add_locked n (pc_locked_contributions parsed) info else info)"

fun find_contributor :: "account_public_address \<Rightarrow> contributor_t list \<Rightarrow> nat option" where
  "find_contributor address [] = None"
| "find_contributor address (c # cs) =
     (if cr_address c = address then Some 0 else map_option Suc (find_contributor address cs))"

definition process_contribution_tx :: "staking_crypto \<Rightarrow> chain_view \<Rightarrow> transaction \<Rightarrow> u64 \<Rightarrow> u32 \<Rightarrow>
    transient_state \<Rightarrow> transient_state" where
  "process_contribution_tx env chain tx block_height index st =
     (let hf_version = hard_fork_version chain block_height
      in case get_full_node_pubkey_from_tx_extra (extra tx) of
        None \<Rightarrow> st
      | Some pubkey \<Rightarrow>
      (case get_contribution env (nettype chain) hf_version tx block_height of
        None \<Rightarrow> st
      | Some parsed \<Rightarrow>
      (case find_node st pubkey of
        None \<Rightarrow> st
      | Some info \<Rightarrow>
          if is_fully_funded info then st
          else (case get_tx_secret_key_from_tx_extra (extra tx) of
            None \<Rightarrow> st
          | Some tx_key \<Rightarrow>
              let accept = (\<lambda>n new_info. put_node pubkey (apply_contribution hf_version block_height index parsed n new_info)
                    (push_event (rollback_change block_height pubkey info) st))
              in (case find_contributor (pc_address parsed) (contributors info) of
                   Some n \<Rightarrow> accept n info
                 | None \<Rightarrow>
                     if length (contributors info) \<ge> unat MAX_NUMBER_OF_CONTRIBUTORS then st
                     else if transferred parsed < get_min_node_contribution hf_version (staking_requirement info)
                          (total_reserved info) (total_num_locked_contributions info) then st
                     else accept (length (contributors info))
                       (info\<lparr>contributors := contributors info
                          @ [new_contributor (get_min_full_node_info_version_for_hf hf_version) (pc_address parsed)]\<rparr>))))))"

section \<open>Expiry, unlocking and swarms\<close>

fun registered_keys :: "staking_crypto \<Rightarrow> chain_view \<Rightarrow> u64 \<Rightarrow> u64 \<Rightarrow> u32 \<Rightarrow> transaction list \<Rightarrow> public_key list" where
  "registered_keys env chain ts h index [] = []"
| "registered_keys env chain ts h index (tx # txs) =
     (case is_registration_tx env chain tx ts h index empty_info of
        None \<Rightarrow> registered_keys env chain ts h (index + 1) txs
      | Some (key, _) \<Rightarrow> key # registered_keys env chain ts h (index + 1) txs)"

definition node_expired :: "chain_view \<Rightarrow> u64 \<Rightarrow> full_node_info \<Rightarrow> bool" where
  "node_expired chain block_height info =
     (if hard_fork_version chain (registration_height info) \<ge> network_version_11_infinite_staking
      then requested_unlock_height info \<noteq> KEY_IMAGE_AWAITING_UNLOCK_HEIGHT \<and> block_height > requested_unlock_height info
      else block_height > registration_height info + staking_num_lock_blocks (nettype chain)
             + STAKING_REQUIREMENT_LOCK_BLOCKS_EXCESS)"

definition update_and_get_expired_nodes :: "staking_crypto \<Rightarrow> chain_view \<Rightarrow> u64 \<Rightarrow> transient_state \<Rightarrow> public_key list" where
  "update_and_get_expired_nodes env chain block_height st =
     (let lock_blocks = staking_num_lock_blocks (nettype chain)
      in if hard_fork_version chain block_height = network_version_9_full_nodes
         then if block_height < lock_blocks then []
              else let h = block_height - lock_blocks
                   in (case block_at chain h of
                         None \<Rightarrow> []
                       | Some b \<Rightarrow> (case get_transactions chain (tx_hashes b) of
                           None \<Rightarrow> []
                         | Some txs \<Rightarrow> registered_keys env chain (timestamp b) h 0 txs))
         else map fst (filter (\<lambda>(_, info). node_expired chain block_height info) (full_nodes_infos st)))"

text \<open>The loop that expires nodes, with the number of nodes expired.\<close>

definition expire_node :: "u64 \<Rightarrow> public_key \<Rightarrow> nat \<times> transient_state \<Rightarrow> nat \<times> transient_state" where
  "expire_node block_height key = (\<lambda>(expired_count, st).
     case find_node st key of
       None \<Rightarrow> (expired_count, st)
     | Some info \<Rightarrow> (Suc expired_count, erase_node key (push_event (rollback_change block_height key info) st)))"

definition process_key_image_unlock_tx :: "staking_crypto \<Rightarrow> chain_view \<Rightarrow> transaction \<Rightarrow> u64 \<Rightarrow> transient_state \<Rightarrow> transient_state" where
  "process_key_image_unlock_tx env chain tx block_height st =
     (case do {
        key \<leftarrow> get_full_node_pubkey_from_tx_extra (extra tx);
        info \<leftarrow> find_node st key;
        if requested_unlock_height info \<noteq> KEY_IMAGE_AWAITING_UNLOCK_HEIGHT then None
        else do {
          unlock \<leftarrow> get_tx_key_image_unlock_from_tx_extra (extra tx);
          locked \<leftarrow> find (\<lambda>c. unlock_key_image unlock = ct_key_image c)
            (concat (map locked_contributions (contributors info)));
          if check_signature env (generate_request_stake_unlock_hash (unlock_nonce unlock))
               (ct_key_image_pub_key locked) (unlock_signature unlock)
          then Some (key, info\<lparr>requested_unlock_height :=
            get_locked_key_image_unlock_height (nettype chain) (registration_height info) block_height\<rparr>)
          else None } } of
        None \<Rightarrow> st
      | Some (key, info) \<Rightarrow> put_node key info (push_event (rollback_key_image_unlock block_height key) st))"

text \<open>The first eight bytes of a hash as a little-endian word.\<close>

definition hash_seed :: "crypto_hash \<Rightarrow> u64" where
  "hash_seed hash = word_of_nat (le_val (take 8 hash))"

definition push_swarm :: "u64 \<Rightarrow> public_key \<Rightarrow> swarms \<Rightarrow> swarms" where
  "push_swarm sid key m =
     (if sid \<in> fst ` set m then set_swarm sid (swarm_at m sid @ [key]) m else insert_swarm sid [key] m)"

definition existing_swarms :: "node_map \<Rightarrow> swarms" where
  "existing_swarms infos = fold (\<lambda>(key, info) m. push_swarm (swarm_id info) key m) infos []"

text \<open>Moving a node to a swarm; \<open>at\<close> throws for an unknown node.\<close>

definition move_to_swarm :: "u64 \<Rightarrow> u64 \<times> public_key \<Rightarrow> transient_state \<Rightarrow> transient_state option" where
  "move_to_swarm height = (\<lambda>(sid, snode) st. do {
     info \<leftarrow> find_node st snode;
     if swarm_id info = sid then Some st
     else Some (put_node snode (info\<lparr>swarm_id := sid\<rparr>) (push_event (rollback_change height snode info) st)) })"

fun move_all :: "u64 \<Rightarrow> (u64 \<times> public_key) list \<Rightarrow> transient_state \<Rightarrow> transient_state option" where
  "move_all height [] st = Some st"
| "move_all height (m # ms) st = do { st \<leftarrow> move_to_swarm height m st; move_all height ms st }"

definition update_swarms :: "chain_view \<Rightarrow> u64 \<Rightarrow> transient_state \<Rightarrow> transient_state option" where
  "update_swarms chain height st = do {
     m \<leftarrow> calc_swarm_changes (existing_swarms (full_nodes_infos st)) (hash_seed (block_id_by_height chain height));
     move_all height [(sid, snode). (sid, snodes) \<leftarrow> m, snode \<leftarrow> snodes] st
   }"

section \<open>Quorums\<close>

definition store_quorum_state_from_rewards_list :: "chain_view \<Rightarrow> u64 \<Rightarrow> transient_state \<Rightarrow> transient_state option" where
  "store_quorum_state_from_rewards_list chain height st =
     (let block_hash = block_id_by_height chain height
      in if block_hash = null_hash then Some st
         else do {
           let nodes = get_full_nodes_pubkeys st;
           indexes \<leftarrow> antd_shuffle [0..<length nodes] (hash_seed block_hash);
           let quorum_size = min (length nodes) QUORUM_SIZE;
           let quorum = map (\<lambda>i. nodes ! (indexes ! i)) [0..<quorum_size];
           let num_remaining_nodes = length indexes - quorum_size;
           let num_nodes_to_test = max (num_remaining_nodes div NTH_OF_THE_NETWORK_TO_TEST)
                 (min MIN_NODES_TO_TEST num_remaining_nodes);
           let to_test = map (\<lambda>i. nodes ! (indexes ! (quorum_size + i))) [0..<num_nodes_to_test];
           Some (st\<lparr>quorum_states := set_quorum height \<lparr>quorum_nodes = quorum, nodes_to_test = to_test\<rparr> (quorum_states st)\<rparr>)
         })"

section \<open>Blocks\<close>

definition cull_rollback_events :: "u64 \<Rightarrow> transient_state \<Rightarrow> transient_state" where
  "cull_rollback_events block_height st =
     (let cull_height = (if block_height < ROLLBACK_EVENT_EXPIRATION_BLOCKS then block_height
                         else block_height - ROLLBACK_EVENT_EXPIRATION_BLOCKS)
      in st\<lparr>rollback_events := prevent_rollback cull_height
           # dropWhile (\<lambda>e. m_block_height e < cull_height) (rollback_events st)\<rparr>)"

text \<open>The loop over the blacklist: an expired entry leaves it and gets a rollback event.\<close>

fun expire_blacklist :: "u64 \<Rightarrow> key_image_blacklist_entry list \<Rightarrow> key_image_blacklist_entry list \<times> rollback_event list" where
  "expire_blacklist block_height [] = ([], [])"
| "expire_blacklist block_height (entry # rest) =
     (let (kept, events) = expire_blacklist block_height rest
      in if block_height \<ge> be_unlock_height entry
         then (kept, rollback_key_image_blacklist block_height entry False # events)
         else (entry # kept, events))"

definition remove_expired_key_images :: "u64 \<Rightarrow> transient_state \<Rightarrow> transient_state" where
  "remove_expired_key_images block_height st =
     (let (kept, events) = expire_blacklist block_height (key_image_blacklist st)
      in st\<lparr>key_image_blacklist := kept, rollback_events := rollback_events st @ events\<rparr>)"

definition advance_winner :: "u64 \<Rightarrow> public_key \<Rightarrow> transient_state \<Rightarrow> transient_state" where
  "advance_winner block_height winner st =
     (case find_node st winner of
        None \<Rightarrow> st
      | Some info \<Rightarrow> put_node winner (info\<lparr>last_reward_block_height := block_height,
            last_reward_transaction_index := UINT32_MAX\<rparr>)
          (push_event (rollback_change block_height winner info) st))"

text \<open>The transactions of a block from an index on, counting registrations and deregistrations.\<close>

fun process_txs :: "staking_crypto \<Rightarrow> chain_view \<Rightarrow> u64 \<Rightarrow> u64 \<Rightarrow> u32 \<Rightarrow> transaction list \<Rightarrow>
    nat \<times> nat \<times> transient_state \<Rightarrow> nat \<times> nat \<times> transient_state" where
  "process_txs env chain ts h index [] acc = acc"
| "process_txs env chain ts h index (tx # txs) (registrations, deregistrations, st) =
     process_txs env chain ts h (index + 1) txs
       (case get_type tx of
          type_standard \<Rightarrow>
            let (registered, st) = process_registration_tx env chain tx ts h index st
            in (if registered then Suc registrations else registrations, deregistrations,
                process_contribution_tx env chain tx h index st)
        | type_deregister \<Rightarrow>
            let (deregistered, st) = process_deregistration_tx chain tx h st
            in (registrations, if deregistered then Suc deregistrations else deregistrations, st)
        | type_key_image_unlock \<Rightarrow> (registrations, deregistrations, process_key_image_unlock_tx env chain tx h st)
        | type_count \<Rightarrow> (registrations, deregistrations, st))"

definition block_added_generic :: "staking_crypto \<Rightarrow> chain_view \<Rightarrow> block \<Rightarrow> transaction list \<Rightarrow> transient_state \<Rightarrow> transient_state option" where
  "block_added_generic env chain b txs st =
     (let block_height = get_block_height b
      in if hard_fork_version chain block_height < 9 then Some st
         else do {
           let st = st\<lparr>state_height := state_height st + 1\<rparr>;
           let st = cull_rollback_events block_height st;
           let st = remove_expired_key_images block_height st;
           let (expired_count, st) = fold (expire_node block_height)
             (update_and_get_expired_nodes env chain block_height st) (0, st);
           let st = advance_winner block_height (get_full_node_winner_from_tx_extra (extra (miner_tx b))) st;
           let (registrations, deregistrations, st) =
             process_txs env chain (timestamp b) block_height 0 txs (0, 0, st);
           st \<leftarrow> (if registrations \<noteq> 0 \<or> deregistrations \<noteq> 0 \<or> expired_count \<noteq> 0
                 then update_swarms chain block_height st else Some st);
           st \<leftarrow> store_quorum_state_from_rewards_list chain block_height st;
           let cache_state_from_height = (if block_height < QUORUM_LIFETIME then 0 else block_height - QUORUM_LIFETIME);
           Some (st\<lparr>quorum_states := dropWhile (\<lambda>(h, _). h < cache_state_from_height) (quorum_states st)\<rparr>)
         })"

section \<open>Starting and rolling back\<close>

definition clear :: "chain_view \<Rightarrow> transient_state" where
  "clear chain = \<lparr>full_nodes_infos = [], key_image_blacklist = [], quorum_states = [], rollback_events = [],
     state_height = hardfork_9_from_height chain\<rparr>"

text \<open>
  \<open>get_blocks(start, 1000)\<close>: the blocks from \<open>start\<close> up to the chain height; then their transactions are
  processed block by block. A flag that is \<^const>\<open>False\<close> is the early return on an error.
\<close>

definition get_blocks :: "chain_view \<Rightarrow> u64 \<Rightarrow> nat \<Rightarrow> block list option" where
  "get_blocks chain start n =
     (if start \<ge> current_height chain then None
      else those (map (\<lambda>i. block_at chain (word_of_nat i)) [unat start..<min (unat start + n) (unat (current_height chain))]))"

fun scan_blocks :: "staking_crypto \<Rightarrow> chain_view \<Rightarrow> block list \<Rightarrow> transient_state \<Rightarrow> (bool \<times> transient_state) option" where
  "scan_blocks env chain [] st = Some (True, st)"
| "scan_blocks env chain (b # bs) st =
     (case get_transactions chain (tx_hashes b) of
        None \<Rightarrow> Some (False, st)
      | Some txs \<Rightarrow> do { st \<leftarrow> block_added_generic env chain b txs st; scan_blocks env chain bs st })"

partial_function (option) scan_chain :: "staking_crypto \<Rightarrow> chain_view \<Rightarrow> transient_state \<Rightarrow> transient_state option" where
  "scan_chain env chain st =
     (if state_height st < current_height chain
      then case get_blocks chain (state_height st) 1000 of
             None \<Rightarrow> Some st
           | Some bs \<Rightarrow> do { (ok, st) \<leftarrow> scan_blocks env chain bs st; if ok then scan_chain env chain st else Some st }
      else Some st)"

text \<open>\<open>stored\<close> is the state that \<open>load\<close> reads from the database, if there is one.\<close>

definition init :: "staking_crypto \<Rightarrow> chain_view \<Rightarrow> transient_state option \<Rightarrow> transient_state option" where
  "init env chain stored =
     (if hard_fork_version chain (current_height chain) < 9 then Some (clear chain)
      else case stored of
        None \<Rightarrow> scan_chain env chain (clear chain)
      | Some st \<Rightarrow>
          if state_height st = current_height chain then Some st
          else if state_height st > current_height chain then scan_chain env chain (clear chain)
          else scan_chain env chain st)"

text \<open>Undoing one event; \<^const>\<open>None\<close> is \<open>rollback_applied = false\<close>.\<close>

fun remove_first :: "('a \<Rightarrow> bool) \<Rightarrow> 'a list \<Rightarrow> 'a list option" where
  "remove_first P [] = None"
| "remove_first P (x # xs) = (if P x then Some xs else map_option ((#) x) (remove_first P xs))"

fun undo_event :: "rollback_event \<Rightarrow> transient_state \<Rightarrow> transient_state option" where
  "undo_event (rollback_change _ key info) st = Some (put_node key info st)"
| "undo_event (rollback_new _ key) st =
     (if find_node st key = None then None else Some (erase_node key st))"
| "undo_event (prevent_rollback _) st = None"
| "undo_event (rollback_key_image_blacklist _ entry was_adding) st =
     (if was_adding
      then map_option (\<lambda>l. st\<lparr>key_image_blacklist := l\<rparr>)
        (remove_first (\<lambda>a. be_unlock_height entry = be_unlock_height a \<and> be_key_image entry = be_key_image a)
          (key_image_blacklist st))
      else Some (st\<lparr>key_image_blacklist := key_image_blacklist st @ [entry]\<rparr>))"
| "undo_event (rollback_key_image_unlock _ key) st =
     map_option (\<lambda>info. put_node key (info\<lparr>requested_unlock_height := KEY_IMAGE_AWAITING_UNLOCK_HEIGHT\<rparr>) st) (find_node st key)"

text \<open>
  The loop of \<open>blockchain_detached\<close> over the events from the last one backwards; the flag is
  \<^const>\<open>False\<close> when an event could not be undone.
\<close>

fun undo_events :: "u64 \<Rightarrow> rollback_event list \<Rightarrow> transient_state \<Rightarrow> bool \<times> transient_state" where
  "undo_events height [] st = (True, st\<lparr>rollback_events := []\<rparr>)"
| "undo_events height (e # es) st =
     (if m_block_height e \<ge> height
      then (case undo_event e st of
              None \<Rightarrow> (False, st\<lparr>rollback_events := rev (e # es)\<rparr>)
            | Some st \<Rightarrow> undo_events height es st)
      else (True, st\<lparr>rollback_events := rev (e # es)\<rparr>))"

definition blockchain_detached :: "staking_crypto \<Rightarrow> chain_view \<Rightarrow> transient_state option \<Rightarrow> u64 \<Rightarrow> transient_state \<Rightarrow> transient_state option" where
  "blockchain_detached env chain stored height st = do {
     let (applied, st) = undo_events height (rev (rollback_events st)) st;
     st \<leftarrow> (if applied then Some st else init env chain stored);
     Some (st\<lparr>quorum_states := rev (dropWhile (\<lambda>(h, _). h \<ge> height) (rev (quorum_states st))), state_height := height\<rparr>)
   }"

section \<open>Winners\<close>

definition waiting_since :: "full_node_info \<Rightarrow> u64 \<times> u32" where
  "waiting_since info = (last_reward_block_height info, last_reward_transaction_index info)"

text \<open>Pairs are compared lexicographically, as by \<open>std::pair\<close>.\<close>

definition select_winner :: "transient_state \<Rightarrow> public_key" where
  "select_winner st =
     snd (fold (\<lambda>(key, info) (oldest_waiting, winner).
         if is_fully_funded info \<and> waiting_since info < oldest_waiting
         then (waiting_since info, key) else (oldest_waiting, winner))
       (full_nodes_infos st) ((UINT64_MAX, UINT32_MAX), null_pkey))"

definition winner_portion :: "full_node_info \<Rightarrow> contributor_t \<Rightarrow> u64" where
  "winner_portion info c =
     (let remaining_portions = STAKING_PORTIONS - portions_for_operator info;
          (lo, hi) = mul128 (cr_amount c) remaining_portions;
          (_, resulthi, resultlo) = div128_64 hi lo (staking_requirement info)
      in if cr_address c = operator_address info then resultlo + portions_for_operator info else resultlo)"

text \<open>\<open>at\<close> does not throw here: the selected key is the null key or that of a node.\<close>

definition get_winner_addresses_and_portions :: "transient_state \<Rightarrow> winner_info option" where
  "get_winner_addresses_and_portions st =
     (let key = select_winner st
      in if key = null_pkey then Some null_winner
         else map_option (\<lambda>info. map (\<lambda>c. (cr_address c, winner_portion info c)) (contributors info)) (find_node st key))"

text \<open>The checks of the winner's outputs from index \<open>i\<close> on.\<close>

fun check_winner_outputs :: "crypto_env \<Rightarrow> secret_key \<Rightarrow> u64 \<Rightarrow> tx_out list \<Rightarrow> nat \<Rightarrow> winner_info \<Rightarrow> bool" where
  "check_winner_outputs env sec tot outs i [] = True"
| "check_winner_outputs env sec tot outs i ((address, portions) # rest) =
     (let out = outs ! (i + 1)
      in if amount out \<noteq> get_portion_of_reward portions tot then False
         else case target out of
           txout_to_key key \<Rightarrow>
             (case get_deterministic_output_key env address sec (word_of_nat (i + 1)) of
                None \<Rightarrow> False
              | Some out_eph_public_key \<Rightarrow>
                  if key \<noteq> out_eph_public_key then False else check_winner_outputs env sec tot outs (i + 1) rest)
         | _ \<Rightarrow> False)"

text \<open>
  \<open>vout.size() - 1\<close> is unsigned: for a miner transaction without outputs it wraps around, the test
  passes and the loop reads past the end, which is \<^const>\<open>None\<close>.
\<close>

definition validate_miner_tx :: "crypto_env \<Rightarrow> transaction \<Rightarrow> u64 \<Rightarrow> int \<Rightarrow> block_reward_parts \<Rightarrow> transient_state \<Rightarrow> bool option" where
  "validate_miner_tx env mtx height hf_version reward_parts st =
     (if hf_version < 9 then Some True
      else do {
        let base_reward = original_base_reward reward_parts;
        let total_full_node_reward = full_node_reward_formula base_reward hf_version;
        if get_full_node_winner_from_tx_extra (extra mtx) \<noteq> select_winner st then Some False
        else do {
          winners \<leftarrow> get_winner_addresses_and_portions st;
          if vout mtx = [] \<and> winners \<noteq> [] then None
          else if length (vout mtx) - 1 < length winners then Some False
          else Some (check_winner_outputs env (snd (get_deterministic_keypair_from_height env height))
                 total_full_node_reward (vout mtx) 0 winners) } })"

section \<open>The winner\<close>

text \<open>The loop of \<open>select_winner\<close> over some entries, from a candidate on.\<close>

definition winner_step :: "public_key \<times> full_node_info \<Rightarrow> (u64 \<times> u32) \<times> public_key \<Rightarrow> (u64 \<times> u32) \<times> public_key" where
  "winner_step = (\<lambda>(key, info) (oldest, winner).
     if is_fully_funded info \<and> waiting_since info < oldest then (waiting_since info, key) else (oldest, winner))"

lemma select_winner_fold:
  "select_winner st = snd (fold winner_step (full_nodes_infos st) ((UINT64_MAX, UINT32_MAX), null_pkey))"
  by (simp add: select_winner_def winner_step_def)

lemma winner_fold:
  assumes "fold winner_step infos (t0, k0) = (t, k)"
  shows "t \<le> t0 \<and> (\<forall>(k', info) \<in> set infos. is_fully_funded info \<longrightarrow> t \<le> waiting_since info)
    \<and> (t = t0 \<and> k = k0 \<or> (\<exists>info. (k, info) \<in> set infos \<and> is_fully_funded info \<and> t = waiting_since info \<and> t < t0))"
  using assms
proof (induction infos arbitrary: t0 k0)
  case (Cons e infos)
  obtain key info where e: "e = (key, info)" by fastforce
  show ?case
  proof (cases "is_fully_funded info \<and> waiting_since info < t0")
    case True
    then have "fold winner_step infos (waiting_since info, key) = (t, k)" using Cons.prems by (simp add: e winner_step_def)
    from Cons.IH [OF this] True show ?thesis by (auto simp: e)
  next
    case False
    then have "fold winner_step infos (t0, k0) = (t, k)" using Cons.prems by (auto simp: e winner_step_def)
    from Cons.IH [OF this] False show ?thesis by (auto simp: e)
  qed
qed simp

lemma select_winner_cases:
  obtains (nobody) "select_winner st = null_pkey"
      "\<forall>(k, info) \<in> set (full_nodes_infos st). is_fully_funded info \<longrightarrow> waiting_since info = (UINT64_MAX, UINT32_MAX)"
  | (winner) info where "(select_winner st, info) \<in> set (full_nodes_infos st)" "is_fully_funded info"
      "\<forall>(k, info') \<in> set (full_nodes_infos st). is_fully_funded info' \<longrightarrow> waiting_since info \<le> waiting_since info'"
proof -
  obtain t k where f: "fold winner_step (full_nodes_infos st) ((UINT64_MAX, UINT32_MAX), null_pkey) = (t, k)" by fastforce
  have "a \<le> UINT64_MAX" "b \<le> UINT32_MAX" for a b
    using unat_u64_less [of a] unat_u32_less [of b] by (simp_all add: word_le_nat_alt)
  then have top: "x \<le> (UINT64_MAX, UINT32_MAX)" for x :: "u64 \<times> u32"
    by (cases x) (simp add: less_eq_prod_def)
  have k: "select_winner st = k" by (simp add: select_winner_fold f)
  note w = winner_fold [OF f]
  show thesis
  proof (cases "t = (UINT64_MAX, UINT32_MAX) \<and> k = null_pkey")
    case True
    have "waiting_since info = (UINT64_MAX, UINT32_MAX)" if "(k', info) \<in> set (full_nodes_infos st)" "is_fully_funded info" for k' info
      using w that True top [of "waiting_since info"] by (intro antisym) auto
    then show thesis using True k by (intro nobody) auto
  next
    case False
    then obtain info where "(k, info) \<in> set (full_nodes_infos st)" "is_fully_funded info" "t = waiting_since info" using w by auto
    then show thesis using w by (intro winner [of info]) (auto simp: k)
  qed
qed

text \<open>
  C8. When no two fully funded nodes have waited since the same block and transaction, and none since the
  largest values, \<open>select_winner\<close> returns the null key exactly when no node is fully funded, and otherwise
  the fully funded node that has waited longest. The answer only depends on the set of entries, not on
  the iteration order of the hash table.
\<close>

theorem select_winner_oldest:
  assumes "\<forall>(k, info) \<in> set (full_nodes_infos st). \<forall>(k', info') \<in> set (full_nodes_infos st).
      is_fully_funded info \<and> is_fully_funded info' \<and> waiting_since info = waiting_since info' \<longrightarrow> k = k'"
    and "\<forall>(k, info) \<in> set (full_nodes_infos st). is_fully_funded info \<longrightarrow> waiting_since info \<noteq> (UINT64_MAX, UINT32_MAX)"
  shows "select_winner st = key \<longleftrightarrow>
    (if \<exists>(k, info) \<in> set (full_nodes_infos st). is_fully_funded info
     then \<exists>info. (key, info) \<in> set (full_nodes_infos st) \<and> is_fully_funded info
       \<and> (\<forall>(k, info') \<in> set (full_nodes_infos st). is_fully_funded info' \<and> k \<noteq> key \<longrightarrow> waiting_since info < waiting_since info')
     else key = null_pkey)"
proof (cases st rule: select_winner_cases)
  case nobody
  then have "\<not> (\<exists>(k, info) \<in> set (full_nodes_infos st). is_fully_funded info)" using assms(2) by fastforce
  then show ?thesis using nobody(1) by auto
next
  case (winner info)
  let ?infos = "set (full_nodes_infos st)"
  have ex: "\<exists>(k, info) \<in> ?infos. is_fully_funded info" using winner by blast
  have least: "waiting_since info < waiting_since info'" if "(k, info') \<in> ?infos" "is_fully_funded info'" "k \<noteq> select_winner st" for k info'
    using winner that assms(1) by (metis (mono_tags, lifting) case_prodD order_less_le)
  show ?thesis
  proof
    assume "select_winner st = key"
    then show "if \<exists>(k, info) \<in> ?infos. is_fully_funded info
      then \<exists>info. (key, info) \<in> ?infos \<and> is_fully_funded info
        \<and> (\<forall>(k, info') \<in> ?infos. is_fully_funded info' \<and> k \<noteq> key \<longrightarrow> waiting_since info < waiting_since info')
      else key = null_pkey"
      using winner least ex by auto
  next
    assume "if \<exists>(k, info) \<in> ?infos. is_fully_funded info
      then \<exists>info. (key, info) \<in> ?infos \<and> is_fully_funded info
        \<and> (\<forall>(k, info') \<in> ?infos. is_fully_funded info' \<and> k \<noteq> key \<longrightarrow> waiting_since info < waiting_since info')
      else key = null_pkey"
    then obtain info' where i: "(key, info') \<in> ?infos" "is_fully_funded info'"
        "\<forall>(k, i) \<in> ?infos. is_fully_funded i \<and> k \<noteq> key \<longrightarrow> waiting_since info' < waiting_since i"
      using ex by auto
    show "select_winner st = key"
    proof (rule ccontr)
      assume ne: "select_winner st \<noteq> key"
      then have "waiting_since info < waiting_since info'" using least [OF i(1,2)] by simp
      moreover have "waiting_since info' < waiting_since info" using i(3) winner(1,2) ne by auto
      ultimately show False by simp
    qed
  qed
qed

definition test_node :: "u64 \<Rightarrow> u32 \<Rightarrow> full_node_info" where
  "test_node h i = empty_info\<lparr>last_reward_block_height := h, last_reward_transaction_index := i\<rparr>"

theorem select_winner_oldest_witness:
  "select_winner \<lparr>full_nodes_infos = [([1], test_node 7 1), ([2], test_node 5 9)], key_image_blacklist = [],
     quorum_states = [], rollback_events = [], state_height = 3\<rparr> = [2]"
  by (subst select_winner_oldest)
    (auto simp: test_node_def waiting_since_def is_fully_funded_def empty_info_def less_prod_def word_less_nat_alt)

section \<open>Quorums\<close>

lemma map_of_set_quorum: "map_of (set_quorum h q qs) = (map_of qs)(h \<mapsto> q)"
  by (induction h q qs rule: set_quorum.induct) auto

lemma get_full_nodes_pubkeys_distinct:
  "distinct (map fst (full_nodes_infos st)) \<Longrightarrow> distinct (get_full_nodes_pubkeys st)"
  by (simp add: get_full_nodes_pubkeys_def distinct_map_filter)

lemma get_full_nodes_pubkeys_set:
  "set (get_full_nodes_pubkeys st) = {key. \<exists>info. (key, info) \<in> set (full_nodes_infos st) \<and> is_fully_funded info}"
  by (force simp: get_full_nodes_pubkeys_def)

text \<open>
  C11. Whenever a quorum is stored for a block, the \<open>n\<close> fully funded nodes give a quorum of \<open>min n 5\<close> nodes
  and a list of nodes to test, of at least 50 or all that remain, and of a hundredth of the remaining
  nodes if that is more; no node appears twice in the two lists together; and the quorums of other
  heights do not change.
\<close>

theorem store_quorum_state_correct:
  assumes "store_quorum_state_from_rewards_list chain height st = Some st'"
    and "block_id_by_height chain height \<noteq> null_hash"
    and "distinct (map fst (full_nodes_infos st))" and "length (full_nodes_infos st) < 2 ^ 64"
  defines "n \<equiv> length (get_full_nodes_pubkeys st)"
  shows "\<exists>q. get_quorum_state st' height = Some q
    \<and> distinct (quorum_nodes q @ nodes_to_test q)
    \<and> set (quorum_nodes q @ nodes_to_test q) \<subseteq> set (get_full_nodes_pubkeys st)
    \<and> length (quorum_nodes q) = min n 5
    \<and> length (nodes_to_test q) = max ((n - min n 5) div 100) (min 50 (n - min n 5))
    \<and> (\<forall>k. k \<noteq> height \<longrightarrow> get_quorum_state st' k = get_quorum_state st k)"
proof -
  define nodes where "nodes = get_full_nodes_pubkeys st"
  define t where "t = max ((n - min n 5) div 100) (min 50 (n - min n 5))"
  obtain indexes where sh: "antd_shuffle [0..<n] (hash_seed (block_id_by_height chain height)) = Some indexes"
    and st': "st' = st\<lparr>quorum_states := set_quorum height
      \<lparr>quorum_nodes = map (\<lambda>i. nodes ! (indexes ! i)) [0..<min n 5],
       nodes_to_test = map (\<lambda>i. nodes ! (indexes ! (min n 5 + i))) [0..<max ((length indexes - min n 5) div 100)
         (min 50 (length indexes - min n 5))]\<rparr> (quorum_states st)\<rparr>"
    using assms(1,2) by (auto simp: store_quorum_state_from_rewards_list_def Let_def bind_eq_Some_conv nodes_def n_def
        QUORUM_SIZE_def NTH_OF_THE_NETWORK_TO_TEST_def MIN_NODES_TO_TEST_def)
  have "n \<le> length (full_nodes_infos st)"
    unfolding n_def get_full_nodes_pubkeys_def by simp
  then have perm: "mset indexes = mset [0..<n]"
    using antd_shuffle_mset [OF sh] assms(4) by simp
  then have len: "length indexes = n" and dist: "distinct indexes" and less: "set indexes = {0..<n}"
    by (metis length_upt diff_zero size_mset, metis distinct_upt mset_eq_imp_distinct_iff, metis atLeastLessThan_upt set_mset_mset)
  have "(n - min n 5) div 100 \<le> n - min n 5" by (rule div_le_dividend)
  then have "t \<le> n - min n 5" by (simp add: t_def)
  then have fits: "min n 5 + t \<le> n" using le_diff_conv2 [of "min n 5" n t] by (simp add: add.commute)
  define q where "q = \<lparr>quorum_nodes = map (\<lambda>i. nodes ! (indexes ! i)) [0..<min n 5],
    nodes_to_test = map (\<lambda>i. nodes ! (indexes ! (min n 5 + i))) [0..<t]\<rparr>"
  have shift: "map (\<lambda>i. f (m + i)) [0..<t] = map f [m..<m + t]" for f :: "nat \<Rightarrow> public_key" and m
    using arg_cong [OF map_add_upt [of m t], of "map f"] by (simp add: comp_def add.commute)
  have "[0..<min n 5 + t] = [0..<min n 5] @ [min n 5..<min n 5 + t]" by (rule upt_add_eq_append) simp
  then have "quorum_nodes q @ nodes_to_test q = map (\<lambda>i. nodes ! (indexes ! i)) [0..<min n 5 + t]"
    using shift [of "\<lambda>i. nodes ! (indexes ! i)" "min n 5"] by (simp only: q_def quorum_state.simps map_append)
  also have "\<dots> = map ((!) nodes) (map ((!) indexes) [0..<min n 5 + t])" by simp
  also have "map ((!) indexes) [0..<min n 5 + t] = take (min n 5 + t) (map ((!) indexes) [0..<length indexes])"
    using fits len by (simp add: take_map)
  also have "\<dots> = take (min n 5 + t) indexes" by (simp only: map_nth)
  finally have all: "quorum_nodes q @ nodes_to_test q = map ((!) nodes) (take (min n 5 + t) indexes)" .
  have sub: "set (take (min n 5 + t) indexes) \<subseteq> {0..<n}" using less set_take_subset by fast
  have dn: "distinct nodes" using get_full_nodes_pubkeys_distinct [OF assms(3)] by (simp add: nodes_def)
  have "inj_on ((!) nodes) {0..<n}"
    using dn by (intro inj_on_nth) (simp_all add: nodes_def n_def)
  then have "inj_on ((!) nodes) (set (take (min n 5 + t) indexes))" using sub by (rule inj_on_subset)
  then have d: "distinct (quorum_nodes q @ nodes_to_test q)" unfolding all distinct_map using dist by simp
  have "nodes ! k \<in> set nodes" if "k \<in> {0..<n}" for k using that by (simp add: nodes_def n_def)
  then have i: "set (quorum_nodes q @ nodes_to_test q) \<subseteq> set nodes"
    unfolding all set_map using sub by blast
  have g: "get_quorum_state st' height = Some q" "\<forall>k. k \<noteq> height \<longrightarrow> get_quorum_state st' k = get_quorum_state st k"
    by (simp_all add: get_quorum_state_def st' map_of_set_quorum len q_def t_def)
  have l: "length (quorum_nodes q) = min n 5" "length (nodes_to_test q) = t" by (simp_all add: q_def)
  show ?thesis
    by (intro exI [of _ q] conjI) (rule g d i [unfolded nodes_def] l(1) l(2) [unfolded t_def])+
qed

theorem store_quorum_state_correct_witness:
  "\<exists>st' q. store_quorum_state_from_rewards_list
       \<lparr>nettype = TESTNET, hard_fork_version = \<lambda>_. 9, block_id_by_height = \<lambda>_. [1], block_at = \<lambda>_. None,
        get_transactions = \<lambda>_. None, hardfork_9_from_height = 0, current_height = 4\<rparr> 3
       \<lparr>full_nodes_infos = [([7], empty_info)], key_image_blacklist = [], quorum_states = [], rollback_events = [], state_height = 3\<rparr>
       = Some st'
     \<and> get_quorum_state st' 3 = Some q \<and> length (quorum_nodes q) = 1"
proof -
  let ?chain = "\<lparr>nettype = TESTNET, hard_fork_version = \<lambda>_. 9, block_id_by_height = \<lambda>_. [1], block_at = \<lambda>_. None,
        get_transactions = \<lambda>_. None, hardfork_9_from_height = 0, current_height = 4\<rparr>"
  let ?st = "\<lparr>full_nodes_infos = [([7], empty_info)], key_image_blacklist = [], quorum_states = [], rollback_events = [], state_height = 3\<rparr>"
  have nodes: "get_full_nodes_pubkeys ?st = [[7]]" by (simp add: get_full_nodes_pubkeys_def is_fully_funded_def empty_info_def)
  have null: "block_id_by_height ?chain 3 \<noteq> null_hash" by (simp add: null_hash_def numeral_eq_Suc)
  obtain st' where st': "store_quorum_state_from_rewards_list ?chain 3 ?st = Some st'"
    using null by (simp add: store_quorum_state_from_rewards_list_def Let_def nodes antd_shuffle_def)
  from store_quorum_state_correct [OF this null] nodes st' show ?thesis by auto
qed

section \<open>Invariants of the list\<close>

text \<open>
  What every operation keeps, given that a block, undoing events and trimming the quorums keep it and
  that the empty list has it.
\<close>

locale list_invariant =
  fixes inv :: "transient_state \<Rightarrow> bool"
  assumes clear_inv: "inv (clear chain)"
    and block_inv: "inv st \<Longrightarrow> block_added_generic env chain b txs st = Some st' \<Longrightarrow> inv st'"
    and undo_inv: "inv st \<Longrightarrow> undo_events h (rev (rollback_events st)) st = (ok, st') \<Longrightarrow> inv st'"
    and trim_inv: "inv st \<Longrightarrow> inv (st\<lparr>quorum_states := rev (dropWhile P (rev (quorum_states st))), state_height := h\<rparr>)"
begin

lemma scan_blocks_inv: "inv st \<Longrightarrow> scan_blocks env chain bs st = Some (ok, st') \<Longrightarrow> inv st'"
  by (induction bs arbitrary: st) (auto simp: bind_eq_Some_conv dest: block_inv split: option.splits)

lemma scan_chain_inv:
  assumes "scan_chain env chain st = Some st'"
  shows "inv st \<longrightarrow> inv st'"
proof (rule scan_chain.raw_induct [OF _ assms])
qed (auto simp: bind_eq_Some_conv dest: scan_blocks_inv split: if_splits option.splits)

lemma started_inv: "(\<And>s. stored = Some s \<Longrightarrow> inv s) \<Longrightarrow> init env chain stored = Some st' \<Longrightarrow> inv st'"
  using scan_chain_inv clear_inv by (auto simp: init_def split: if_splits option.splits)

lemma detached_inv:
  assumes "inv st" and "\<And>s. stored = Some s \<Longrightarrow> inv s" and "blockchain_detached env chain stored height st = Some st'"
  shows "inv st'"
proof -
  obtain ok st1 where u: "undo_events height (rev (rollback_events st)) st = (ok, st1)" by fastforce
  then have "inv st1" using undo_inv [OF assms(1)] by simp
  then show ?thesis
    using assms(3) u started_inv [of stored env chain, OF assms(2)]
    by (auto simp: blockchain_detached_def bind_eq_Some_conv intro: trim_inv split: if_splits)
qed

end

end
