(* ===== verification/Funding.thy ===== *)
theory Funding
  imports FullNodeList
begin

text \<open>
  The funding of full nodes: every operation of the list keeps the funding invariant of every node, and
  therefore the reward portions of a winner never exceed the whole.
\<close>

section \<open>One contribution\<close>

lemma sum_list_upd:
  "n < length xs \<Longrightarrow> sum_list (map f (xs[n := y])) + f (xs ! n) = sum_list (map f xs) + (f y :: nat)"
proof (induction xs arbitrary: n)
  case (Cons x xs)
  then show ?case by (cases n) auto
qed simp

lemma find_contributor_Some: "find_contributor a cs = Some n \<Longrightarrow> n < length cs \<and> cr_address (cs ! n) = a"
  by (induction cs arbitrary: n) (auto split: if_splits)

lemma find_contributor_None: "find_contributor a cs = None \<longleftrightarrow> a \<notin> cr_address ` set cs"
  by (induction cs) auto

text \<open>Replacing a contributor by one with the same address, with the totals adjusted.\<close>

lemma node_ok_set_contributor:
  assumes ok: "node_ok info" and n: "n < length (contributors info)"
    and adr: "cr_address c' = cr_address (contributors info ! n)"
    and le: "cr_amount c' \<le> cr_reserved c'"
    and tc: "unat tc + unat (cr_amount (contributors info ! n)) = unat (total_contributed info) + unat (cr_amount c')"
    and tr: "unat tr + unat (cr_reserved (contributors info ! n)) = unat (total_reserved info) + unat (cr_reserved c')"
    and req: "tr \<le> staking_requirement info"
  shows "node_ok (set_contributor n c' (info\<lparr>total_contributed := tc, total_reserved := tr\<rparr>))"
proof -
  define cs where "cs = (contributors info)[n := c']"
  have addrs: "map cr_address cs = map cr_address (contributors info)"
    unfolding cs_def using n adr by (simp add: map_update) (metis list_update_id nth_map)
  have ne: "cs \<noteq> []" "length cs = length (contributors info)" using n by (auto simp: cs_def)
  have hd: "cr_address (hd cs) = cr_address (hd (contributors info))"
    using addrs ne n by (metis hd_map length_0_conv less_nat_zero_code)
  have all: "list_all (\<lambda>c. cr_amount c \<le> cr_reserved c) cs"
    using ok le by (auto simp: node_ok_def list_all_iff cs_def dest!: set_update_subset_insert [THEN subsetD])
  have "sum_list (map (\<lambda>c. unat (cr_amount c)) cs) = unat tc" "sum_list (map (\<lambda>c. unat (cr_reserved c)) cs) = unat tr"
    using sum_list_upd [OF n, of "\<lambda>c. unat (cr_amount c)" c'] sum_list_upd [OF n, of "\<lambda>c. unat (cr_reserved c)" c'] ok tc tr
    by (simp_all add: node_ok_def cs_def)
  then show ?thesis
    using ok req addrs ne hd all by (simp add: node_ok_def set_contributor_def cs_def [symmetric])
qed

lemma node_ok_irrelevant:
  "node_ok (info\<lparr>last_reward_block_height := h\<rparr>) = node_ok info"
  "node_ok (info\<lparr>last_reward_transaction_index := i\<rparr>) = node_ok info"
  "node_ok (info\<lparr>requested_unlock_height := h\<rparr>) = node_ok info"
  "node_ok (info\<lparr>swarm_id := s\<rparr>) = node_ok info"
  by (simp_all add: node_ok_def)

lemma add_locked_ok: "node_ok info \<Longrightarrow> n < length (contributors info) \<Longrightarrow> node_ok (add_locked n ls info)"
proof (induction ls arbitrary: info)
  case (Cons l ls)
  let ?c = "contributors info ! n"
  have "list_all (\<lambda>c. cr_amount c \<le> cr_reserved c) (contributors info)" using Cons.prems(1) by (simp add: node_ok_def)
  then have le: "cr_amount ?c \<le> cr_reserved ?c" using Cons.prems(2) by (simp add: list_all_length)
  have "node_ok (set_contributor n (?c\<lparr>locked_contributions := locked_contributions ?c @ [l]\<rparr>)
      (info\<lparr>total_contributed := total_contributed info, total_reserved := total_reserved info\<rparr>))"
    using Cons.prems le by (intro node_ok_set_contributor) (simp_all add: node_ok_def)
  then show ?case using Cons.IH Cons.prems by (simp add: Let_def) (simp add: set_contributor_def)
qed simp

text \<open>What the contributor may still add fits into what is left of the requirement.\<close>

lemma contribution_room:
  assumes ok: "node_ok info" and n: "n < length (contributors info)" and c: "c = contributors info ! n"
  shows "unat (cr_amount c) \<le> unat (cr_reserved c)"
    and "unat (cr_reserved c) \<le> unat (total_reserved info)"
    and "unat (total_contributed info) + unat (cr_reserved c) \<le> unat (total_reserved info) + unat (cr_amount c)"
    and "unat (total_reserved info) \<le> unat (staking_requirement info)"
proof -
  show le: "unat (cr_amount c) \<le> unat (cr_reserved c)"
    using ok n by (simp add: node_ok_def list_all_length c word_le_nat_alt)
  show "unat (cr_reserved c) \<le> unat (total_reserved info)"
    using ok n member_le_sum_list [of "unat (cr_reserved c)" "map (\<lambda>c. unat (cr_reserved c)) (contributors info)"]
    by (auto simp: node_ok_def c)
  have "sum_list (map (\<lambda>c. unat (cr_amount c)) ((contributors info)[n := c\<lparr>cr_amount := cr_reserved c\<rparr>]))
      \<le> sum_list (map (\<lambda>c. unat (cr_reserved c)) ((contributors info)[n := c\<lparr>cr_amount := cr_reserved c\<rparr>]))"
  proof (rule sum_list_mono)
    fix x assume "x \<in> set ((contributors info)[n := c\<lparr>cr_amount := cr_reserved c\<rparr>])"
    then show "unat (cr_amount x) \<le> unat (cr_reserved x)"
      using ok by (auto simp: node_ok_def list_all_iff word_le_nat_alt dest!: set_update_subset_insert [THEN subsetD])
  qed
  then show "unat (total_contributed info) + unat (cr_reserved c) \<le> unat (total_reserved info) + unat (cr_amount c)"
    using sum_list_upd [OF n, of "\<lambda>c. unat (cr_amount c)" "c\<lparr>cr_amount := cr_reserved c\<rparr>"]
      sum_list_upd [OF n, of "\<lambda>c. unat (cr_reserved c)" "c\<lparr>cr_amount := cr_reserved c\<rparr>"] ok
    by (simp add: node_ok_def c)
  show "unat (total_reserved info) \<le> unat (staking_requirement info)"
    using ok by (simp add: node_ok_def word_le_nat_alt)
qed

lemma apply_contribution_ok:
  assumes ok: "node_ok info" and n: "n < length (contributors info)"
  shows "node_ok (apply_contribution hf h i parsed n info)"
proof -
  define c where "c = contributors info ! n"
  define amt where "amt = min (cr_reserved c + (staking_requirement info - total_reserved info) - cr_amount c) (transferred parsed)"
  define c' where "c' = (if cr_amount c + amt > cr_reserved c
    then c\<lparr>cr_amount := cr_amount c + amt, cr_reserved := cr_amount c + amt\<rparr> else c\<lparr>cr_amount := cr_amount c + amt\<rparr>)"
  define tr where "tr = (if cr_amount c + amt > cr_reserved c
    then total_reserved info + (cr_amount c + amt - cr_reserved c) else total_reserved info)"
  note room = contribution_room [OF ok n c_def]
  note less = unat_u64_less [of "staking_requirement info"]
  have inc: "unat (staking_requirement info - total_reserved info) = unat (staking_requirement info) - unat (total_reserved info)"
    by (rule unat_sub_nowrap [OF room(4)])
  have mx: "unat (cr_reserved c + (staking_requirement info - total_reserved info))
      = unat (cr_reserved c) + (unat (staking_requirement info) - unat (total_reserved info))"
    using room less by (subst unat_add_nowrap) (simp_all add: inc)
  have "unat amt \<le> unat (cr_reserved c + (staking_requirement info - total_reserved info) - cr_amount c)"
    by (simp add: amt_def min_def word_le_nat_alt)
  then have amt: "unat (cr_amount c) + unat amt \<le> unat (cr_reserved c) + (unat (staking_requirement info) - unat (total_reserved info))"
    using room mx by (simp add: unat_sub_nowrap)
  have ca: "unat (cr_amount c + amt) = unat (cr_amount c) + unat amt"
    using amt room less by (intro unat_add_nowrap) simp
  have tc: "unat (total_contributed info + amt) = unat (total_contributed info) + unat amt"
    using amt room less by (intro unat_add_nowrap) simp
  have tr: "unat tr + unat (cr_reserved c) = unat (total_reserved info) + unat (cr_reserved c') \<and> tr \<le> staking_requirement info"
  proof (cases "cr_amount c + amt > cr_reserved c")
    case True
    then have gt: "unat (cr_reserved c) < unat (cr_amount c) + unat amt" by (simp add: word_less_nat_alt ca)
    then have "unat (cr_amount c + amt - cr_reserved c) = unat (cr_amount c) + unat amt - unat (cr_reserved c)"
      by (subst unat_sub_nowrap) (simp_all add: ca)
    then have "unat tr = unat (total_reserved info) + (unat (cr_amount c) + unat amt - unat (cr_reserved c))"
      using amt room less True by (simp add: tr_def) (subst unat_add_nowrap; simp)
    then show ?thesis using True amt room gt by (simp add: c'_def ca word_le_nat_alt)
  qed (use room in \<open>simp add: tr_def c'_def word_le_nat_alt\<close>)
  have c': "cr_address c' = cr_address c" "cr_amount c' = cr_amount c + amt" "cr_amount c' \<le> cr_reserved c'"
    by (auto simp: c'_def)
  have new: "node_ok (set_contributor n c' (info\<lparr>total_contributed := total_contributed info + amt, total_reserved := tr\<rparr>))"
    using ok n c' tr tc ca by (intro node_ok_set_contributor) (simp_all add: c_def)
  define info' where "info' = set_contributor n c' (info\<lparr>total_contributed := total_contributed info + amt, total_reserved := tr,
    last_reward_block_height := h, last_reward_transaction_index := i\<rparr>)"
  have "node_ok info'" using new by (simp add: info'_def node_ok_def set_contributor_def)
  moreover have "apply_contribution hf h i parsed n info =
      (if hf \<ge> network_version_11_infinite_staking then add_locked n (pc_locked_contributions parsed) info' else info')"
    by (simp add: apply_contribution_def Let_def info'_def c'_def tr_def amt_def c_def set_contributor_def)
  moreover have "n < length (contributors info')" using n by (simp add: info'_def set_contributor_def)
  ultimately show ?thesis by (simp add: add_locked_ok)
qed

lemma new_contributor_ok:
  assumes "node_ok info" and "length (contributors info) < 4" and "find_contributor a (contributors info) = None"
  shows "node_ok (info\<lparr>contributors := contributors info @ [new_contributor ver a]\<rparr>)"
  using assms by (auto simp: node_ok_def new_contributor_def find_contributor_None)

section \<open>The list\<close>

text \<open>
  The invariant of the list: keys are distinct, every node satisfies the funding invariant, and so does
  every node that a rollback event would put back.
\<close>

fun event_ok :: "rollback_event \<Rightarrow> bool" where
  "event_ok (rollback_change _ _ info) = node_ok info"
| "event_ok _ = True"

definition list_ok :: "transient_state \<Rightarrow> bool" where
  "list_ok st \<longleftrightarrow> distinct (map fst (full_nodes_infos st)) \<and> list_all (\<lambda>(_, info). node_ok info) (full_nodes_infos st)
     \<and> list_all event_ok (rollback_events st)"

named_theorems keeps_ok \<open>operations that keep the invariant of the list\<close>

lemma list_all_update: "list_all P xs \<Longrightarrow> P (k, v) \<Longrightarrow> list_all P (AList.update k v xs)"
  by (induction xs) auto

lemma list_all_delete: "list_all P xs \<Longrightarrow> list_all P (AList.delete k xs)"
  by (auto simp: AList.delete_eq list_all_iff)

lemma put_node_ok [keeps_ok]: "list_ok st \<Longrightarrow> node_ok info \<Longrightarrow> list_ok (put_node key info st)"
  by (simp add: list_ok_def put_node_def distinct_update list_all_update)

lemma erase_node_ok [keeps_ok]: "list_ok st \<Longrightarrow> list_ok (erase_node key st)"
  by (simp add: list_ok_def erase_node_def distinct_delete list_all_delete)

lemma push_event_ok [keeps_ok]: "list_ok st \<Longrightarrow> event_ok e \<Longrightarrow> list_ok (push_event e st)"
  by (simp add: list_ok_def push_event_def)

lemma find_node_ok: "list_ok st \<Longrightarrow> find_node st key = Some info \<Longrightarrow> node_ok info"
  by (auto simp: list_ok_def list_all_iff dest!: map_of_SomeD)

lemma list_ok_irrelevant [simp]:
  "list_ok (st\<lparr>key_image_blacklist := l\<rparr>) = list_ok st" "list_ok (st\<lparr>quorum_states := q\<rparr>) = list_ok st"
  "list_ok (st\<lparr>state_height := h\<rparr>) = list_ok st"
  by (simp_all add: list_ok_def)

lemma blacklist_key_images_ok [keeps_ok]: "list_ok st \<Longrightarrow> list_ok (blacklist_key_images net h info st)"
proof -
  have "list_ok st \<Longrightarrow> list_ok (fold (\<lambda>c st. let entry = (f :: contribution_t \<Rightarrow> _) c in push_event (rollback_key_image_blacklist h entry True)
      (st\<lparr>key_image_blacklist := key_image_blacklist st @ [entry]\<rparr>)) cs st)" for cs f
    by (induction cs arbitrary: st) (simp_all add: Let_def push_event_ok)
  then show "list_ok st \<Longrightarrow> ?thesis" by (simp add: blacklist_key_images_def)
qed

lemma process_deregistration_tx_ok [keeps_ok]:
  "list_ok st \<Longrightarrow> list_ok (snd (process_deregistration_tx chain tx h st))"
proof (cases "find_deregistered_node tx st")
  case (Some kv)
  then obtain key info where kv: "kv = (key, info)" "find_node st key = Some info"
    by (auto simp: find_deregistered_node_def bind_eq_Some_conv Let_def split: if_splits)
  then show "list_ok st \<Longrightarrow> ?thesis"
    using Some find_node_ok by (simp add: process_deregistration_tx_def Let_def keeps_ok)
qed (simp add: process_deregistration_tx_def)

lemma process_registration_tx_ok [keeps_ok]:
  assumes "list_ok st"
  shows "list_ok (snd (process_registration_tx env chain tx ts h i st))"
proof (cases "is_registration_tx env chain tx ts h i empty_info")
  case (Some kv)
  then obtain key info where kv: "kv = (key, info)" "node_ok info" using registration_ok by (cases kv) auto
  then show ?thesis
    using Some assms by (auto simp: process_registration_tx_def Let_def keeps_ok node_ok_irrelevant split: option.splits)
qed (use assms in \<open>simp add: process_registration_tx_def\<close>)

lemma process_contribution_tx_ok [keeps_ok]:
  assumes "list_ok st"
  shows "list_ok (process_contribution_tx env chain tx h i st)"
proof -
  have old: "node_ok (apply_contribution hf h i parsed n info)"
    if "find_node st key = Some info" "find_contributor a (contributors info) = Some n" for key info hf parsed a n
    using that find_node_ok [OF assms] find_contributor_Some by (intro apply_contribution_ok) blast+
  have new: "node_ok (apply_contribution hf h i parsed (length (contributors info))
      (info\<lparr>contributors := contributors info @ [new_contributor ver a]\<rparr>))"
    if "find_node st key = Some info" "find_contributor a (contributors info) = None"
      "\<not> length (contributors info) \<ge> unat MAX_NUMBER_OF_CONTRIBUTORS" for key info hf parsed a ver
    using that find_node_ok [OF assms] new_contributor_ok [of info a ver]
    by (intro apply_contribution_ok) (auto simp: MAX_NUMBER_OF_CONTRIBUTORS_def)
  show ?thesis
    using assms find_node_ok [OF assms] old new
    by (auto simp: process_contribution_tx_def Let_def keeps_ok split: option.splits)
qed

lemma expire_nodes_ok [keeps_ok]: "list_ok (snd acc) \<Longrightarrow> list_ok (snd (fold (expire_node h) keys acc))"
proof (induction keys arbitrary: acc)
  case (Cons key keys)
  have "list_ok (snd (expire_node h key acc))"
    using Cons.prems find_node_ok by (cases acc) (auto simp: expire_node_def keeps_ok split: option.splits)
  then show ?case using Cons.IH by simp
qed simp

lemma process_key_image_unlock_tx_ok [keeps_ok]:
  "list_ok st \<Longrightarrow> list_ok (process_key_image_unlock_tx env chain tx h st)"
  unfolding process_key_image_unlock_tx_def
  by (auto simp: bind_eq_Some_conv node_ok_irrelevant intro!: put_node_ok push_event_ok intro: find_node_ok
      split: option.splits if_splits)

lemma move_to_swarm_ok: "list_ok st \<Longrightarrow> move_to_swarm h m st = Some st' \<Longrightarrow> list_ok st'"
  by (cases m) (auto simp: move_to_swarm_def bind_eq_Some_conv node_ok_irrelevant intro!: put_node_ok push_event_ok
      intro: find_node_ok split: if_splits)

lemma move_all_ok: "list_ok st \<Longrightarrow> move_all h ms st = Some st' \<Longrightarrow> list_ok st'"
  by (induction ms arbitrary: st) (auto simp: bind_eq_Some_conv dest: move_to_swarm_ok)

lemma update_swarms_ok: "list_ok st \<Longrightarrow> update_swarms chain h st = Some st' \<Longrightarrow> list_ok st'"
  by (auto simp: update_swarms_def bind_eq_Some_conv dest: move_all_ok)

lemma store_quorum_ok: "list_ok st \<Longrightarrow> store_quorum_state_from_rewards_list chain h st = Some st' \<Longrightarrow> list_ok st'"
  by (auto simp: store_quorum_state_from_rewards_list_def bind_eq_Some_conv Let_def split: if_splits)

lemma expire_blacklist_events: "expire_blacklist h l = (kept, events) \<Longrightarrow> list_all event_ok events"
  by (induction l arbitrary: kept events) (auto simp: Let_def split: prod.splits if_splits)

lemma cull_rollback_events_ok [keeps_ok]: "list_ok st \<Longrightarrow> list_ok (cull_rollback_events h st)"
  by (auto simp: cull_rollback_events_def Let_def list_ok_def list_all_iff dest: set_dropWhileD)

lemma remove_expired_key_images_ok [keeps_ok]: "list_ok st \<Longrightarrow> list_ok (remove_expired_key_images h st)"
  using expire_blacklist_events by (auto simp: remove_expired_key_images_def list_ok_def split: prod.splits)

lemma advance_winner_ok [keeps_ok]: "list_ok st \<Longrightarrow> list_ok (advance_winner h key st)"
  by (auto simp: advance_winner_def node_ok_irrelevant intro!: put_node_ok push_event_ok intro: find_node_ok
      split: option.splits)

lemma process_txs_ok [keeps_ok]:
  "list_ok (snd (snd acc)) \<Longrightarrow> list_ok (snd (snd (process_txs env chain ts h i txs acc)))"
proof (induction txs arbitrary: acc i)
  case (Cons tx txs)
  obtain r d st where acc: "acc = (r, d, st)" by (metis prod_cases3)
  have "list_ok st" using Cons.prems by (simp add: acc)
  then show ?case
    using Cons.IH process_registration_tx_ok [of st env chain tx ts h i] process_deregistration_tx_ok [of st chain tx h]
    by (auto simp: acc keeps_ok case_prod_beta Let_def split: type_t.splits)
qed simp

text \<open>The list after the transactions of a block, before swarms and quorums are updated.\<close>

lemma block_added_cases:
  assumes "block_added_generic env chain b txs st = Some st'" and "\<not> hard_fork_version chain (get_block_height b) < 9"
  defines "h \<equiv> get_block_height b"
  obtains st0 n st1 st2 r d st3 st4 st5
  where "st0 = remove_expired_key_images h (cull_rollback_events h (st\<lparr>state_height := state_height st + 1\<rparr>))"
    and "fold (expire_node h) (update_and_get_expired_nodes env chain h st0) (0, st0) = (n, st1)"
    and "st2 = advance_winner h (get_full_node_winner_from_tx_extra (extra (miner_tx b))) st1"
    and "process_txs env chain (timestamp b) h 0 txs (0, 0, st2) = (r, d, st3)"
    and "st4 = st3 \<or> update_swarms chain h st3 = Some st4"
    and "store_quorum_state_from_rewards_list chain h st4 = Some st5"
    and "st' = st5\<lparr>quorum_states := dropWhile (\<lambda>(k, _). k < (if h < QUORUM_LIFETIME then 0 else h - QUORUM_LIFETIME)) (quorum_states st5)\<rparr>"
  using assms(1,2) unfolding block_added_generic_def h_def [symmetric]
  by (auto simp: Let_def bind_eq_Some_conv split: prod.splits if_splits) blast+

lemma block_added_generic_ok:
  assumes "list_ok st" and "block_added_generic env chain b txs st = Some st'"
  shows "list_ok st'"
proof (cases "hard_fork_version chain (get_block_height b) < 9")
  case True
  then show ?thesis using assms by (simp add: block_added_generic_def)
next
  case False
  define h where "h = get_block_height b"
  from block_added_cases [OF assms(2) False, folded h_def]
  obtain st0 n st1 st2 r d st3 st4 st5
  where 0: "st0 = remove_expired_key_images h (cull_rollback_events h (st\<lparr>state_height := state_height st + 1\<rparr>))"
    and 1: "fold (expire_node h) (update_and_get_expired_nodes env chain h st0) (0, st0) = (n, st1)"
    and 2: "st2 = advance_winner h (get_full_node_winner_from_tx_extra (extra (miner_tx b))) st1"
    and 3: "process_txs env chain (timestamp b) h 0 txs (0, 0, st2) = (r, d, st3)"
    and 4: "st4 = st3 \<or> update_swarms chain h st3 = Some st4"
    and 5: "store_quorum_state_from_rewards_list chain h st4 = Some st5"
    and 6: "st' = st5\<lparr>quorum_states := dropWhile (\<lambda>(k, _). k < (if h < QUORUM_LIFETIME then 0 else h - QUORUM_LIFETIME)) (quorum_states st5)\<rparr>"
    by metis
  have "list_ok st0" unfolding 0 using assms(1) by (simp add: keeps_ok)
  then have "list_ok st1" using expire_nodes_ok [of "(0, st0)" h] 1 by (metis snd_conv)
  then have "list_ok st2" unfolding 2 by (rule keeps_ok)
  then have "list_ok st3" using process_txs_ok [of "(0, 0, st2)" env chain "timestamp b" h 0 txs] 3 by simp
  then have "list_ok st4" using 4 update_swarms_ok by blast
  then have "list_ok st5" using 5 by (rule store_quorum_ok)
  then show ?thesis by (simp add: 6)
qed

section \<open>Rolling back and rescanning\<close>

lemma undo_event_ok: "list_ok st \<Longrightarrow> event_ok e \<Longrightarrow> undo_event e st = Some st' \<Longrightarrow> list_ok st'"
  by (cases e) (auto simp: node_ok_irrelevant intro!: put_node_ok erase_node_ok intro: find_node_ok split: if_splits)

lemma undo_events_ok:
  "list_ok st \<Longrightarrow> list_all event_ok es \<Longrightarrow> undo_events height es st = (ok, st') \<Longrightarrow> list_ok st'"
proof (induction es arbitrary: st)
  case (Cons e es)
  have events: "list_all event_ok (rev es)" "event_ok e" using Cons.prems(2) by (auto simp: list_all_iff)
  show ?case
  proof (cases "height \<le> m_block_height e \<and> undo_event e st \<noteq> None")
    case True
    then obtain st1 where "undo_event e st = Some st1" "undo_events height es st1 = (ok, st')" using Cons.prems(3) by auto
    then show ?thesis using Cons.IH undo_event_ok Cons.prems(1,2) events(2) by auto
  next
    case False
    then show ?thesis using Cons.prems events by (auto simp: list_ok_def split: if_splits)
  qed
qed (auto simp: list_ok_def)

interpretation funded: list_invariant list_ok
proof
  show "list_ok (clear chain)" for chain by (simp add: clear_def list_ok_def)
  show "list_ok st \<Longrightarrow> block_added_generic env chain b txs st = Some st' \<Longrightarrow> list_ok st'" for st env chain b txs st'
    by (rule block_added_generic_ok)
  show "list_ok st \<Longrightarrow> undo_events h (rev (rollback_events st)) st = (ok, st') \<Longrightarrow> list_ok st'" for st h ok st'
    by (rule undo_events_ok) (simp_all add: list_ok_def list_all_iff)
  show "list_ok st \<Longrightarrow> list_ok (st\<lparr>quorum_states := rev (dropWhile P (rev (quorum_states st))), state_height := h\<rparr>)" for st P h
    by (simp add: list_ok_def)
qed

section \<open>Winner portions\<close>

lemma node_ok_total: "node_ok info \<Longrightarrow> unat (total_contributed info) \<le> unat (staking_requirement info)"
proof -
  assume ok: "node_ok info"
  then have "sum_list (map (\<lambda>c. unat (cr_amount c)) (contributors info)) \<le> sum_list (map (\<lambda>c. unat (cr_reserved c)) (contributors info))"
    by (intro sum_list_mono) (auto simp: node_ok_def list_all_iff word_le_nat_alt)
  then show ?thesis using ok by (simp add: node_ok_def word_le_nat_alt)
qed

lemma winner_portion_val:
  assumes ok: "node_ok info" and c: "c \<in> set (contributors info)"
  defines "rest \<equiv> unat STAKING_PORTIONS - unat (portions_for_operator info)"
  shows "unat (winner_portion info c) = unat (cr_amount c) * rest div unat (staking_requirement info)
    + (if cr_address c = operator_address info then unat (portions_for_operator info) else 0)"
proof -
  obtain lo hi where m: "mul128 (cr_amount c) (STAKING_PORTIONS - portions_for_operator info) = (lo, hi)" by fastforce
  obtain r qh ql where d: "div128_64 hi lo (staking_requirement info) = (r, qh, ql)" by (metis prod_cases3)
  have po: "unat (portions_for_operator info) \<le> unat STAKING_PORTIONS" and req: "staking_requirement info \<noteq> 0"
    using ok by (simp_all add: node_ok_def word_le_nat_alt)
  have rest: "unat (STAKING_PORTIONS - portions_for_operator info) = rest"
    unfolding rest_def by (rule unat_sub_nowrap [OF po])
  have "unat (cr_amount c) \<le> unat (staking_requirement info)"
    using ok c member_le_sum_list [of "unat (cr_amount c)" "map (\<lambda>c. unat (cr_amount c)) (contributors info)"] node_ok_total [OF ok]
    by (auto simp: node_ok_def)
  then have "unat (cr_amount c) * rest div unat (staking_requirement info) \<le> unat (staking_requirement info) * rest div unat (staking_requirement info)"
    by (intro div_le_mono mult_le_mono1)
  also have "\<dots> = rest" using req by (simp add: unat_gt_0 unat_eq_zero)
  finally have le: "unat (cr_amount c) * rest div unat (staking_requirement info) \<le> rest" .
  then have "unat ql = unat (cr_amount c) * rest div unat (staking_requirement info)"
    using wide.muldiv_fits(2) [OF req m d] unat_u64_less [of STAKING_PORTIONS] by (simp add: rest rest_def)
  moreover from this have "unat (ql + portions_for_operator info) = unat ql + unat (portions_for_operator info)"
    using le po unat_u64_less [of STAKING_PORTIONS] by (intro unat_add_nowrap) (simp add: rest_def)
  ultimately show ?thesis by (simp add: winner_portion_def m d)
qed

lemma sum_list_one:
  "distinct (map f xs) \<Longrightarrow> x \<in> set xs \<Longrightarrow> sum_list (map (\<lambda>y. if f y = f x then k else 0) xs) = (k :: nat)"
proof (induction xs)
  case (Cons y ys)
  show ?case
  proof (cases "y = x")
    case True
    then have "f z \<noteq> f x" if "z \<in> set ys" for z using Cons.prems(1) that by (metis distinct.simps(2) image_eqI list.simps(9) set_map)
    then show ?thesis using True by simp
  next
    case False
    then have "x \<in> set ys" using Cons.prems(2) by simp
    then show ?thesis using Cons by auto
  qed
qed simp

lemma sum_div_ge:
  assumes "0 < (S :: nat)"
  shows "t * sum_list ps \<le> S * sum_list (map (\<lambda>p. t * p div S) ps) + length ps * (S - 1)"
proof (induction ps)
  case (Cons p ps)
  have "t * p mod S \<le> S - 1" using assms by (simp add: Suc_le_lessD less_Suc_eq_le [symmetric])
  then have "t * p \<le> S * (t * p div S) + (S - 1)" using mult_div_mod_eq [of S "t * p"] by linarith
  then show ?case using Cons by (simp add: distrib_left)
qed simp

lemma winner_portions_sum:
  assumes ok: "node_ok info"
  shows "sum_list (map (\<lambda>c. unat (winner_portion info c)) (contributors info)) \<le> unat STAKING_PORTIONS"
    and "is_fully_funded info \<Longrightarrow>
      unat STAKING_PORTIONS \<le> sum_list (map (\<lambda>c. unat (winner_portion info c)) (contributors info)) + 3"
proof -
  define rest where "rest = unat STAKING_PORTIONS - unat (portions_for_operator info)"
  define po where "po = unat (portions_for_operator info)"
  let ?req = "unat (staking_requirement info)"
  let ?f = "\<lambda>c. unat (cr_amount c) * rest div ?req"
  have po: "po \<le> unat STAKING_PORTIONS" and req: "0 < ?req"
    using ok by (simp_all add: node_ok_def word_le_nat_alt po_def unat_gt_0)
  have op: "operator_address info = cr_address (hd (contributors info))" "hd (contributors info) \<in> set (contributors info)"
      "distinct (map cr_address (contributors info))"
    using ok by (auto simp: node_ok_def)
  have "sum_list (map (\<lambda>c. unat (winner_portion info c)) (contributors info))
      = sum_list (map (\<lambda>c. ?f c + (if cr_address c = operator_address info then po else 0)) (contributors info))"
    using winner_portion_val [OF ok] by (intro arg_cong [where f = sum_list] map_cong) (simp_all add: rest_def po_def)
  also have "\<dots> = sum_list (map ?f (contributors info)) + po"
    using sum_list_one [OF op(3,2), of po] by (simp add: sum_list_addf op(1))
  finally have sum: "sum_list (map (\<lambda>c. unat (winner_portion info c)) (contributors info))
      = sum_list (map ?f (contributors info)) + po" .
  have tot: "sum_list (map (\<lambda>c. unat (cr_amount c)) (contributors info)) = unat (total_contributed info)"
    using ok by (simp add: node_ok_def)
  have "sum_list (map ?f (contributors info)) \<le> rest * unat (total_contributed info) div ?req"
    using sum_div_le [of rest ?req "map (\<lambda>c. unat (cr_amount c)) (contributors info)"] tot
    by (simp add: comp_def mult.commute)
  also have "\<dots> \<le> rest * ?req div ?req" using node_ok_total [OF ok] by (intro div_le_mono mult_le_mono2)
  also have "\<dots> = rest" using req by simp
  finally show "sum_list (map (\<lambda>c. unat (winner_portion info c)) (contributors info)) \<le> unat STAKING_PORTIONS"
    using po by (simp add: sum rest_def po_def)
  assume "is_fully_funded info"
  then have full: "unat (total_contributed info) = ?req"
    using node_ok_total [OF ok] by (simp add: is_fully_funded_def word_le_nat_alt)
  show "unat STAKING_PORTIONS \<le> sum_list (map (\<lambda>c. unat (winner_portion info c)) (contributors info)) + 3"
  proof -
    let ?s = "sum_list (map ?f (contributors info))" and ?n = "length (contributors info)"
    have "rest * ?req \<le> ?req * ?s + ?n * (?req - 1)"
      using sum_div_ge [OF req, of rest "map (\<lambda>c. unat (cr_amount c)) (contributors info)"] tot full
      by (simp add: comp_def mult.commute)
    also have "\<dots> \<le> ?req * ?s + 4 * (?req - 1)" using ok by (simp add: node_ok_def)
    also have "\<dots> < ?req * (?s + 4)" using req by (simp add: distrib_left)
    finally have "rest < ?s + 4" by (simp add: mult.commute)
    then show ?thesis using po by (simp add: sum rest_def po_def)
  qed
qed

lemma winner_info_ok:
  assumes "list_ok st" and "get_winner_addresses_and_portions st = Some ws"
  obtains (nobody) "ws = null_winner"
  | (winner) info where "find_node st (select_winner st) = Some info" "node_ok info" "is_fully_funded info"
      "ws = map (\<lambda>c. (cr_address c, winner_portion info c)) (contributors info)"
proof (cases "select_winner st = null_pkey")
  case True
  then show thesis using assms(2) nobody by (simp add: get_winner_addresses_and_portions_def)
next
  case False
  then obtain info where i: "find_node st (select_winner st) = Some info"
      "ws = map (\<lambda>c. (cr_address c, winner_portion info c)) (contributors info)"
    using assms(2) by (auto simp: get_winner_addresses_and_portions_def)
  have "is_fully_funded info"
  proof (cases st rule: select_winner_cases)
    case (winner info')
    then have "find_node st (select_winner st) = Some info'"
      using assms(1) by (simp add: list_ok_def)
    then show ?thesis using winner(2) i(1) by simp
  qed (use False in simp)
  then show thesis using i find_node_ok [OF assms(1) i(1)] by (intro winner)
qed

lemma winners_within:
  assumes "list_ok st" and "get_winner_addresses_and_portions st = Some ws"
  shows "portions_within ws"
  using assms
proof (cases rule: winner_info_ok)
  case (winner info)
  then show ?thesis using winner_portions_sum(1) by (simp add: portions_within_def comp_def)
qed (simp add: null_winner_within)

section \<open>Properties\<close>

text \<open>
  Adding a block keeps the funding of every full node consistent: in the new list the keys are
  distinct, and for every node the contributed and the reserved totals are the exact sums over its one
  to four contributors with distinct addresses, nobody contributed more than reserved, and the totals
  never exceed the staking requirement, so that no arithmetic on them wraps around.
\<close>

theorem block_added_keeps_funding:
  assumes "list_ok st" and "block_added_generic env chain b txs st = Some st'"
  shows "list_ok st' \<and> (find_node st' key = Some info \<longrightarrow>
      sum_list (map (\<lambda>c. unat (cr_amount c)) (contributors info)) = unat (total_contributed info)
    \<and> sum_list (map (\<lambda>c. unat (cr_reserved c)) (contributors info)) = unat (total_reserved info)
    \<and> unat (total_contributed info) \<le> unat (staking_requirement info)
    \<and> unat (total_reserved info) \<le> unat (staking_requirement info)
    \<and> 1 \<le> length (contributors info) \<and> length (contributors info) \<le> 4
    \<and> distinct (map cr_address (contributors info)))"
proof -
  have ok: "list_ok st'" using assms by (rule block_added_generic_ok)
  then show ?thesis
    using find_node_ok [OF ok] node_ok_total [of info] by (auto simp: node_ok_def word_le_nat_alt Suc_le_eq)
qed

definition small_node :: full_node_info where
  "small_node = empty_info\<lparr>contributors := [\<lparr>cr_version = 0, cr_amount = 100, cr_reserved = 100, cr_address = null_address,
     locked_contributions = []\<rparr>], total_contributed := 100, total_reserved := 100, staking_requirement := 100,
     operator_address := null_address, portions_for_operator := 5\<rparr>"

definition small_list :: transient_state where
  "small_list = \<lparr>full_nodes_infos = [([7], small_node)], key_image_blacklist = [], quorum_states = [],
     rollback_events = [], state_height = 3\<rparr>"

definition small_chain :: chain_view where
  "small_chain = \<lparr>nettype = FAKECHAIN, hard_fork_version = \<lambda>_. 10, block_id_by_height = \<lambda>_. [1], block_at = \<lambda>_. None,
     get_transactions = \<lambda>_. None, hardfork_9_from_height = 0, current_height = 4\<rparr>"

lemma small_list_ok: "list_ok small_list"
  by (simp add: small_list_def list_ok_def node_ok_def small_node_def STAKING_PORTIONS_def word_le_nat_alt)

definition small_crypto :: staking_crypto where
  "small_crypto = \<lparr>key_crypto = \<lparr>generate_key_derivation = \<lambda>p s. Some p, derive_public_key = \<lambda>d i p. Some p, recover_keys = \<lambda>s. (s, s)\<rparr>,
     check_key = \<lambda>_. True, check_signature = \<lambda>_ _ _. True, check_ring_signature = \<lambda>_ _ _ _. True,
     cn_fast_hash = \<lambda>_. replicate 32 1, decode_amount = \<lambda>_ _ _. 0\<rparr>"

definition coinbase_block :: "u64 \<Rightarrow> block" where
  "coinbase_block h = \<lparr>major_version = 10, minor_version = 10, timestamp = 0, prev_id = [], nonce = 0,
     miner_tx = \<lparr>version = 2, unlock_time = 0, vin = [txin_gen h], vout = [], extra = [], output_unlock_times = [],
       tx_type = 0, txnFee = 0\<rparr>, tx_hashes = []\<rparr>"

lemma small_block_added: "\<not> Option.is_none (block_added_generic small_crypto small_chain (coinbase_block 3) [] small_list)"
  by code_simp

theorem block_added_keeps_funding_witness:
  "\<exists>st'. block_added_generic small_crypto small_chain (coinbase_block 3) [] small_list = Some st' \<and> list_ok st'"
proof -
  obtain st' where st': "block_added_generic small_crypto small_chain (coinbase_block 3) [] small_list = Some st'"
    using small_block_added by (auto simp: Option.is_none_def)
  then show ?thesis using block_added_keeps_funding [OF small_list_ok st', of "[7]" small_node] by blast
qed

text \<open>
  C6. The reward portions of the winner use up the whole: for a consistent list the portions returned
  for the winning node add up to at most \<open>STAKING_PORTIONS\<close> and miss at most 3 of them to rounding.
\<close>

theorem winner_portions_complete:
  assumes "list_ok st" and "get_winner_addresses_and_portions st = Some ws"
  shows "sum_list (map (\<lambda>p. unat (snd p)) ws) \<le> unat STAKING_PORTIONS
    \<and> unat STAKING_PORTIONS \<le> sum_list (map (\<lambda>p. unat (snd p)) ws) + 3"
  using assms
proof (cases rule: winner_info_ok)
  case (winner info)
  then show ?thesis using winner_portions_sum by (simp add: comp_def)
qed (simp add: null_winner_def)

theorem winner_portions_complete_witness:
  "\<exists>ws. get_winner_addresses_and_portions small_list = Some ws
     \<and> unat STAKING_PORTIONS \<le> sum_list (map (\<lambda>p. unat (snd p)) ws) + 3"
proof -
  have "select_winner small_list = [7]" by code_simp
  moreover have "find_node small_list [7] = Some small_node" by (simp add: small_list_def)
  ultimately obtain ws where ws: "get_winner_addresses_and_portions small_list = Some ws"
    by (cases "[7] = null_pkey") (simp_all add: get_winner_addresses_and_portions_def)
  then show ?thesis using winner_portions_complete [OF small_list_ok ws] by blast
qed

end
