(* ===== verification/Rollback.thy ===== *)
theory Rollback
  imports Funding
begin

text \<open>
  Rolling back the full node list: undoing the events of a block restores the nodes and the blacklist
  the list had before it.
\<close>

section \<open>What is restored\<close>

text \<open>The nodes as a map, and the blacklisted key images with their unlock heights as a multiset.\<close>

definition blacklisted :: "key_image_blacklist_entry list \<Rightarrow> (key_image \<times> u64) multiset" where
  "blacklisted l = mset (map (\<lambda>e. (be_key_image e, be_unlock_height e)) l)"

definition same_view :: "transient_state \<Rightarrow> transient_state \<Rightarrow> bool" where
  "same_view s t \<longleftrightarrow> map_of (full_nodes_infos s) = map_of (full_nodes_infos t)
     \<and> blacklisted (key_image_blacklist s) = blacklisted (key_image_blacklist t)"

fun undo_list :: "rollback_event list \<Rightarrow> transient_state \<Rightarrow> transient_state option" where
  "undo_list [] st = Some st"
| "undo_list (e # es) st = do { st \<leftarrow> undo_event e st; undo_list es st }"

lemma same_view_refl [simp]: "same_view s s"
  by (simp add: same_view_def)

lemma same_view_trans: "same_view s t \<Longrightarrow> same_view t u \<Longrightarrow> same_view s u"
  by (simp add: same_view_def)

lemma blacklisted_simps [simp]:
  "blacklisted [] = {#}" "blacklisted (e # l) = add_mset (be_key_image e, be_unlock_height e) (blacklisted l)"
  "blacklisted (l @ l') = blacklisted l + blacklisted l'"
  by (simp_all add: blacklisted_def)

lemma nodes_simps [simp]:
  "map_of (full_nodes_infos (put_node k i st)) = (map_of (full_nodes_infos st))(k \<mapsto> i)"
  "map_of (full_nodes_infos (erase_node k st)) = (map_of (full_nodes_infos st))(k := None)"
  "full_nodes_infos (push_event e st) = full_nodes_infos st"
  "key_image_blacklist (put_node k i st) = key_image_blacklist st"
  "key_image_blacklist (erase_node k st) = key_image_blacklist st"
  "key_image_blacklist (push_event e st) = key_image_blacklist st"
  "rollback_events (put_node k i st) = rollback_events st"
  "rollback_events (erase_node k st) = rollback_events st"
  "rollback_events (push_event e st) = rollback_events st @ [e]"
  "quorum_states (put_node k i st) = quorum_states st"
  "quorum_states (erase_node k st) = quorum_states st"
  "quorum_states (push_event e st) = quorum_states st"
  by (simp_all add: put_node_def erase_node_def push_event_def update_conv' delete_conv')

lemma remove_first_None:
  "remove_first (\<lambda>a. u = be_unlock_height a \<and> k = be_key_image a) l = None \<longleftrightarrow> (k, u) \<notin># blacklisted l"
  by (induction l) auto

lemma remove_first_Some:
  "remove_first (\<lambda>a. u = be_unlock_height a \<and> k = be_key_image a) l = Some l' \<Longrightarrow> blacklisted l = add_mset (k, u) (blacklisted l')"
  by (induction l arbitrary: l') (auto split: if_splits)

lemma remove_first_found:
  "(k, u) \<in># blacklisted l \<Longrightarrow> \<exists>l'. remove_first (\<lambda>a. u = be_unlock_height a \<and> k = be_key_image a) l = Some l'"
  using remove_first_None by fastforce

lemma undo_event_same_view:
  assumes "same_view s t" and "undo_event e t = Some t'"
  shows "\<exists>s'. undo_event e s = Some s' \<and> same_view s' t'"
proof (cases e)
  case (rollback_key_image_blacklist h entry adding)
  show ?thesis
  proof (cases adding)
    case True
    obtain l where l: "remove_first (\<lambda>a. be_unlock_height entry = be_unlock_height a \<and> be_key_image entry = be_key_image a)
        (key_image_blacklist t) = Some l" "t' = t\<lparr>key_image_blacklist := l\<rparr>"
      using assms(2) True rollback_key_image_blacklist by auto
    note t = remove_first_Some [OF l(1)]
    then have "(be_key_image entry, be_unlock_height entry) \<in># blacklisted (key_image_blacklist s)"
      using assms(1) by (simp add: same_view_def)
    from remove_first_found [OF this] obtain l' where l': "remove_first (\<lambda>a. be_unlock_height entry = be_unlock_height a
        \<and> be_key_image entry = be_key_image a) (key_image_blacklist s) = Some l'" by blast
    have "blacklisted l' = blacklisted l" using remove_first_Some [OF l'] t assms(1) by (simp add: same_view_def)
    then show ?thesis using assms(1) True rollback_key_image_blacklist l(2) l' by (simp add: same_view_def)
  qed (use assms rollback_key_image_blacklist in \<open>auto simp: same_view_def\<close>)
qed (use assms in \<open>auto simp: same_view_def split: if_splits\<close>)

lemma undo_list_same_view:
  assumes "same_view s t" and "undo_list es t = Some t'"
  shows "\<exists>s'. undo_list es s = Some s' \<and> same_view s' t'"
  using assms
proof (induction es arbitrary: s t)
  case (Cons e es)
  then obtain t1 where "undo_event e t = Some t1" "undo_list es t1 = Some t'" by (auto simp: bind_eq_Some_conv)
  with undo_event_same_view [OF Cons.prems(1)] Cons.IH show ?case by fastforce
qed simp

lemma undo_list_append: "undo_list (es @ es') st = undo_list es st \<bind> undo_list es'"
  by (induction es arbitrary: st) (auto split: bind_splits)

section \<open>Reversible steps\<close>

definition reversible :: "u64 \<Rightarrow> transient_state \<Rightarrow> transient_state \<Rightarrow> bool" where
  "reversible h st st' \<longleftrightarrow> quorum_states st' = quorum_states st \<and> (\<exists>es. rollback_events st' = rollback_events st @ es \<and> (\<forall>e \<in> set es. m_block_height e = h)
     \<and> (\<exists>s. undo_list (rev es) st' = Some s \<and> same_view s st))"

lemma reversible_refl [simp]: "reversible h st st"
  unfolding reversible_def by (intro conjI exI [of _ "[]"]) simp_all

lemma reversible_trans:
  assumes "reversible h st st1" and "reversible h st1 st2"
  shows "reversible h st st2"
proof -
  have q: "quorum_states st2 = quorum_states st" using assms by (simp add: reversible_def)
  obtain es1 s1 where 1: "rollback_events st1 = rollback_events st @ es1" "\<forall>e \<in> set es1. m_block_height e = h"
      "undo_list (rev es1) st1 = Some s1" "same_view s1 st" using assms(1) by (auto simp: reversible_def)
  obtain es2 s2 where 2: "rollback_events st2 = rollback_events st1 @ es2" "\<forall>e \<in> set es2. m_block_height e = h"
      "undo_list (rev es2) st2 = Some s2" "same_view s2 st1" using assms(2) by (auto simp: reversible_def)
  obtain s where s: "undo_list (rev es1) s2 = Some s" "same_view s s1" using undo_list_same_view [OF 2(4) 1(3)] by blast
  have "undo_list (rev (es1 @ es2)) st2 = Some s" using 2(3) s(1) by (simp add: undo_list_append)
  moreover have "same_view s st" using s(2) 1(4) by (rule same_view_trans)
  ultimately show ?thesis
    unfolding reversible_def using 1(1,2) 2(1,2) q by (intro conjI exI [of _ "es1 @ es2"]) auto
qed

lemma reversible_step:
  assumes "rollback_events st' = rollback_events st @ [e]" and "m_block_height e = h"
    and "\<exists>s. undo_event e st' = Some s \<and> same_view s st" and "quorum_states st' = quorum_states st"
  shows "reversible h st st'"
  unfolding reversible_def using assms by (intro conjI exI [of _ "[e]"]) auto



lemma reversible_change:
  "find_node st k = Some info \<Longrightarrow> reversible h st (put_node k info' (push_event (rollback_change h k info) st))"
  by (rule reversible_step [where e = "rollback_change h k info"]) (auto simp: same_view_def)

lemma reversible_erase:
  "find_node st k = Some info \<Longrightarrow> reversible h st (erase_node k (push_event (rollback_change h k info) st))"
  by (rule reversible_step [where e = "rollback_change h k info"]) (auto simp: same_view_def)

lemma reversible_new:
  "find_node st k = None \<Longrightarrow> reversible h st (put_node k info (push_event (rollback_new h k) st))"
  by (rule reversible_step [where e = "rollback_new h k"]) (auto simp: same_view_def fun_upd_idem)

lemma reversible_unlock:
  assumes "find_node st k = Some info" and "requested_unlock_height info = KEY_IMAGE_AWAITING_UNLOCK_HEIGHT"
  shows "reversible h st (put_node k (info\<lparr>requested_unlock_height := u\<rparr>) (push_event (rollback_key_image_unlock h k) st))"
proof -
  have "info\<lparr>requested_unlock_height := KEY_IMAGE_AWAITING_UNLOCK_HEIGHT\<rparr> = info" using assms(2) by (cases info) simp
  then show ?thesis
    using assms(1) by (intro reversible_step [where e = "rollback_key_image_unlock h k"]) (auto simp: same_view_def fun_upd_idem)
qed

lemma reversible_blacklist:
  "reversible h st (push_event (rollback_key_image_blacklist h entry True) (st\<lparr>key_image_blacklist := key_image_blacklist st @ [entry]\<rparr>))"
proof -
  have "(be_key_image entry, be_unlock_height entry) \<in># blacklisted (key_image_blacklist st @ [entry])" by simp
  from remove_first_found [OF this] obtain l where l: "remove_first (\<lambda>a. be_unlock_height entry = be_unlock_height a
      \<and> be_key_image entry = be_key_image a) (key_image_blacklist st @ [entry]) = Some l" by blast
  then show ?thesis
    using remove_first_Some [OF l]
    by (intro reversible_step [where e = "rollback_key_image_blacklist h entry True"]) (simp_all add: same_view_def push_event_def)
qed

lemma reversible_blacklist_key_images: "reversible h st (blacklist_key_images net h info st)"
proof -
  have "reversible h st (fold (\<lambda>c st. let entry = (f :: contribution_t \<Rightarrow> _) c in push_event (rollback_key_image_blacklist h entry True)
      (st\<lparr>key_image_blacklist := key_image_blacklist st @ [entry]\<rparr>)) cs st)" for cs f
    by (induction cs arbitrary: st) (auto simp: Let_def intro: reversible_trans [OF reversible_blacklist])
  then show ?thesis by (simp add: blacklist_key_images_def)
qed

text \<open>Erasing a node commutes with blacklisting its key images, so it may come first.\<close>

lemma blacklist_erase: "erase_node key (blacklist_key_images net h info st) = blacklist_key_images net h info (erase_node key st)"
proof -
  have step: "erase_node key (push_event e (st\<lparr>key_image_blacklist := key_image_blacklist st @ [entry]\<rparr>))
      = push_event e ((erase_node key st)\<lparr>key_image_blacklist := key_image_blacklist (erase_node key st) @ [entry]\<rparr>)" for e entry st
    by (cases st) (simp add: push_event_def erase_node_def)
  have "erase_node key (fold (\<lambda>c st. let entry = (f :: contribution_t \<Rightarrow> _) c in push_event (rollback_key_image_blacklist h entry True)
      (st\<lparr>key_image_blacklist := key_image_blacklist st @ [entry]\<rparr>)) cs st)
    = fold (\<lambda>c st. let entry = f c in push_event (rollback_key_image_blacklist h entry True)
      (st\<lparr>key_image_blacklist := key_image_blacklist st @ [entry]\<rparr>)) cs (erase_node key st)" for cs f
    by (induction cs arbitrary: st) (simp_all add: Let_def step)
  then show ?thesis by (simp add: blacklist_key_images_def)
qed

lemma reversible_deregistration: "reversible h st (snd (process_deregistration_tx chain tx h st))"
proof (cases "find_deregistered_node tx st")
  case (Some kv)
  then obtain key info where kv: "kv = (key, info)" "find_node st key = Some info"
    by (auto simp: find_deregistered_node_def bind_eq_Some_conv Let_def split: if_splits)
  let ?st1 = "push_event (rollback_change h key info) st"
  have e: "reversible h st (erase_node key ?st1)" using kv(2) by (rule reversible_erase)
  have "reversible h st (erase_node key (blacklist_key_images net h info ?st1))" for net
    unfolding blacklist_erase by (rule reversible_trans [OF e reversible_blacklist_key_images])
  then show ?thesis using Some kv e by (simp add: process_deregistration_tx_def Let_def)
qed (simp add: process_deregistration_tx_def)

lemma reversible_registration:
  assumes "hard_fork_version chain h \<noteq> 10"
  shows "reversible h st (snd (process_registration_tx env chain tx ts h i st))"
proof (cases "is_registration_tx env chain tx ts h i empty_info")
  case (Some kv)
  have "\<not> network_version_10_bulletproofs \<le> hard_fork_version chain h \<or> network_version_11_infinite_staking \<le> hard_fork_version chain h"
    using assms by (auto simp: network_version_10_bulletproofs_def network_version_11_infinite_staking_def word_le_nat_alt
        word_unat_eq_iff)
  then show ?thesis
    using Some by (cases kv) (auto simp: process_registration_tx_def Let_def reversible_new split: option.splits)
qed (simp add: process_registration_tx_def)

lemma reversible_contribution: "reversible h st (process_contribution_tx env chain tx h i st)"
  by (auto simp: process_contribution_tx_def Let_def reversible_change split: option.splits)

lemma reversible_key_image_unlock: "reversible h st (process_key_image_unlock_tx env chain tx h st)"
  unfolding process_key_image_unlock_tx_def
  by (auto simp: bind_eq_Some_conv reversible_unlock split: option.splits if_splits)

lemma reversible_process_txs:
  assumes "hard_fork_version chain h \<noteq> 10"
  shows "reversible h (snd (snd acc)) (snd (snd (process_txs env chain ts h i txs acc)))"
proof (induction txs arbitrary: i acc)
  case (Cons tx txs)
  obtain r d st where acc: "acc = (r, d, st)" by (metis prod_cases3)
  have std: "reversible h st (process_contribution_tx env chain tx h i (snd (process_registration_tx env chain tx ts h i st)))"
    by (rule reversible_trans [OF reversible_registration [OF assms] reversible_contribution])
  define acc' where "acc' = (case get_type tx of
          type_standard \<Rightarrow>
            let (registered, st) = process_registration_tx env chain tx ts h i st
            in (if registered then Suc r else r, d, process_contribution_tx env chain tx h i st)
        | type_deregister \<Rightarrow>
            let (deregistered, st) = process_deregistration_tx chain tx h st
            in (r, if deregistered then Suc d else d, st)
        | type_key_image_unlock \<Rightarrow> (r, d, process_key_image_unlock_tx env chain tx h st)
        | type_count \<Rightarrow> (r, d, st))"
  have "reversible h st (snd (snd acc'))"
    using std reversible_deregistration [of h st chain tx] reversible_key_image_unlock
    by (auto simp: acc'_def case_prod_beta Let_def split: type_t.splits)
  then show ?case
    using Cons.IH [of acc' "i + 1"] reversible_trans by (simp add: acc acc'_def [symmetric])
qed simp

lemma reversible_expire: "reversible h (snd acc) (snd (fold (expire_node h) keys acc))"
proof (induction keys arbitrary: acc)
  case (Cons key keys)
  have "reversible h (snd acc) (snd (expire_node h key acc))"
    by (cases acc) (auto simp: expire_node_def reversible_erase split: option.splits)
  then show ?case using Cons.IH [of "expire_node h key acc"] reversible_trans by simp
qed simp

lemma reversible_winner: "reversible h st (advance_winner h key st)"
  by (auto simp: advance_winner_def reversible_change split: option.splits)

lemma reversible_move_all: "move_all h ms st = Some st' \<Longrightarrow> reversible h st st'"
proof (induction ms arbitrary: st)
  case (Cons m ms)
  then obtain st1 where m: "move_to_swarm h m st = Some st1" and rest: "move_all h ms st1 = Some st'"
    by (auto simp: bind_eq_Some_conv)
  have "reversible h st st1"
    using m by (cases m) (auto simp: move_to_swarm_def bind_eq_Some_conv reversible_change split: if_splits)
  then show ?case using Cons.IH [OF rest] reversible_trans by blast
qed simp

lemma reversible_update_swarms: "update_swarms chain h st = Some st' \<Longrightarrow> reversible h st st'"
  by (auto simp: update_swarms_def bind_eq_Some_conv dest: reversible_move_all)

lemma expire_blacklist_filter:
  "expire_blacklist h l = (filter (\<lambda>e. \<not> be_unlock_height e \<le> h) l,
     map (\<lambda>e. rollback_key_image_blacklist h e False) (filter (\<lambda>e. be_unlock_height e \<le> h) l))"
  by (induction l) (simp_all add: case_prod_beta)

lemma undo_removed: "undo_list (map (\<lambda>e. rollback_key_image_blacklist h e False) l) st
    = Some (st\<lparr>key_image_blacklist := key_image_blacklist st @ l\<rparr>)"
  by (induction l arbitrary: st) simp_all

lemma reversible_remove_expired: "reversible h st (remove_expired_key_images h st)"
proof -
  let ?P = "\<lambda>e. be_unlock_height e \<le> h"
  let ?l = "key_image_blacklist st"
  have "blacklisted (filter (\<lambda>e. \<not> ?P e) l) + blacklisted (rev (filter ?P l)) = blacklisted l"
    for l by (induction l) (auto simp: blacklisted_def)
  then show ?thesis
    unfolding reversible_def remove_expired_key_images_def expire_blacklist_filter
    by (intro conjI exI [of _ "map (\<lambda>e. rollback_key_image_blacklist h e False) (filter ?P ?l)"])
      (auto simp: rev_map undo_removed same_view_def)
qed

section \<open>Blocks\<close>

text \<open>
  \<open>undoable h st0 st\<close>: undoing the events of \<open>st\<close> at heights from \<open>h\<close> on gives back what \<open>st0\<close> had, and the
  quorums of \<open>st\<close> are those of \<open>st0\<close> without the first \<open>n\<close>, followed by some at heights from \<open>h\<close> on.
\<close>

definition events_undoable :: "u64 \<Rightarrow> transient_state \<Rightarrow> transient_state \<Rightarrow> bool" where
  "events_undoable h st0 st \<longleftrightarrow> (\<exists>old es s. rollback_events st = old @ es \<and> (\<forall>e \<in> set old. m_block_height e < h)
     \<and> (\<forall>e \<in> set es. h \<le> m_block_height e) \<and> undo_list (rev es) st = Some s \<and> same_view s st0)"

definition quorums_undoable :: "u64 \<Rightarrow> (u64 \<times> quorum_state) list \<Rightarrow> (u64 \<times> quorum_state) list \<Rightarrow> bool" where
  "quorums_undoable h qs0 qs \<longleftrightarrow> (\<exists>n new. qs = drop n qs0 @ new \<and> (\<forall>p \<in> set new. h \<le> fst p)
     \<and> (\<forall>p \<in> set (take n qs0). unat (fst p) + unat QUORUM_LIFETIME < unat h + 30))"

lemma events_undoable_start: "\<forall>e \<in> set (rollback_events st). m_block_height e < h \<Longrightarrow> events_undoable h st st"
  unfolding events_undoable_def by (intro exI [of _ "rollback_events st"] exI [of _ "[]"]) simp

lemma events_undoable_reversible:
  assumes "events_undoable h st0 st" and "reversible h' st st'" and "h \<le> h'"
  shows "events_undoable h st0 st'"
proof -
  obtain old es s where 1: "rollback_events st = old @ es" "\<forall>e \<in> set old. m_block_height e < h"
      "\<forall>e \<in> set es. h \<le> m_block_height e" "undo_list (rev es) st = Some s" "same_view s st0"
    using assms(1) by (auto simp: events_undoable_def)
  obtain es2 s2 where 2: "rollback_events st' = rollback_events st @ es2" "\<forall>e \<in> set es2. m_block_height e = h'"
      "undo_list (rev es2) st' = Some s2" "same_view s2 st" using assms(2) by (auto simp: reversible_def)
  obtain s3 where s3: "undo_list (rev es) s2 = Some s3" "same_view s3 s" using undo_list_same_view [OF 2(4) 1(4)] by blast
  have "undo_list (rev (es @ es2)) st' = Some s3" using 2(3) s3(1) by (simp add: undo_list_append)
  moreover have "same_view s3 st0" using s3(2) 1(5) by (rule same_view_trans)
  ultimately show ?thesis
    unfolding events_undoable_def using 1(1-3) 2(1,2) assms(3)
    by (intro exI [of _ old] exI [of _ "es @ es2"] exI [of _ s3]) auto
qed

lemma events_undoable_view:
  assumes "events_undoable h st0 st" and "rollback_events st' = rollback_events st" and "same_view st' st"
  shows "events_undoable h st0 st'"
proof -
  have "reversible h st (st'\<lparr>quorum_states := quorum_states st\<rparr>)"
    unfolding reversible_def using assms(2,3) by (intro conjI exI [of _ "[]"]) (simp_all add: same_view_def)
  from events_undoable_reversible [OF assms(1) this order_refl]
  obtain old es s where 1: "rollback_events st' = old @ es" "\<forall>e \<in> set old. m_block_height e < h"
      "\<forall>e \<in> set es. h \<le> m_block_height e" "undo_list (rev es) (st'\<lparr>quorum_states := quorum_states st\<rparr>) = Some s" "same_view s st0"
    by (auto simp: events_undoable_def)
  have "same_view st' (st'\<lparr>quorum_states := quorum_states st\<rparr>)" by (simp add: same_view_def)
  from undo_list_same_view [OF this 1(4)] obtain s' where "undo_list (rev es) st' = Some s'" "same_view s' s" by blast
  with 1 show ?thesis unfolding events_undoable_def using same_view_trans by blast
qed

text \<open>Culling drops only events older than 30 blocks, and puts an older event in front.\<close>

lemma dropWhile_old_new:
  assumes "\<forall>x \<in> set new. \<not> P x"
  shows "dropWhile P (old @ new) = dropWhile P old @ new"
  using assms by (induction old) (auto simp: dropWhile_eq_self_iff dest: hd_in_set)

lemma events_undoable_cull:
  assumes "events_undoable h st0 st" and "30 \<le> unat h" and "h \<le> h'" and "unat h' < unat h + 30"
  shows "events_undoable h st0 (cull_rollback_events h' st)"
proof -
  obtain old es s where 1: "rollback_events st = old @ es" "\<forall>e \<in> set old. m_block_height e < h"
      "\<forall>e \<in> set es. h \<le> m_block_height e" "undo_list (rev es) st = Some s" "same_view s st0"
    using assms(1) by (auto simp: events_undoable_def)
  let ?c = "h' - 30"
  let ?old = "prevent_rollback ?c # dropWhile (\<lambda>e. m_block_height e < ?c) old"
  have h': "\<not> h' < ROLLBACK_EVENT_EXPIRATION_BLOCKS" "(30 :: u64) \<le> h'"
    using assms(2,3) by (simp_all add: ROLLBACK_EVENT_EXPIRATION_BLOCKS_def word_less_nat_alt word_le_nat_alt)
  have c: "?c < h" using assms(2,4) unat_sub [OF h'(2)] by (simp add: word_less_nat_alt)
  have "\<forall>e \<in> set es. \<not> m_block_height e < ?c" using 1(3) c by fastforce
  then have e: "rollback_events (cull_rollback_events h' st) = ?old @ es"
    using h'(1) 1(1) dropWhile_old_new [of es "\<lambda>e. m_block_height e < ?c" old]
    by (simp add: cull_rollback_events_def ROLLBACK_EVENT_EXPIRATION_BLOCKS_def Let_def)
  have o: "\<forall>e \<in> set ?old. m_block_height e < h" using c 1(2) set_dropWhileD by fastforce
  have "same_view (cull_rollback_events h' st) st" by (simp add: same_view_def cull_rollback_events_def Let_def)
  from undo_list_same_view [OF this 1(4)] obtain s' where "undo_list (rev es) (cull_rollback_events h' st) = Some s'" "same_view s' s"
    by blast
  then show ?thesis unfolding events_undoable_def using e o 1(3,5) same_view_trans by blast
qed

lemma set_quorum_old: "\<forall>p \<in> set old. fst p < h \<Longrightarrow> set_quorum h q (old @ new) = old @ set_quorum h q new"
  by (induction old) auto

lemma set_set_quorum: "set (set_quorum h q qs) \<subseteq> insert (h, q) (set qs)"
  by (induction h q qs rule: set_quorum.induct) auto

lemma quorums_undoable_set:
  assumes "quorums_undoable h qs0 qs" and "\<forall>p \<in> set qs0. fst p < h" and "h \<le> h'"
  shows "quorums_undoable h qs0 (set_quorum h' q qs)"
proof -
  obtain n new where 1: "qs = drop n qs0 @ new" "\<forall>p \<in> set new. h \<le> fst p"
      "\<forall>p \<in> set (take n qs0). unat (fst p) + unat QUORUM_LIFETIME < unat h + 30"
    using assms(1) by (auto simp: quorums_undoable_def)
  have "\<forall>p \<in> set (drop n qs0). fst p < h'" using assms(2,3) in_set_dropD by fastforce
  then have e: "set_quorum h' q qs = drop n qs0 @ set_quorum h' q new" unfolding 1(1) by (rule set_quorum_old)
  have "\<forall>p \<in> set (set_quorum h' q new). h \<le> fst p" using 1(2) assms(3) set_set_quorum [of h' q new] by auto
  with e 1(3) show ?thesis unfolding quorums_undoable_def by blast
qed

lemma dropWhile_is_drop: "\<exists>m. dropWhile P l = drop m l \<and> (\<forall>x \<in> set (take m l). P x)"
proof (intro exI conjI)
  show "dropWhile P l = drop (length (takeWhile P l)) l" by (rule dropWhile_eq_drop)
  show "\<forall>x \<in> set (take (length (takeWhile P l)) l). P x"
    unfolding takeWhile_eq_take [symmetric] by (auto dest: set_takeWhileD)
qed

lemma quorums_undoable_drop:
  assumes "quorums_undoable h qs0 qs" and "unat h' < unat h + 30"
  shows "quorums_undoable h qs0 (dropWhile (\<lambda>(k, _). k < (if h' < QUORUM_LIFETIME then 0 else h' - QUORUM_LIFETIME)) qs)"
proof -
  let ?P = "\<lambda>p. fst p < (if h' < QUORUM_LIFETIME then 0 else h' - QUORUM_LIFETIME)"
  obtain n new where 1: "qs = drop n qs0 @ new" "\<forall>p \<in> set new. h \<le> fst p"
      "\<forall>p \<in> set (take n qs0). unat (fst p) + unat QUORUM_LIFETIME < unat h + 30"
    using assms(1) by (auto simp: quorums_undoable_def)
  have P: "unat (fst p) + unat QUORUM_LIFETIME < unat h + 30" if "?P p" for p :: "u64 \<times> quorum_state"
  proof (cases "h' < QUORUM_LIFETIME")
    case False
    then have "unat (h' - QUORUM_LIFETIME) = unat h' - unat QUORUM_LIFETIME" by (intro unat_sub) simp
    moreover have "unat (fst p) < unat (h' - QUORUM_LIFETIME)" using that False by (simp only: word_less_nat_alt if_False)
    ultimately show ?thesis using assms(2) by linarith
  qed (use that in simp)
  have l: "unat QUORUM_LIFETIME = 360" by (simp add: QUORUM_LIFETIME_def BLOCKS_EXPECTED_IN_HOURS_def)
  have "\<forall>p \<in> set new. \<not> ?P p"
  proof
    fix p assume "p \<in> set new"
    with 1(2) have "h \<le> fst p" by blast
    then have "\<not> unat (fst p) + unat QUORUM_LIFETIME < unat h + 30" unfolding l word_le_nat_alt by linarith
    then show "\<not> ?P p" using P by (rule contrapos_nn)
  qed
  then have d: "dropWhile ?P qs = dropWhile ?P (drop n qs0) @ new" unfolding 1(1) by (rule dropWhile_old_new)
  obtain m where m: "dropWhile ?P (drop n qs0) = drop m (drop n qs0)" "\<forall>p \<in> set (take m (drop n qs0)). ?P p"
    using dropWhile_is_drop [of ?P "drop n qs0"] by (elim exE conjE)
  have "dropWhile ?P qs = drop (n + m) qs0 @ new" using d m(1) by (simp add: add.commute)
  moreover have "\<forall>p \<in> set (take (n + m) qs0). unat (fst p) + unat QUORUM_LIFETIME < unat h + 30"
    using 1(3) m(2) P by (auto simp: take_add)
  ultimately show ?thesis unfolding quorums_undoable_def case_prod_beta' using 1(2) by (intro exI [of _ "n + m"] exI [of _ new]) simp
qed

lemma store_quorum_cases:
  "store_quorum_state_from_rewards_list chain h st = Some st' \<Longrightarrow>
     st' = st \<or> (\<exists>q. st' = st\<lparr>quorum_states := set_quorum h q (quorum_states st)\<rparr>)"
  by (auto simp: store_quorum_state_from_rewards_list_def Let_def bind_eq_Some_conv split: if_splits)

definition undoable :: "u64 \<Rightarrow> transient_state \<Rightarrow> transient_state \<Rightarrow> bool" where
  "undoable h st0 st \<longleftrightarrow> events_undoable h st0 st \<and> quorums_undoable h (quorum_states st0) (quorum_states st)"

lemma undoable_block:
  assumes u: "undoable h st0 st" and q0: "\<forall>p \<in> set (quorum_states st0). fst p < h" and h30: "30 \<le> unat h"
    and b: "h \<le> get_block_height b" "unat (get_block_height b) < unat h + 30"
    and hf: "hard_fork_version chain (get_block_height b) \<noteq> 10"
    and ok: "block_added_generic env chain b txs st = Some st'"
  shows "undoable h st0 st'"
proof (cases "hard_fork_version chain (get_block_height b) < 9")
  case True
  then show ?thesis using u ok by (simp add: block_added_generic_def)
next
  case False
  define h' where "h' = get_block_height b"
  note b = b [folded h'_def] and hf = hf [folded h'_def]
  from block_added_cases [OF ok False, folded h'_def]
  obtain s0 n s1 s2 r d s3 s4 s5
  where 0: "s0 = remove_expired_key_images h' (cull_rollback_events h' (st\<lparr>state_height := state_height st + 1\<rparr>))"
    and 1: "fold (expire_node h') (update_and_get_expired_nodes env chain h' s0) (0, s0) = (n, s1)"
    and 2: "s2 = advance_winner h' (get_full_node_winner_from_tx_extra (extra (miner_tx b))) s1"
    and 3: "process_txs env chain (timestamp b) h' 0 txs (0, 0, s2) = (r, d, s3)"
    and 4: "s4 = s3 \<or> update_swarms chain h' s3 = Some s4"
    and 5: "store_quorum_state_from_rewards_list chain h' s4 = Some s5"
    and 6: "st' = s5\<lparr>quorum_states := dropWhile (\<lambda>(k, _). k < (if h' < QUORUM_LIFETIME then 0 else h' - QUORUM_LIFETIME)) (quorum_states s5)\<rparr>"
    by metis
  let ?c = "cull_rollback_events h' (st\<lparr>state_height := state_height st + 1\<rparr>)"
  have r1: "reversible h' ?c s0" unfolding 0 by (rule reversible_remove_expired)
  have r2: "reversible h' s0 s1" using reversible_expire [of h' "(0, s0)" "update_and_get_expired_nodes env chain h' s0"] by (simp add: 1)
  have r3: "reversible h' s1 s2" unfolding 2 by (rule reversible_winner)
  have r4: "reversible h' s2 s3" using reversible_process_txs [OF hf, of "(0, 0, s2)" env "timestamp b" 0 txs] by (simp add: 3)
  have r5: "reversible h' s3 s4" using 4 reversible_update_swarms by (elim disjE) simp_all
  have r: "reversible h' ?c s4" by (rule reversible_trans [OF reversible_trans [OF reversible_trans [OF reversible_trans [OF r1 r2] r3] r4] r5])
  have "events_undoable h st0 (st\<lparr>state_height := state_height st + 1\<rparr>)"
    by (rule events_undoable_view [of _ _ st]) (use u in \<open>simp_all add: undoable_def same_view_def\<close>)
  then have e: "events_undoable h st0 s4"
    by (rule events_undoable_reversible [OF events_undoable_cull r b(1)]) (rule h30 b)+
  have "quorum_states s4 = quorum_states st" using r by (simp add: reversible_def cull_rollback_events_def Let_def)
  then have "quorums_undoable h (quorum_states st0) (quorum_states s4)" using u by (simp add: undoable_def)
  then have "quorums_undoable h (quorum_states st0) (quorum_states s5)"
    using store_quorum_cases [OF 5] quorums_undoable_set [OF _ q0 b(1)] by auto
  then have "quorums_undoable h (quorum_states st0) (quorum_states st')"
    unfolding 6 using quorums_undoable_drop [OF _ b(2)] by simp
  moreover have "events_undoable h st0 st'"
    by (rule events_undoable_view [OF e]) (use 6 store_quorum_cases [OF 5] in \<open>auto simp: same_view_def\<close>)
  ultimately show ?thesis by (simp add: undoable_def)
qed

lemma undoable_scan:
  assumes "undoable h st0 st" and "\<forall>p \<in> set (quorum_states st0). fst p < h" and "30 \<le> unat h"
    and "\<forall>b \<in> set bs. h \<le> get_block_height b \<and> unat (get_block_height b) < unat h + 30
      \<and> hard_fork_version chain (get_block_height b) \<noteq> 10"
    and "scan_blocks env chain bs st = Some (ok, st')"
  shows "undoable h st0 st'"
  using assms(1,4,5)
proof (induction bs arbitrary: st)
  case (Cons b bs)
  show ?case
  proof (cases "get_transactions chain (tx_hashes b)")
    case (Some txs)
    then obtain st1 where st1: "block_added_generic env chain b txs st = Some st1" "scan_blocks env chain bs st1 = Some (ok, st')"
      using Cons.prems(3) by (auto simp: bind_eq_Some_conv)
    have "undoable h st0 st1"
      by (rule undoable_block [OF Cons.prems(1) assms(2,3) _ _ _ st1(1)]) (use Cons.prems(2) in simp_all)
    then show ?thesis using Cons.IH [OF _ _ st1(2)] Cons.prems(2) by simp
  qed (use Cons.prems in simp)
qed simp

section \<open>Detaching\<close>

lemma undo_event_keeps: "undo_event e st = Some st' \<Longrightarrow> quorum_states st' = quorum_states st"
  by (cases e) (auto split: if_splits)

lemma undo_events_undo_list:
  "undo_list es st = Some s \<Longrightarrow> \<forall>e \<in> set es. h \<le> m_block_height e \<Longrightarrow>
     undo_events h (es @ es') st = undo_events h es' s \<and> quorum_states s = quorum_states st"
  by (induction es arbitrary: st) (auto simp: bind_eq_Some_conv dest: undo_event_keeps)

lemma undo_events_old: "\<forall>e \<in> set es. m_block_height e < h \<Longrightarrow> undo_events h es st = (True, st\<lparr>rollback_events := rev es\<rparr>)"
  by (cases es) auto

lemma rev_dropWhile_rev:
  assumes "\<forall>x \<in> set new. P x" and "\<forall>x \<in> set old. \<not> P x"
  shows "rev (dropWhile P (rev (old @ new))) = old"
proof -
  have "dropWhile P (rev new @ rev old) = dropWhile P (rev old)" by (rule dropWhile_append2) (use assms(1) in simp)
  moreover have "dropWhile P (rev old) = rev old" using assms(2) by (cases old rule: rev_cases) simp_all
  ultimately show ?thesis by simp
qed

lemma undoable_detached:
  assumes "undoable h st0 st" and "\<forall>p \<in> set (quorum_states st0). fst p < h"
  obtains st' n where "blockchain_detached env chain stored h st = Some st'" and "same_view st' st0"
    and "quorum_states st' = drop n (quorum_states st0)"
    and "\<forall>p \<in> set (take n (quorum_states st0)). unat (fst p) + unat QUORUM_LIFETIME < unat h + 30"
    and "state_height st' = h" and "\<forall>e \<in> set (rollback_events st'). m_block_height e < h"
proof -
  obtain old es s where 1: "rollback_events st = old @ es" "\<forall>e \<in> set old. m_block_height e < h"
      "\<forall>e \<in> set es. h \<le> m_block_height e" "undo_list (rev es) st = Some s" "same_view s st0"
    using assms(1) by (auto simp: undoable_def events_undoable_def)
  obtain n new where 2: "quorum_states st = drop n (quorum_states st0) @ new" "\<forall>p \<in> set new. h \<le> fst p"
      "\<forall>p \<in> set (take n (quorum_states st0)). unat (fst p) + unat QUORUM_LIFETIME < unat h + 30"
    using assms(1) by (auto simp: undoable_def quorums_undoable_def)
  have u: "undo_events h (rev (rollback_events st)) st = (True, s\<lparr>rollback_events := old\<rparr>)"
    and q: "quorum_states s = quorum_states st"
    using undo_events_undo_list [OF 1(4), of h "rev old"] 1(1-3) undo_events_old [of "rev old" h s] by simp_all
  have old: "\<forall>p \<in> set (drop n (quorum_states st0)). \<not> h \<le> fst p"
    using assms(2) by (auto dest: in_set_dropD simp: not_le)
  have "rev (dropWhile (\<lambda>p. h \<le> fst p) (rev (quorum_states st))) = drop n (quorum_states st0)"
    unfolding 2(1) using 2(2) old by (rule rev_dropWhile_rev)
  then have d: "blockchain_detached env chain stored h st = Some (s\<lparr>rollback_events := old,
      quorum_states := drop n (quorum_states st0), state_height := h\<rparr>)"
    by (simp add: blockchain_detached_def u q case_prod_beta')
  show thesis by (rule that [OF d _ _ 2(3)]) (use 1(2,5) in \<open>simp_all add: same_view_def\<close>)
qed

section \<open>Correctness\<close>

text \<open>
  C1. Detaching the chain at a height \<open>h\<close> of at least 30 undoes what the list did for blocks of the 30 heights from
  \<open>h\<close> on, none of them in version 10: if the events and the quorums of the list before them are below \<open>h\<close>, then the
  nodes and the blacklisted key images are again what they were, no rescan is needed, the height is \<open>h\<close>,
  the quorums are the earlier ones except for some of the oldest, which are more than the lifetime of a quorum below
  \<open>h + 30\<close>, and all remaining events are below \<open>h\<close>.
\<close>

theorem detached_restores:
  assumes "\<forall>e \<in> set (rollback_events st). m_block_height e < h" and "\<forall>p \<in> set (quorum_states st). fst p < h"
    and "30 \<le> unat h"
    and "\<forall>b \<in> set bs. h \<le> get_block_height b \<and> unat (get_block_height b) < unat h + 30
      \<and> hard_fork_version chain (get_block_height b) \<noteq> 10"
    and "scan_blocks env chain bs st = Some (ok, st')"
  shows "\<exists>st'' n. blockchain_detached env' chain' stored h st' = Some st''
    \<and> (\<forall>key. find_node st'' key = find_node st key)
    \<and> mset (map (\<lambda>e. (be_key_image e, be_unlock_height e)) (key_image_blacklist st''))
      = mset (map (\<lambda>e. (be_key_image e, be_unlock_height e)) (key_image_blacklist st))
    \<and> quorum_states st'' = drop n (quorum_states st)
    \<and> (\<forall>p \<in> set (take n (quorum_states st)). unat (fst p) + unat QUORUM_LIFETIME < unat h + 30)
    \<and> state_height st'' = h \<and> (\<forall>e \<in> set (rollback_events st''). m_block_height e < h)"
proof -
  have "undoable h st st"
    using events_undoable_start [OF assms(1)] unfolding undoable_def quorums_undoable_def
    by (intro conjI exI [of _ 0] exI [of _ "[]"]) simp_all
  then have "undoable h st st'" using assms(2-5) by (rule undoable_scan)
  then obtain st'' n where d: "blockchain_detached env' chain' stored h st' = Some st''" "same_view st'' st"
      "quorum_states st'' = drop n (quorum_states st)"
      "\<forall>p \<in> set (take n (quorum_states st)). unat (fst p) + unat QUORUM_LIFETIME < unat h + 30"
      "state_height st'' = h" "\<forall>e \<in> set (rollback_events st''). m_block_height e < h"
    using assms(2) by (rule undoable_detached)
  then show ?thesis
    using d(2) unfolding same_view_def blacklisted_def
    by (intro exI [of _ st''] exI [of _ n] conjI) (simp, simp, simp, (rule d)+)
qed

definition empty_blocks_chain :: chain_view where
  "empty_blocks_chain = small_chain\<lparr>hard_fork_version := \<lambda>_. 9, get_transactions := \<lambda>_. Some []\<rparr>"

definition two_blocks :: "block list" where
  "two_blocks = [coinbase_block 40, coinbase_block 41]"

theorem detached_restores_witness:
  "\<exists>st' st''. scan_blocks small_crypto empty_blocks_chain two_blocks small_list = Some (True, st')
     \<and> blockchain_detached small_crypto small_chain None 40 st' = Some st'' \<and> find_node st'' [7] = Some small_node"
proof -
  have "map_option fst (scan_blocks small_crypto empty_blocks_chain two_blocks small_list) = Some True" by code_simp
  then obtain st' where st': "scan_blocks small_crypto empty_blocks_chain two_blocks small_list = Some (True, st')" by auto
  have "\<exists>st''. blockchain_detached small_crypto small_chain None 40 st' = Some st'' \<and> (\<forall>key. find_node st'' key = find_node small_list key)"
    using detached_restores [OF _ _ _ _ st', of 40 small_crypto small_chain None]
    by (auto simp: small_list_def two_blocks_def coinbase_block_def empty_blocks_chain_def get_block_height_def word_le_nat_alt)
  with st' show ?thesis by (auto simp: small_list_def)
qed

text \<open>
  C38. A version 10 registration that replaces a node whose staking period is over is not undone by a
  rollback: the event it leaves is that of a new node, so detaching the block erases the node instead of
  restoring it.
\<close>

theorem renewal_not_restored:
  assumes "is_registration_tx env chain tx ts h i empty_info = Some (key, info)"
    and "find_node st key = Some old_info" and "hard_fork_version chain h = 10"
    and "registration_height old_info + staking_num_lock_blocks (nettype chain) \<le> h"
    and "\<forall>e \<in> set (rollback_events st). m_block_height e < h"
  shows "\<exists>st' st''. process_registration_tx env chain tx ts h i st = (True, st')
    \<and> blockchain_detached env' chain' stored h st' = Some st'' \<and> find_node st'' key = None"
proof -
  let ?info = "info\<lparr>last_reward_block_height := last_reward_block_height old_info,
    last_reward_transaction_index := last_reward_transaction_index old_info\<rparr>"
  let ?st = "put_node key ?info (push_event (rollback_new h key) st)"
  have "process_registration_tx env chain tx ts h i st = (True, ?st)"
    using assms(1-4) by (simp add: process_registration_tx_def network_version_10_bulletproofs_def
        network_version_11_infinite_staking_def not_less)
  moreover have "undo_events h (rev (rollback_events ?st)) ?st
      = (True, (erase_node key ?st)\<lparr>rollback_events := rollback_events st\<rparr>)"
    using undo_events_old [of "rev (rollback_events st)" h] assms(5) by simp
  ultimately show ?thesis by (simp add: blockchain_detached_def)
qed

definition node_key :: bytes where "node_key = replicate 32 5"

definition register_fields :: "tx_extra_field list" where
  "register_fields = [FullNodePubkey node_key, FullNodeContributor node_key node_key, TxSecretKey node_key,
     FullNodeRegister \<lparr>m_public_spend_keys = [node_key], m_public_view_keys = [node_key],
       m_portions_for_operator = 5, m_portions = [STAKING_PORTIONS], m_expiration_timestamp = 1000,
       m_full_node_signature = replicate 64 1\<rparr>]"

definition register_tx :: transaction where
  "register_tx = \<lparr>version = 2, unlock_time = 100000, vin = [], vout = [\<lparr>tx_out.amount = 0, target = txout_to_key node_key\<rparr>],
     extra = concat (map encode register_fields), output_unlock_times = [], tx_type = 0, txnFee = 0\<rparr>"

definition rich_crypto :: staking_crypto where
  "rich_crypto = small_crypto\<lparr>decode_amount := \<lambda>_ _ _. 1000000000000000\<rparr>"

lemma register_tx_parsed: "parse_tx_extra (extra register_tx) = (True, register_fields)"
proof -
  have "valid_fields register_fields" by (simp add: register_fields_def valid_fields_def node_key_def)
  then show ?thesis using parse_encode by (simp add: register_tx_def)
qed

lemmas register_getters = get_full_node_register_from_tx_extra_def get_full_node_pubkey_from_tx_extra_def
  get_full_node_contributor_from_tx_extra_def get_tx_secret_key_from_tx_extra_def register_tx_parsed

lemma register_tx_fields:
  "reg_tx_extract_fields register_tx = Some \<lparr>reg_addresses = [\<lparr>m_spend_public_key = node_key, m_view_public_key = node_key\<rparr>],
    reg_portions_for_operator = 5, reg_portions = [STAKING_PORTIONS], reg_expiration_timestamp = 1000,
    reg_full_node_key = node_key, reg_signature = replicate 64 1\<rparr>"
  by (simp add: reg_tx_extract_fields_def register_getters find_tx_extra_field_by_type_def register_fields_def)

lemma register_tx_contribution:
  "get_contribution rich_crypto FAKECHAIN 10 register_tx 50000
     = Some \<lparr>pc_address = \<lparr>m_spend_public_key = node_key, m_view_public_key = node_key\<rparr>, transferred = 1000000000000000,
         pc_tx_key = node_key, pc_locked_contributions = []\<rparr>"
proof -
  have "version register_tx = 2" "unlock_time register_tx = 100000" "length (vout register_tx) = 1"
      "target (vout register_tx ! 0) = txout_to_key node_key"
    by (simp_all add: register_tx_def)
  moreover have "get_full_node_contributor_from_tx_extra (extra register_tx) = Some \<lparr>m_spend_public_key = node_key, m_view_public_key = node_key\<rparr>"
      "get_tx_secret_key_from_tx_extra (extra register_tx) = Some node_key"
    by (simp_all add: register_getters find_tx_extra_field_by_type_def register_fields_def)
  ultimately show ?thesis
    by (simp add: get_contribution_def rich_crypto_def small_crypto_def add_output_def network_version_11_infinite_staking_def
        get_reg_tx_staking_output_contribution_def version_3_per_output_unlock_times_def CRYPTONOTE_MAX_BLOCK_NUMBER_def
        staking_num_lock_blocks_def Let_def)
qed

lemma register_tx_ok: "\<exists>info. is_registration_tx rich_crypto small_chain register_tx 7 50000 0 empty_info = Some (node_key, info)"
proof -
  have "check_full_node_portions 10 [STAKING_PORTIONS]" by code_simp
  moreover have "portions_left_loop STAKING_PORTIONS [STAKING_PORTIONS]" by code_simp
  moreover have "get_min_node_contribution 10 (get_staking_requirement FAKECHAIN 50000 10) 0 0 \<le> 1000000000000000" by code_simp
  moreover have "\<exists>info. add_contributors ver [] [(a, p)] info0 \<bind> (\<lambda>info. Some (k, info)) = Some (k, info)"
    for ver a p info0 and k :: public_key by (simp add: add_contributors.simps(2) Let_def case_prod_beta)
  moreover note register_tx_contribution [unfolded rich_crypto_def small_crypto_def]
  ultimately show ?thesis
    by (simp add: Let_def not_less STAKING_PORTIONS_def MAX_NUMBER_OF_CONTRIBUTORS_def empty_info_def total_num_locked_contributions_def is_registration_tx_def register_tx_fields register_tx_contribution small_chain_def get_registration_hash_def
        rich_crypto_def small_crypto_def)
qed

definition old_list :: transient_state where
  "old_list = small_list\<lparr>full_nodes_infos := [(node_key, small_node)]\<rparr>"

theorem renewal_not_restored_witness:
  "\<exists>st' st''. find_node old_list node_key = Some small_node
     \<and> process_registration_tx rich_crypto small_chain register_tx 7 50000 0 old_list = (True, st')
     \<and> blockchain_detached small_crypto small_chain None 50000 st' = Some st'' \<and> find_node st'' node_key = None"
proof -
  obtain info where i: "is_registration_tx rich_crypto small_chain register_tx 7 50000 0 empty_info = Some (node_key, info)"
    using register_tx_ok by blast
  have n: "find_node old_list node_key = Some small_node" by (simp add: old_list_def)
  have "\<exists>st' st''. process_registration_tx rich_crypto small_chain register_tx 7 50000 0 old_list = (True, st')
     \<and> blockchain_detached small_crypto small_chain None 50000 st' = Some st'' \<and> find_node st'' node_key = None"
    by (rule renewal_not_restored [OF i n]) (simp_all add: small_chain_def small_node_def old_list_def small_list_def
        empty_info_def staking_num_lock_blocks_def)
  with n show ?thesis by blast
qed

end
