(* ===== verification/Winners.thy ===== *)
theory Winners
  imports Rollback
begin

text \<open>
  Winners over a run of blocks: the miner transaction built for the list's winner is the one the list
  accepts, and the reward goes round all funded nodes.
\<close>

section \<open>The reward goes round\<close>

definition block_winner :: "block \<Rightarrow> public_key" where
  "block_winner b = get_full_node_winner_from_tx_extra (extra (miner_tx b))"

text \<open>
  A run of blocks with their transactions, each with the chain as it is when the list gets the block. In
  \<open>winners_paid\<close> every block is accepted and pays the node that the list selects.
\<close>

type_synonym chain_block = "chain_view \<times> block \<times> transaction list"

fun add_blocks :: "staking_crypto \<Rightarrow> chain_block list \<Rightarrow> transient_state \<Rightarrow> transient_state option" where
  "add_blocks env [] st = Some st"
| "add_blocks env ((chain, b, txs) # bs) st = do { st \<leftarrow> block_added_generic env chain b txs st; add_blocks env bs st }"

fun winners_paid :: "staking_crypto \<Rightarrow> chain_block list \<Rightarrow> transient_state \<Rightarrow> bool" where
  "winners_paid env [] st = True"
| "winners_paid env ((chain, b, txs) # bs) st =
     (block_winner b = select_winner st
      \<and> (case block_added_generic env chain b txs st of
           None \<Rightarrow> False
         | Some st' \<Rightarrow> winners_paid env bs st'))"

definition funded_keys :: "transient_state \<Rightarrow> public_key list" where
  "funded_keys st = map fst (filter (\<lambda>(_, info). is_fully_funded info) (full_nodes_infos st))"

text \<open>The funded nodes that have waited since before height \<open>h\<close>, and the nodes whose registration is from before it.\<close>

definition waits :: "u64 \<Rightarrow> full_node_info \<Rightarrow> bool" where
  "waits h info \<longleftrightarrow> is_fully_funded info \<and> last_reward_block_height info < h"

definition waiting :: "u64 \<Rightarrow> transient_state \<Rightarrow> public_key set" where
  "waiting h st = {k. \<exists>info. find_node st k = Some info \<and> waits h info}"

definition registered_before :: "u64 \<Rightarrow> transient_state \<Rightarrow> public_key set" where
  "registered_before h st = {k. \<exists>info. find_node st k = Some info \<and> registration_height info < h}"

text \<open>
  What every step does to them at height \<open>h\<close> or later: nobody starts to wait, no registration from before \<open>h\<close> appears,
  and whoever waits, with the exception of the winner, keeps waiting as long as its registration lasts.
\<close>

definition onward :: "u64 \<Rightarrow> public_key \<Rightarrow> transient_state \<Rightarrow> transient_state \<Rightarrow> bool" where
  "onward h w s s' \<longleftrightarrow> waiting h s' \<subseteq> waiting h s \<and> registered_before h s' \<subseteq> registered_before h s
     \<and> (waiting h s - {w}) \<inter> registered_before h s' \<subseteq> waiting h s'"

lemma onward_trans: "onward h w s t \<Longrightarrow> onward h w t u \<Longrightarrow> onward h w s u"
  unfolding onward_def by blast

lemma onward_same: "full_nodes_infos s' = full_nodes_infos s \<Longrightarrow> onward h w s s'"
  by (auto simp: onward_def waiting_def registered_before_def)

lemma onward_refl [simp]: "onward h w s s"
  by (rule onward_same) simp

lemma onward_erase: "full_nodes_infos s' = AList.delete k (full_nodes_infos s) \<Longrightarrow> onward h w s s'"
  by (auto simp: onward_def waiting_def registered_before_def delete_conv' split: if_splits)

lemma onward_put:
  assumes "full_nodes_infos s' = AList.update k info' (full_nodes_infos s)" and "find_node s k = Some info"
    and "registration_height info' = registration_height info" and "waits h info' \<Longrightarrow> waits h info"
    and "k \<noteq> w \<Longrightarrow> waits h info \<Longrightarrow> waits h info'"
  shows "onward h w s s'"
  using assms by (auto simp: onward_def waiting_def registered_before_def update_conv' split: if_splits)

lemma onward_new:
  assumes "full_nodes_infos s' = AList.update k info' (full_nodes_infos s)"
    and "\<not> waits h info'" and "\<not> registration_height info' < h"
  shows "onward h w s s'"
  using assms by (auto simp: onward_def waiting_def registered_before_def update_conv' split: if_splits)

lemmas onward_fields = put_node_def push_event_def erase_node_def

lemma onward_expire: "onward h w (snd acc) (snd (fold (expire_node b) keys acc))"
proof (induction keys arbitrary: acc)
  case Nil
  then show ?case by (simp add: onward_same)
next
  case (Cons key keys)
  obtain n s where acc: "acc = (n, s)" by fastforce
  have "onward h w s (snd (expire_node b key (n, s)))"
    by (cases "find_node s key") (simp_all add: expire_node_def onward_fields onward_erase [of _ key])
  then show ?case using Cons.IH [of "expire_node b key acc"] by (auto simp: acc intro: onward_trans)
qed

lemma blacklist_nodes [simp]: "full_nodes_infos (blacklist_key_images net b info s) = full_nodes_infos s"
proof -
  have "full_nodes_infos (fold (\<lambda>c st. let entry = (f :: contribution_t \<Rightarrow> _) c in push_event (rollback_key_image_blacklist b entry True)
      (st\<lparr>key_image_blacklist := key_image_blacklist st @ [entry]\<rparr>)) cs s) = full_nodes_infos s" for cs f
    by (induction cs arbitrary: s) (simp_all add: Let_def push_event_def)
  then show ?thesis by (simp add: blacklist_key_images_def)
qed

lemma onward_deregistration: "onward h w s (snd (process_deregistration_tx chain tx b s))"
proof (cases "find_deregistered_node tx s")
  case (Some p)
  obtain key info where p: "p = (key, info)" by fastforce
  have "full_nodes_infos (snd (process_deregistration_tx chain tx b s)) = AList.delete key (full_nodes_infos s)"
    using Some p by (simp add: process_deregistration_tx_def Let_def erase_node_def)
  then show ?thesis by (rule onward_erase)
qed (simp add: process_deregistration_tx_def onward_same)

lemma onward_registration:
  assumes "h \<le> b"
  shows "onward h w s (snd (process_registration_tx env chain tx ts b i s))"
proof (cases "is_registration_tx env chain tx ts b i empty_info")
  case (Some p)
  obtain key info where p: "p = (key, info)" by fastforce
  then have r: "total_contributed info = 0" "staking_requirement info \<noteq> 0" "registration_height info = b"
    using registration_ok [of env chain tx ts b i key info] Some by (auto simp: node_ok_def)
  then have "\<not> is_fully_funded info" by (simp add: is_fully_funded_def)
  then have new: "onward h w s (put_node key info' (push_event e s))"
    if "total_contributed info' = total_contributed info" "staking_requirement info' = staking_requirement info"
      "registration_height info' = b" for info' e
    using that assms by (intro onward_new [of _ key info']) (simp_all add: onward_fields waits_def is_fully_funded_def not_less)
  show ?thesis
    using Some p r by (auto simp: process_registration_tx_def Let_def split: option.splits intro!: new)
qed (simp add: process_registration_tx_def onward_same)

lemma add_locked_node:
  "registration_height (add_locked n cs info) = registration_height info"
  "last_reward_block_height (add_locked n cs info) = last_reward_block_height info"
  by (induction n cs info rule: add_locked.induct) (simp_all add: Let_def set_contributor_def)

lemma apply_contribution_node:
  "registration_height (apply_contribution hf b i parsed n info) = registration_height info"
  "last_reward_block_height (apply_contribution hf b i parsed n info) = b"
  by (simp_all add: apply_contribution_def Let_def set_contributor_def add_locked_node)

lemma onward_contribution:
  assumes "h \<le> b"
  shows "onward h w s (process_contribution_tx env chain tx b i s)"
proof -
  have put: "onward h w s (put_node key (apply_contribution hf b i parsed n info') (push_event e s))"
    if "find_node s key = Some info" "\<not> is_fully_funded info" "registration_height info' = registration_height info"
    for key hf parsed n info info' e
    using that assms
    by (intro onward_put [of _ key "apply_contribution hf b i parsed n info'" s info]) (auto simp: onward_fields apply_contribution_node waits_def)
  show ?thesis
    unfolding process_contribution_tx_def Let_def
    by (auto split: option.split intro!: put)
qed

lemma onward_unlock: "onward h w s (process_key_image_unlock_tx env chain tx b s)"
proof -
  have "onward h w s (put_node key (info\<lparr>requested_unlock_height := u\<rparr>) (push_event e s))"
    if "find_node s key = Some info" for key info u e
    using that by (intro onward_put [of _ key "info\<lparr>requested_unlock_height := u\<rparr>" s info])
      (simp_all add: onward_fields waits_def is_fully_funded_def)
  then show ?thesis
    unfolding process_key_image_unlock_tx_def by (auto simp: bind_eq_Some_conv split: option.split if_splits)
qed

lemma onward_txs:
  "h \<le> b \<Longrightarrow> onward h w (snd (snd acc)) (snd (snd (process_txs env chain ts b i txs acc)))"
proof (induction env chain ts b i txs acc rule: process_txs.induct)
  case (2 env chain ts b i tx txs r d st)
  have "onward h w st (process_contribution_tx env chain tx b i (snd (process_registration_tx env chain tx ts b i st)))"
    using onward_trans onward_registration [OF 2(2)] onward_contribution [OF 2(2)] by blast
  then show ?case
    using 2 onward_deregistration [of h w st chain tx b] onward_unlock [of h w st env chain tx b]
    by (auto simp: case_prod_beta Let_def split: type_t.split_asm intro: onward_trans)
qed simp

lemma onward_move_all: "move_all b ms s = Some s' \<Longrightarrow> onward h w s s'"
proof (induction ms arbitrary: s)
  case (Cons m ms)
  obtain sid key where m: "m = (sid, key)" by fastforce
  obtain t where t: "move_to_swarm b m s = Some t" "move_all b ms t = Some s'"
    using Cons.prems by (auto simp: bind_eq_Some_conv)
  obtain info where info: "find_node s key = Some info" and
    cases: "t = s \<or> t = put_node key (info\<lparr>swarm_id := sid\<rparr>) (push_event (rollback_change b key info) s)"
    using t(1) by (auto simp: m move_to_swarm_def bind_eq_Some_conv split: if_splits)
  have "onward h w s (put_node key (info\<lparr>swarm_id := sid\<rparr>) (push_event (rollback_change b key info) s))"
    using info by (intro onward_put [of _ key "info\<lparr>swarm_id := sid\<rparr>" s info])
      (simp_all add: onward_fields waits_def is_fully_funded_def)
  then have "onward h w s t" using cases by auto
  then show ?case using Cons.IH t(2) onward_trans by blast
qed simp

lemma onward_swarms: "update_swarms chain b s = Some s' \<Longrightarrow> onward h w s s'"
  by (auto simp: update_swarms_def bind_eq_Some_conv intro: onward_move_all)

lemma onward_winner: "h \<le> b \<Longrightarrow> onward h w s (advance_winner b w s)"
  by (cases "find_node s w") (auto simp: advance_winner_def onward_fields waits_def
      intro!: onward_put [of _ w _ s "the (find_node s w)"])

lemma winner_served: "h \<le> b \<Longrightarrow> w \<notin> waiting h (advance_winner b w s)"
  by (cases "find_node s w") (auto simp: advance_winner_def onward_fields waits_def waiting_def update_conv')

lemma onward_block:
  assumes "block_added_generic env chain b txs s = Some s'" and "hard_fork_version chain (get_block_height b) \<ge> 9"
    and "h \<le> get_block_height b"
  shows "onward h (block_winner b) s s'" and "block_winner b \<notin> waiting h s'"
proof -
  let ?b = "get_block_height b" and ?w = "block_winner b"
  from assms(2) have "\<not> hard_fork_version chain ?b < 9" by simp
  from block_added_cases [OF assms(1) this, folded block_winner_def]
  obtain s0 n s1 s2 r d s3 s4 s5
  where 0: "s0 = remove_expired_key_images ?b (cull_rollback_events ?b (s\<lparr>state_height := state_height s + 1\<rparr>))"
    and 1: "fold (expire_node ?b) (update_and_get_expired_nodes env chain ?b s0) (0, s0) = (n, s1)"
    and 2: "s2 = advance_winner ?b ?w s1"
    and 3: "process_txs env chain (timestamp b) ?b 0 txs (0, 0, s2) = (r, d, s3)"
    and 4: "s4 = s3 \<or> update_swarms chain ?b s3 = Some s4"
    and 5: "store_quorum_state_from_rewards_list chain ?b s4 = Some s5"
    and 6: "s' = s5\<lparr>quorum_states := dropWhile (\<lambda>(k, _). k < (if ?b < QUORUM_LIFETIME then 0 else ?b - QUORUM_LIFETIME)) (quorum_states s5)\<rparr>"
    by metis
  have "onward h ?w s s0"
    by (rule onward_same) (simp add: 0 remove_expired_key_images_def cull_rollback_events_def Let_def case_prod_beta)
  moreover have "onward h ?w s0 s1" using onward_expire [of h ?w "(0, s0)" ?b "update_and_get_expired_nodes env chain ?b s0"] by (simp add: 1)
  moreover have "onward h ?w s1 s2" unfolding 2 by (rule onward_winner [OF assms(3)])
  ultimately have first: "onward h ?w s s2" by (blast intro: onward_trans)
  have "onward h ?w s2 s3" using onward_txs [OF assms(3), of ?w "(0, 0, s2)" env chain "timestamp b" 0 txs] by (simp add: 3)
  moreover have "onward h ?w s3 s4" using 4 onward_swarms by auto
  moreover have "full_nodes_infos s' = full_nodes_infos s4" unfolding 6 using store_quorum_cases [OF 5] by auto
  then have "onward h ?w s4 s'" by (rule onward_same)
  ultimately have rest: "onward h ?w s2 s'" by (blast intro: onward_trans)
  with first show "onward h ?w s s'" by (rule onward_trans)
  show "?w \<notin> waiting h s'" using rest winner_served [OF assms(3), of ?w s1] unfolding 2 onward_def by blast
qed

lemma finite_waiting: "finite (waiting h st)"
  by (rule finite_subset [of _ "dom (find_node st)"]) (auto simp: waiting_def finite_dom_map_of)

text \<open>The selected node is one of the waiting ones.\<close>

lemma winner_waits:
  assumes "distinct (map fst (full_nodes_infos st))" and "waiting h st \<noteq> {}"
  shows "select_winner st \<in> waiting h st"
proof -
  obtain k0 info0 where 0: "(k0, info0) \<in> set (full_nodes_infos st)" "is_fully_funded info0" "last_reward_block_height info0 < h"
    using assms(2) by (auto simp: waiting_def waits_def dest: map_of_SomeD)
  show ?thesis
  proof (cases st rule: select_winner_cases)
    case nobody
    then have "waiting_since info0 = (UINT64_MAX, UINT32_MAX)" using 0 by blast
    then have "UINT64_MAX < h" using 0(3) by (simp add: waiting_since_def)
    moreover have "h \<le> UINT64_MAX" using unat_u64_less [of h] by (simp add: word_le_nat_alt)
    ultimately show ?thesis by simp
  next
    case (winner info)
    then have "waiting_since info \<le> waiting_since info0" using 0 by blast
    then have "last_reward_block_height info \<le> last_reward_block_height info0" by (auto simp: waiting_since_def less_eq_prod_def)
    then show ?thesis using winner 0(3) assms(1) by (auto simp: waiting_def waits_def)
  qed
qed

definition blocks_from :: "u64 \<Rightarrow> chain_block list \<Rightarrow> bool" where
  "blocks_from h bs \<longleftrightarrow>
     list_all (\<lambda>(chain, b, _). 9 \<le> hard_fork_version chain (get_block_height b) \<and> h \<le> get_block_height b) bs"

lemma add_blocks_registered:
  "add_blocks env bs st = Some st' \<Longrightarrow> blocks_from h bs \<Longrightarrow> registered_before h st' \<subseteq> registered_before h st"
proof (induction bs arbitrary: st)
  case (Cons p bs)
  obtain chain b txs where p: "p = (chain, b, txs)" by (metis prod_cases3)
  obtain t where t: "block_added_generic env chain b txs st = Some t" "add_blocks env bs t = Some st'"
    using Cons.prems(1) by (auto simp: p bind_eq_Some_conv)
  have "onward h (block_winner b) st t" using onward_block(1) [OF t(1)] Cons.prems(2) by (simp add: p blocks_from_def)
  moreover have "registered_before h st' \<subseteq> registered_before h t"
    using Cons.IH [OF t(2)] Cons.prems(2) by (simp add: blocks_from_def)
  ultimately show ?case unfolding onward_def by blast
qed simp

text \<open>Whoever waits is paid within as many blocks as there are waiting nodes, unless its registration ends before.\<close>

lemma winners_round:
  assumes "list_ok st" and "blocks_from h bs" and "winners_paid env bs st" and "card (waiting h st) \<le> length bs"
    and "k \<in> waiting h st"
  shows "\<exists>j < card (waiting h st). block_winner (fst (snd (bs ! j))) = k
    \<or> (\<exists>st'. add_blocks env (take (Suc j) bs) st = Some st' \<and> k \<notin> registered_before h st')"
  using assms
proof (induction bs arbitrary: st)
  case Nil
  then show ?case using finite_waiting [of h st] by simp
next
  case (Cons p bs)
  obtain chain b txs where p: "p = (chain, b, txs)" by (metis prod_cases3)
  obtain t where t: "block_winner b = select_winner st" "block_added_generic env chain b txs st = Some t" "winners_paid env bs t"
    using Cons.prems(3) by (auto simp: p split: option.splits)
  have hb: "hard_fork_version chain (get_block_height b) \<ge> 9" "h \<le> get_block_height b" and bs: "blocks_from h bs"
    using Cons.prems(2) by (simp_all add: p blocks_from_def)
  note on = onward_block [OF t(2) hb]
  have "select_winner st \<in> waiting h st"
    using winner_waits [of st h] Cons.prems(1,5) by (auto simp: list_ok_def)
  then have "waiting h t \<subset> waiting h st" using on t(1) unfolding onward_def by auto
  then have card: "card (waiting h t) < card (waiting h st)" by (rule psubset_card_mono [OF finite_waiting])
  show ?case
  proof (cases "block_winner b = k \<or> k \<notin> registered_before h t")
    case True
    then show ?thesis using card t(2) by (intro exI [of _ 0]) (auto simp: p)
  next
    case False
    then have "k \<in> waiting h t" using on(1) Cons.prems(5) unfolding onward_def by blast
    moreover have "list_ok t" using Cons.prems(1) t(2) by (rule block_added_generic_ok)
    moreover have "card (waiting h t) \<le> length bs" using card Cons.prems(4) by simp
    ultimately obtain j where j: "j < card (waiting h t)" "block_winner (fst (snd (bs ! j))) = k
        \<or> (\<exists>st'. add_blocks env (take (Suc j) bs) t = Some st' \<and> k \<notin> registered_before h st')"
      using Cons.IH [OF _ bs t(3)] by blast
    then show ?thesis using card t(2) by (intro exI [of _ "Suc j"]) (auto simp: p)
  qed
qed

lemma winners_paid_added: "winners_paid env bs st \<Longrightarrow> \<exists>st'. add_blocks env bs st = Some st'"
  by (induction env bs st rule: winners_paid.induct) (auto split: option.splits)

lemma add_blocks_append: "add_blocks env (bs @ bs') st = add_blocks env bs st \<bind> add_blocks env bs'"
proof (induction bs arbitrary: st)
  case (Cons p bs)
  then show ?case by (cases p; cases "block_added_generic env (fst p) (fst (snd p)) (snd (snd p)) st") simp_all
qed simp

lemma waiting_funded:
  assumes "distinct (map fst (full_nodes_infos st))"
    and "\<forall>(k, info) \<in> set (full_nodes_infos st). is_fully_funded info \<longrightarrow> last_reward_block_height info < h"
  shows "waiting h st = set (funded_keys st)" and "distinct (funded_keys st)"
  using assms by (force simp: waiting_def waits_def funded_keys_def, simp add: funded_keys_def distinct_map_filter)

lemma mset_covered:
  assumes "distinct xs" and "set xs \<subseteq> set ys" and "length ys = length xs"
  shows "mset ys = mset xs"
proof -
  have le: "card (set ys) \<le> card (set xs)" using assms(1,3) card_length [of ys] by (simp add: distinct_card)
  then have eq: "set xs = set ys" using assms(2) by (intro card_seteq) simp_all
  then have "distinct ys" using assms(1,3) by (simp add: card_distinct distinct_card [symmetric])
  then show ?thesis using assms(1) eq by (simp add: set_eq_iff_mset_eq_distinct [symmetric])
qed

text \<open>
  C4. The reward goes round. With \<open>n\<close> funded nodes, all registered and paid last before height \<open>h\<close>, take any blocks
  from height \<open>h\<close> on, with any transactions, that the list accepts and that pay the node it selects. Within the first
  \<open>n\<close> blocks every one of the funded nodes is paid, or it has left the list by then, by expiry or by deregistration;
  and if all of them are still there after the \<open>n\<close> blocks, each has been paid exactly once and nobody else.
\<close>

theorem winners_rotate:
  assumes "list_ok st" and "blocks_from h bs" and "winners_paid env bs st" and "length (funded_keys st) \<le> length bs"
    and "\<forall>(k, info) \<in> set (full_nodes_infos st). is_fully_funded info
      \<longrightarrow> registration_height info < h \<and> last_reward_block_height info < h"
  shows "(\<forall>k \<in> set (funded_keys st). \<exists>j < length (funded_keys st). block_winner (fst (snd (bs ! j))) = k
      \<or> (\<exists>st'. add_blocks env (take (Suc j) bs) st = Some st' \<and> k \<notin> registered_before h st'))
    \<and> (\<exists>st'. add_blocks env (take (length (funded_keys st)) bs) st = Some st'
        \<and> (set (funded_keys st) \<subseteq> registered_before h st'
            \<longrightarrow> mset (map (block_winner \<circ> fst \<circ> snd) (take (length (funded_keys st)) bs)) = mset (funded_keys st)))"
proof -
  let ?n = "length (funded_keys st)"
  have w: "waiting h st = set (funded_keys st)" and d: "distinct (funded_keys st)"
    using waiting_funded [of st h] assms(1,5) by (auto simp: list_ok_def)
  then have n: "card (set (funded_keys st)) = ?n" by (simp add: distinct_card)
  have paid: "\<exists>j < ?n. block_winner (fst (snd (bs ! j))) = k
      \<or> (\<exists>st'. add_blocks env (take (Suc j) bs) st = Some st' \<and> k \<notin> registered_before h st')" if "k \<in> set (funded_keys st)" for k
    using winners_round [OF assms(1-3), of k] assms(4) that unfolding w n by blast
  obtain fin where fin: "add_blocks env bs st = Some fin" using winners_paid_added [OF assms(3)] by blast
  have split: "\<exists>s. add_blocks env (take m bs) st = Some s \<and> add_blocks env (drop m bs) s = Some fin" for m
  proof -
    have "add_blocks env (take m bs) st \<bind> add_blocks env (drop m bs) = Some fin"
      using add_blocks_append [of env "take m bs" "drop m bs" st] fin by simp
    then show ?thesis by (simp add: bind_eq_Some_conv)
  qed
  obtain st' where st': "add_blocks env (take ?n bs) st = Some st'" using split by blast
  have "mset (map (block_winner \<circ> fst \<circ> snd) (take ?n bs)) = mset (funded_keys st)" if stay: "set (funded_keys st) \<subseteq> registered_before h st'"
  proof -
    have "k \<in> registered_before h s" if "k \<in> set (funded_keys st)" "j < ?n" "add_blocks env (take (Suc j) bs) st = Some s" for k j s
    proof -
      have "take ?n bs = take (Suc j) bs @ take (?n - Suc j) (drop (Suc j) bs)"
        using that(2) by (metis Suc_leI le_add_diff_inverse take_add)
      then have "add_blocks env (take (?n - Suc j) (drop (Suc j) bs)) s = Some st'"
        using st' that(3) by (simp add: add_blocks_append)
      moreover have "blocks_from h (take (?n - Suc j) (drop (Suc j) bs))"
        using assms(2) by (auto simp: blocks_from_def list_all_iff dest!: in_set_takeD in_set_dropD)
      ultimately show ?thesis using add_blocks_registered stay that(1) by blast
    qed
    note here = this
    have "k \<in> set (map (block_winner \<circ> fst \<circ> snd) (take ?n bs))" if k: "k \<in> set (funded_keys st)" for k
    proof -
      obtain j where j: "j < ?n" "block_winner (fst (snd (bs ! j))) = k" using paid [OF k] here [OF k] by blast
      then have "bs ! j \<in> set (take ?n bs)" using assms(4) by (auto simp: in_set_conv_nth)
      then show ?thesis using j(2) by (auto simp: comp_def)
    qed
    then have "set (funded_keys st) \<subseteq> set (map (block_winner \<circ> fst \<circ> snd) (take ?n bs))" by blast
    then show ?thesis using assms(4) by (intro mset_covered [OF d]) simp_all
  qed
  then show ?thesis using paid st' by blast
qed

definition paying_block :: "u64 \<Rightarrow> public_key \<Rightarrow> block" where
  "paying_block h key = (coinbase_block h)\<lparr>miner_tx := (miner_tx (coinbase_block h))\<lparr>extra := encode (FullNodeWinner key)\<rparr>\<rparr>"

definition two_nodes :: transient_state where
  "two_nodes = \<lparr>full_nodes_infos = [(node_key, small_node\<lparr>last_reward_block_height := 2\<rparr>), (replicate 32 6, small_node)],
     key_image_blacklist = [], quorum_states = [], rollback_events = [], state_height = 40\<rparr>"

definition unhashed_chain :: chain_view where
  "unhashed_chain = small_chain\<lparr>hard_fork_version := \<lambda>_. 11, block_id_by_height := \<lambda>_. null_hash\<rparr>"

definition two_payments :: "chain_block list" where
  "two_payments = [(unhashed_chain, paying_block 40 (replicate 32 6), [miner_tx (coinbase_block 3)]),
     (unhashed_chain, paying_block 41 node_key, [])]"

theorem winners_rotate_witness:
  "winners_paid small_crypto two_payments two_nodes
   \<and> mset (map (block_winner \<circ> fst \<circ> snd) (take (length (funded_keys two_nodes)) two_payments)) = mset (funded_keys two_nodes)"
proof -
  have p: "winners_paid small_crypto two_payments two_nodes" by code_simp
  have n: "funded_keys two_nodes = [node_key, replicate 32 6]"
    by (simp add: funded_keys_def two_nodes_def small_node_def is_fully_funded_def)
  have "map_option (\<lambda>st. map (\<lambda>(k, info). (k, registration_height info)) (full_nodes_infos st))
      (add_blocks small_crypto (take 2 two_payments) two_nodes) = Some [(node_key, 0), (replicate 32 6, 0)]" by code_simp
  then obtain st' where s: "add_blocks small_crypto (take 2 two_payments) two_nodes = Some st'"
    "map (\<lambda>(k, info). (k, registration_height info)) (full_nodes_infos st') = [(node_key, 0), (replicate 32 6, 0)]" by auto
  then have r: "set (funded_keys two_nodes) \<subseteq> registered_before 40 st'"
    by (auto simp: n registered_before_def node_key_def split: if_splits)
  have "list_ok two_nodes" using small_list_ok by (simp add: list_ok_def two_nodes_def small_list_def node_key_def node_ok_irrelevant)
  moreover have "blocks_from 40 two_payments"
    by (simp add: blocks_from_def two_payments_def paying_block_def coinbase_block_def get_block_height_def unhashed_chain_def word_le_nat_alt)
  ultimately have "mset (map (block_winner \<circ> fst \<circ> snd) (take (length (funded_keys two_nodes)) two_payments)) = mset (funded_keys two_nodes)"
    using winners_rotate [of two_nodes 40 two_payments small_crypto] p s(1) r
    by (simp add: n two_payments_def) (auto simp: two_nodes_def small_node_def empty_info_def)
  with p show ?thesis by blast
qed

section \<open>The miner transaction\<close>

definition miner_fields :: "public_key \<Rightarrow> bytes \<Rightarrow> tx_extra_field list" where
  "miner_fields tx_pub extra_nonce = PubKey tx_pub # (if extra_nonce = [] then [] else [Nonce extra_nonce])"

lemma miner_fields_sorted: "sorted_fields (miner_fields pk n) = miner_fields pk n"
  by (simp add: miner_fields_def sorted_fields_def sort_order_def)

lemma miner_fields_valid: "length pk = 32 \<Longrightarrow> length n \<le> 127 \<Longrightarrow> valid_fields (miner_fields pk n)"
  by (auto simp: miner_fields_def valid_fields_def)

lemma miner_fields_encode:
  assumes "length n \<le> 127"
  shows "(if n \<noteq> [] then add_extra_nonce_to_tx_extra (add_tx_pub_key_to_extra [] pk) n else Some (add_tx_pub_key_to_extra [] pk))
    = Some (concat (map encode (miner_fields pk n)))"
proof -
  have "encode (Nonce n) = [0x02, word_of_nat (length n)] @ n"
    using nonce_short [OF assms] by (auto simp: encode_def store_field_def)
  moreover have "encode (PubKey pk) = 0x01 # pk" by (simp add: encode_def)
  ultimately show ?thesis
    using assms by (simp add: miner_fields_def add_extra_nonce_to_tx_extra_def add_tx_pub_key_to_extra_def add_data_to_tx_extra_def
        TX_EXTRA_NONCE_MAX_COUNT_def)
qed

lemma miner_extra:
  assumes "length pk = 32" and "length n \<le> 127" and "length ctrl = 32" and "length w = 32"
    and "sort_tx_extra (concat (map encode (miner_fields pk n))) False = Some ex"
  shows "get_full_node_winner_from_tx_extra (add_full_node_winner_to_tx_extra (add_tx_pub_key_to_extra ex ctrl) w) = w"
proof -
  have v: "valid_fields (miner_fields pk n)" using assms(1,2) by (rule miner_fields_valid)
  have "ex = concat (map encode (miner_fields pk n))"
    using sort_tx_extra_encode(1) [OF v, of False] assms(5) by (simp add: miner_fields_sorted) (auto simp: miner_fields_def)
  then have e: "add_full_node_winner_to_tx_extra (add_tx_pub_key_to_extra ex ctrl) w
      = concat (map encode (miner_fields pk n @ [PubKey ctrl, FullNodeWinner w]))"
    by (simp add: add_full_node_winner_to_tx_extra_def add_tx_pub_key_to_extra_def add_data_to_tx_extra_def encode_def)
  have "valid_fields (miner_fields pk n @ [PubKey ctrl, FullNodeWinner w])"
    using assms(1-4) by (auto simp: miner_fields_def valid_fields_def)
  from parse_encode [OF this] show ?thesis
    unfolding e get_full_node_winner_from_tx_extra_def
    by (simp add: find_tx_extra_field_by_type_def miner_fields_def List.map_filter_def)
qed

lemma winner_outputs_checked:
  assumes "full_node_outputs env sec tot (word_of_nat i) ws = Some os" and "length pre = Suc i"
  shows "check_winner_outputs env sec tot (pre @ os @ post) i ws"
  using assms
proof (induction ws arbitrary: i os pre)
  case (Cons w ws)
  obtain address portions where w: "w = (address, portions)" by fastforce
  obtain out os' where o: "make_output env address sec (1 + word_of_nat i) (get_portion_of_reward portions tot) = Some out"
      "full_node_outputs env sec tot (word_of_nat i + 1) ws = Some os'" "os = out # os'"
    using Cons.prems(1) by (auto simp: w bind_eq_Some_conv)
  have "full_node_outputs env sec tot (word_of_nat (Suc i)) ws = Some os'" using o(2) by (simp add: add.commute)
  from Cons.IH [OF this, of "pre @ [out]"] Cons.prems(2)
  have "check_winner_outputs env sec tot (pre @ os @ post) (Suc i) ws" by (simp add: o(3))
  moreover have "(pre @ os @ post) ! Suc i = out" using Cons.prems(2) o(3) by (simp add: nth_append)
  moreover obtain key where "get_deterministic_output_key env address sec (word_of_nat (i + 1)) = Some key"
      "amount out = get_portion_of_reward portions tot" "target out = txout_to_key key"
    using o(1) by (auto simp: make_output_def bind_eq_Some_conv add.commute)
  ultimately show ?case by (simp add: w)
qed simp

lemma full_node_outputs_length: "full_node_outputs env sec tot i ws = Some os \<Longrightarrow> length os = length ws"
  by (induction ws arbitrary: i os) (auto simp: bind_eq_Some_conv)

lemma reward_total:
  "get_antd_block_reward u m w a hf ctx = Some parts \<Longrightarrow> a \<noteq> 0 \<Longrightarrow> full_node_total parts = full_node_reward_formula (original_base_reward parts) hf"
  by (auto simp: get_antd_block_reward_def Let_def split: if_splits prod.splits)

text \<open>
  C3. The coinbase transaction that a miner builds for the winner of the list passes the check of the
  list, for every block after the first from version 9 on: the winner is read back from the extra
  field, and every output of the winner has the amount and the key that the check recomputes.
\<close>

theorem miner_tx_accepted:
  assumes "construct_miner_tx env uninit txkey wallet height median already weight fees miner extra_nonce hf (select_winner st) ws batched tx = Some mtx"
    and "get_antd_block_reward uninit median weight already (uint hf)
      \<lparr>ctx_height = height, fee = fees, batched_control = batched, snode_winner_info = ws\<rparr> = Some parts"
    and "get_winner_addresses_and_portions st = Some ws" and "list_ok st"
    and "9 \<le> hf" and "already \<noteq> 0" and "length extra_nonce \<le> 127"
    and "length (fst txkey) = 32" and "length (fst (get_deterministic_keypair_from_height env height)) = 32"
    and "length (select_winner st) = 32"
  shows "validate_miner_tx env mtx height (uint hf) parts st = Some True"
proof -
  obtain tx_pub tx_sec where k: "txkey = (tx_pub, tx_sec)" by fastforce
  obtain ctrl_pub ctrl_sec where c: "get_deterministic_keypair_from_height env height = (ctrl_pub, ctrl_sec)" by fastforce
  have ne: "ws \<noteq> []" using assms(4,3) by (cases rule: winner_info_ok) (auto simp: null_winner_def node_ok_def)
  note mk = miner_fields_encode [OF assms(7), of tx_pub]
  obtain ex outs where s: "sort_tx_extra (concat (map encode (miner_fields tx_pub extra_nonce))) False = Some ex"
    and o: "miner_tx_outputs env miner tx_sec ctrl_sec wallet ws already hf parts = Some outs"
    and t: "vout mtx = outs" "extra mtx = add_full_node_winner_to_tx_extra (add_tx_pub_key_to_extra ex ctrl_pub) (select_winner st)"
    using assms(1,2,6) ne unfolding construct_miner_tx_def k c
    by (auto simp: Let_def bind_eq_Some_conv mk split: if_splits)
  have w: "get_full_node_winner_from_tx_extra (extra mtx) = select_winner st"
    unfolding t(2) by (rule miner_extra [OF _ assms(7) _ assms(10) s]) (use assms(8,9) k c in simp_all)
  have hf: "network_version_9_full_nodes \<le> hf" "\<not> uint hf < 9"
    using assms(5) by (simp_all add: network_version_9_full_nodes_def word_le_def)
  obtain out os post where os: "full_node_outputs env ctrl_sec (full_node_total parts) 0 ws = Some os" "outs = out # os @ post"
    using o hf(1) unfolding miner_tx_outputs_def by (auto simp: Let_def bind_eq_Some_conv split: if_splits)
  have "length os = length ws" using os(1) by (rule full_node_outputs_length)
  moreover have "check_winner_outputs env ctrl_sec (full_node_total parts) outs 0 ws"
    using winner_outputs_checked [of env ctrl_sec "full_node_total parts" 0 ws os "[out]" post] os by simp
  ultimately show ?thesis
    using w hf(2) assms(3) os(2) t(1) c reward_total [OF assms(2,6)] by (simp add: validate_miner_tx_def Let_def)
qed

definition rewarded_list :: transient_state where
  "rewarded_list = small_list\<lparr>full_nodes_infos := [(node_key, small_node)]\<rparr>"

lemma rewarded_winner: "select_winner rewarded_list = node_key" "get_winner_addresses_and_portions rewarded_list = Some null_winner"
proof -
  show w: "select_winner rewarded_list = node_key" by code_simp
  have "node_ok small_node" using small_list_ok by (simp add: small_list_def list_ok_def)
  from winner_portion_val [OF this] have "\<forall>c \<in> set (contributors small_node). unat (winner_portion small_node c) = unat STAKING_PORTIONS"
    by (simp add: small_node_def STAKING_PORTIONS_def)
  then have "map (\<lambda>c. (cr_address c, winner_portion small_node c)) (contributors small_node) = null_winner"
    by (simp add: small_node_def null_winner_def word_unat_eq_iff)
  then show "get_winner_addresses_and_portions rewarded_list = Some null_winner"
    by (simp add: get_winner_addresses_and_portions_def w) (simp add: rewarded_list_def node_key_def null_pkey_def)
qed

lemma miner_parts_built:
  obtains parts outs where "get_antd_block_reward 0 300000 1000 1 (uint (9 :: u8))
      \<lparr>ctx_height = 5, fee = 3, batched_control = 0, snode_winner_info = null_winner\<rparr> = Some parts"
    and "miner_tx_outputs (key_crypto small_crypto) null_address node_key
       (snd (get_deterministic_keypair_from_height (key_crypto small_crypto) 5)) null_address null_winner 1 9 parts = Some outs"
    and "fold (\<lambda>out s. s + amount out) outs 0 = miner_reward parts + control parts + full_node_paid parts"
proof -
  let ?ctx = "\<lparr>ctx_height = 5, fee = 3, batched_control = 0, snode_winner_info = null_winner\<rparr>"
  let ?sec = "snd (get_deterministic_keypair_from_height (key_crypto small_crypto) 5)"
  have "get_base_block_reward 300000 1000 1 0 9 = (True, 600000000000)"
    by (simp add: get_base_block_reward_def get_min_block_weight_def COIN_def word_le_nat_alt word_less_nat_alt)
  then obtain parts where p: "get_antd_block_reward 0 300000 1000 1 (uint (9 :: u8)) ?ctx = Some parts"
      and c: "control parts \<noteq> 0"
    by (simp add: get_antd_block_reward_def Let_def control_reward_formula_def CONTROL_BASE_REWARD_DIVISOR_def)
  obtain outs where o: "miner_tx_outputs (key_crypto small_crypto) null_address node_key ?sec null_address null_winner 1 9 parts = Some outs"
    using c by (simp add: miner_tx_outputs_def null_winner_def make_output_def get_deterministic_output_key_def
        network_version_9_full_nodes_def small_crypto_def)
  have "null_winner \<noteq> []" by (simp add: null_winner_def)
  with miner_outputs_sum [OF p, of "key_crypto small_crypto" null_address node_key ?sec null_address outs] o
  show thesis by (intro that [OF p o]) (simp add: fold_add_sum)
qed

lemma miner_tx_built: "\<exists>mtx. construct_miner_tx (key_crypto small_crypto) 0 (node_key, node_key) null_address 5 300000 1
    1000 3 null_address [1, 2] 9 node_key null_winner 0 (miner_tx (coinbase_block 5)) = Some mtx"
proof -
  have v: "valid_fields (miner_fields node_key [1, 2])" by (rule miner_fields_valid) (simp_all add: node_key_def)
  have "sort_tx_extra (concat (map encode (miner_fields node_key [1, 2]))) False
      = Some (concat (map encode (sorted_fields (miner_fields node_key [1, 2]))))"
    by (rule sort_tx_extra_encode(1) [OF v]) (simp add: miner_fields_def)
  moreover have "add_extra_nonce_to_tx_extra (add_tx_pub_key_to_extra [] node_key) [1, 2]
      = Some (concat (map encode (miner_fields node_key [1, 2])))"
    using miner_fields_encode [of "[1, 2]" node_key] by simp
  moreover have "null_winner \<noteq> []" by (simp add: null_winner_def)
  moreover obtain parts outs where "get_antd_block_reward 0 300000 1000 1 (uint (9 :: u8))
      \<lparr>ctx_height = 5, fee = 3, batched_control = 0, snode_winner_info = null_winner\<rparr> = Some parts"
    "miner_tx_outputs (key_crypto small_crypto) null_address node_key
       (snd (get_deterministic_keypair_from_height (key_crypto small_crypto) 5)) null_address null_winner 1 9 parts = Some outs"
    "fold (\<lambda>out s. s + amount out) outs 0 = miner_reward parts + control parts + full_node_paid parts"
    by (rule miner_parts_built)
  ultimately show ?thesis
    by (simp add: construct_miner_tx_def Let_def case_prod_beta)
qed

theorem miner_tx_accepted_witness:
  "\<exists>parts mtx. construct_miner_tx (key_crypto small_crypto) 0 (node_key, node_key) null_address 5 300000 1 1000 3 null_address
       [1, 2] 9 (select_winner rewarded_list) null_winner 0 (miner_tx (coinbase_block 5)) = Some mtx
     \<and> validate_miner_tx (key_crypto small_crypto) mtx 5 (uint (9 :: u8)) parts rewarded_list = Some True"
proof -
  let ?ctx = "\<lparr>ctx_height = 5, fee = 3, batched_control = 0, snode_winner_info = null_winner\<rparr>"
  obtain mtx where m: "construct_miner_tx (key_crypto small_crypto) 0 (node_key, node_key) null_address 5 300000 1 1000 3 null_address
      [1, 2] 9 (select_winner rewarded_list) null_winner 0 (miner_tx (coinbase_block 5)) = Some mtx"
    using miner_tx_built by (auto simp: rewarded_winner)
  obtain parts where p: "get_antd_block_reward 0 300000 1000 1 (uint (9 :: u8)) ?ctx = Some parts"
    by (rule miner_parts_built)
  have "list_ok rewarded_list"
    using small_list_ok by (simp add: rewarded_list_def small_list_def list_ok_def)
  then have "validate_miner_tx (key_crypto small_crypto) mtx 5 (uint (9 :: u8)) parts rewarded_list = Some True"
    by (intro miner_tx_accepted [OF m p rewarded_winner(2)])
      (simp_all add: rewarded_winner node_key_def word_le_nat_alt get_deterministic_keypair_from_height_def small_crypto_def)
  with m show ?thesis by blast
qed

end
