(* ===== verification/Deregister.thy ===== *)
theory Deregister
  imports FullNodeList
begin

text \<open>
  Votes to deregister a full node, \<^verbatim>\<open>src/cryptonote_core/full_node_deregister.cpp\<close>: the check of a
  single vote and of a deregistration, and the pool of votes. The \<open>std::unordered_map\<close> of the pool is an
  association list in its iteration order; the time in its keys is 0 and does not take part in their
  comparison. Log messages and the mutex are left out, and so is the current time of \<open>add_vote\<close>, which
  it does not use.
\<close>

section \<open>Votes\<close>

definition MIN_VOTES_TO_KICK_FULL_NODE :: nat where "MIN_VOTES_TO_KICK_FULL_NODE = 7"
definition VOTE_LIFETIME_BY_HEIGHT :: u64 where "VOTE_LIFETIME_BY_HEIGHT = BLOCKS_EXPECTED_IN_HOURS 2"

record deregister_vote =
  vote_block_height :: u64
  vote_full_node_index :: u32
  vote_voters_quorum_index :: u32
  vote_signature :: signature

record vote_verification_context =
  m_verification_failed :: bool
  m_invalid_block_height :: bool
  m_duplicate_voters :: bool
  m_voters_quorum_index_out_of_bounds :: bool
  m_full_node_index_out_of_bounds :: bool
  m_signature_not_valid :: bool
  m_added_to_pool :: bool
  m_full_tx_deregister_made :: bool
  m_not_enough_votes :: bool

definition make_hash_from :: "staking_crypto \<Rightarrow> u64 \<Rightarrow> u32 \<Rightarrow> crypto_hash" where
  "make_hash_from env block_height full_node_index =
     cn_fast_hash env (u64_bytes block_height @ u32_bytes full_node_index)"

definition verify_votes_signature :: "staking_crypto \<Rightarrow> u64 \<Rightarrow> u32 \<Rightarrow> (public_key \<times> signature) list \<Rightarrow> bool" where
  "verify_votes_signature env block_height full_node_index keys_and_sigs =
     list_all (\<lambda>(key, sig). check_signature env (make_hash_from env block_height full_node_index) key sig) keys_and_sigs"

definition verify_vote_signature :: "staking_crypto \<Rightarrow> u64 \<Rightarrow> u32 \<Rightarrow> public_key \<Rightarrow> signature \<Rightarrow> bool" where
  "verify_vote_signature env block_height full_node_index p s =
     verify_votes_signature env block_height full_node_index [(p, s)]"

text \<open>
  The loop over the votes: \<open>quorum_set\<close> counts the votes per voter, \<open>keys_and_sigs\<close> is what has been
  collected. \<^const>\<open>None\<close> is the early return with \<^const>\<open>False\<close>.
\<close>

fun collect_votes :: "public_key list \<Rightarrow> nat list \<Rightarrow> (public_key \<times> signature) list \<Rightarrow> deregister_tx_vote list \<Rightarrow>
    vote_verification_context \<Rightarrow> vote_verification_context \<times> (public_key \<times> signature) list option" where
  "collect_votes quorum quorum_set keys_and_sigs [] vvc = (vvc, Some keys_and_sigs)"
| "collect_votes quorum quorum_set keys_and_sigs (vote # votes) vvc =
     (let i = unat (voters_quorum_index vote)
      in if i \<ge> length quorum then (vvc\<lparr>m_voters_quorum_index_out_of_bounds := True\<rparr>, None)
         else
           let quorum_set = quorum_set[i := Suc (quorum_set ! i)]
           in if quorum_set ! i > 1 then (vvc\<lparr>m_duplicate_voters := True\<rparr>, None)
              else collect_votes quorum quorum_set (keys_and_sigs @ [(quorum ! i, signature vote)]) votes vvc)"

definition verify_votes_helper :: "staking_crypto \<Rightarrow> tx_extra_full_node_deregister \<Rightarrow> vote_verification_context \<Rightarrow>
    quorum_state \<Rightarrow> bool \<times> vote_verification_context" where
  "verify_votes_helper env deregister vvc quorum =
     (if unat (dereg_full_node_index deregister) \<ge> length (nodes_to_test quorum)
      then (False, vvc\<lparr>m_full_node_index_out_of_bounds := True\<rparr>)
      else
        (case collect_votes (quorum_nodes quorum) (replicate (length (quorum_nodes quorum)) 0) [] (dereg_votes deregister) vvc of
           (vvc, None) \<Rightarrow> (False, vvc)
         | (vvc, Some keys_and_sigs) \<Rightarrow>
             if verify_votes_signature env (dereg_block_height deregister) (dereg_full_node_index deregister) keys_and_sigs
             then (True, vvc) else (False, vvc\<lparr>m_verification_failed := True\<rparr>)))"

definition verify_deregister :: "staking_crypto \<Rightarrow> tx_extra_full_node_deregister \<Rightarrow> vote_verification_context \<Rightarrow>
    quorum_state \<Rightarrow> bool \<times> vote_verification_context" where
  "verify_deregister env deregister vvc quorum =
     (if length (dereg_votes deregister) < MIN_VOTES_TO_KICK_FULL_NODE
      then (False, vvc\<lparr>m_not_enough_votes := True\<rparr>)
      else verify_votes_helper env deregister vvc quorum)"

definition verify_vote :: "staking_crypto \<Rightarrow> deregister_vote \<Rightarrow> vote_verification_context \<Rightarrow>
    quorum_state \<Rightarrow> bool \<times> vote_verification_context" where
  "verify_vote env v vvc quorum =
     verify_votes_helper env \<lparr>dereg_block_height = vote_block_height v, dereg_full_node_index = vote_full_node_index v,
       dereg_votes = [\<lparr>signature = vote_signature v, voters_quorum_index = vote_voters_quorum_index v\<rparr>]\<rparr> vvc quorum"

section \<open>The vote pool\<close>

record deregister_pool_entry =
  m_time_last_sent_p2p :: u64
  m_vote :: deregister_vote

type_synonym deregister_group = "u64 \<times> u32"
type_synonym deregister_vote_pool = "(deregister_group \<times> deregister_pool_entry list) list"

definition vote_group :: "deregister_vote \<Rightarrow> deregister_group" where
  "vote_group v = (vote_block_height v, vote_full_node_index v)"

fun mark_relayed :: "u64 \<Rightarrow> u32 \<Rightarrow> deregister_pool_entry list \<Rightarrow> deregister_pool_entry list" where
  "mark_relayed now i [] = []"
| "mark_relayed now i (e # es) =
     (if vote_voters_quorum_index (m_vote e) = i then e\<lparr>m_time_last_sent_p2p := now\<rparr> # es
      else e # mark_relayed now i es)"

definition set_relayed :: "u64 \<Rightarrow> deregister_vote list \<Rightarrow> deregister_vote_pool \<Rightarrow> deregister_vote_pool" where
  "set_relayed now votes pool =
     fold (\<lambda>v pool. AList.map_entry (vote_group v) (mark_relayed now (vote_voters_quorum_index v)) pool) votes pool"

text \<open>\<open>last_sent\<close> is a \<open>time_t\<close>: the unsigned difference is read as a signed number.\<close>

definition get_relayable_votes :: "u64 \<Rightarrow> deregister_vote_pool \<Rightarrow> deregister_vote list" where
  "get_relayable_votes now pool =
     [m_vote entry. (_, entries) \<leftarrow> pool, entry \<leftarrow> entries, sint (now - m_time_last_sent_p2p entry) > 60 * 2]"

definition add_full_node_deregister_to_tx_extra :: "bytes \<Rightarrow> tx_extra_full_node_deregister \<Rightarrow> bytes option" where
  "add_full_node_deregister_to_tx_extra tx_extra deregistration =
     add_tx_extra_field_to_tx_extra tx_extra (FullNodeDeregister deregistration)"

text \<open>The part of \<open>add_vote\<close> that makes the deregistration from the votes of a group.\<close>

definition make_deregister_tx :: "network_type \<Rightarrow> int \<Rightarrow> deregister_group \<Rightarrow> deregister_pool_entry list \<Rightarrow>
    transaction \<Rightarrow> bool \<times> transaction" where
  "make_deregister_tx net hf_version grp entries tx =
     (let deregister = \<lparr>dereg_block_height = fst grp, dereg_full_node_index = snd grp,
        dereg_votes = map (\<lambda>e. \<lparr>signature = vote_signature (m_vote e), voters_quorum_index = vote_voters_quorum_index (m_vote e)\<rparr>) entries\<rparr>
      in case add_full_node_deregister_to_tx_extra (extra tx) deregister of
           None \<Rightarrow> (False, tx)
         | Some ex \<Rightarrow> (True, tx\<lparr>extra := ex, version := get_max_version_for_hf hf_version net, tx_type := type_num type_deregister\<rparr>))"

definition add_vote :: "staking_crypto \<Rightarrow> network_type \<Rightarrow> int \<Rightarrow> deregister_vote \<Rightarrow> vote_verification_context \<Rightarrow>
    quorum_state \<Rightarrow> transaction \<Rightarrow> deregister_vote_pool \<Rightarrow>
    bool \<times> vote_verification_context \<times> transaction \<times> deregister_vote_pool" where
  "add_vote env net hf_version new_vote vvc quorum tx pool =
     (let (ok, vvc) = verify_vote env new_vote vvc quorum
      in if \<not> ok then (False, vvc, tx, pool)
         else
           let grp = vote_group new_vote;
               entries = (case map_of pool grp of None \<Rightarrow> [] | Some es \<Rightarrow> es)
           in if vote_voters_quorum_index new_vote \<in> (\<lambda>e. vote_voters_quorum_index (m_vote e)) ` set entries
              then (True, vvc, tx, AList.update grp entries pool)
              else
                let vvc = vvc\<lparr>m_added_to_pool := True\<rparr>;
                    entries = entries @ [\<lparr>m_time_last_sent_p2p = 0, m_vote = new_vote\<rparr>];
                    pool = AList.update grp entries pool
                in if length entries \<ge> MIN_VOTES_TO_KICK_FULL_NODE
                   then let (made, tx) = make_deregister_tx net hf_version grp entries tx
                        in (True, vvc\<lparr>m_full_tx_deregister_made := made\<rparr>, tx, pool)
                   else (True, vvc, tx, pool))"

definition remove_used_votes :: "transaction list \<Rightarrow> deregister_vote_pool \<Rightarrow> deregister_vote_pool" where
  "remove_used_votes txs pool =
     fold (\<lambda>tx pool.
         if get_type tx \<noteq> type_deregister then pool
         else case get_full_node_deregister_from_tx_extra (extra tx) of
           None \<Rightarrow> pool
         | Some d \<Rightarrow> AList.delete (dereg_block_height d, dereg_full_node_index d) pool) txs pool"

definition remove_expired_votes :: "u64 \<Rightarrow> deregister_vote_pool \<Rightarrow> deregister_vote_pool" where
  "remove_expired_votes height pool =
     (if height < VOTE_LIFETIME_BY_HEIGHT then pool
      else let minimum_height = height - VOTE_LIFETIME_BY_HEIGHT
           in filter (\<lambda>((h, _), _). \<not> h < minimum_height) pool)"

section \<open>Votes and deregistrations in the node\<close>

text \<open>
  \<open>core::add_deregister_vote\<close>; \<open>target_height\<close> is the height the peers report, \<open>handle_incoming_tx\<close> what the
  pool of transactions answers for the deregistration that the vote completes.
\<close>

definition add_deregister_vote :: "staking_crypto \<Rightarrow> chain_view \<Rightarrow> u64 \<Rightarrow> int \<Rightarrow> (transaction \<Rightarrow> bool) \<Rightarrow> transient_state \<Rightarrow>
    deregister_vote \<Rightarrow> vote_verification_context \<Rightarrow> transaction \<Rightarrow> deregister_vote_pool \<Rightarrow>
    bool \<times> vote_verification_context \<times> deregister_vote_pool" where
  "add_deregister_vote env chain target_height hf_version handle_incoming_tx st vote vvc empty_tx pool =
     (let latest_block_height = max (current_height chain) target_height;
          delta_height = latest_block_height - vote_block_height vote;
          vvc = (if vote_block_height vote < latest_block_height \<and> delta_height \<ge> VOTE_LIFETIME_BY_HEIGHT
                   \<or> vote_block_height vote > latest_block_height
                 then vvc\<lparr>m_invalid_block_height := True\<rparr> else vvc)
      in if m_invalid_block_height vvc then (False, vvc\<lparr>m_verification_failed := True\<rparr>, pool)
         else case get_quorum_state st (vote_block_height vote) of
           None \<Rightarrow> (False, vvc\<lparr>m_verification_failed := True, m_invalid_block_height := True\<rparr>, pool)
         | Some quorum \<Rightarrow>
             let (result, vvc, tx, pool) = add_vote env (nettype chain) hf_version vote vvc quorum empty_tx pool
             in (if result \<and> m_full_tx_deregister_made vvc then handle_incoming_tx tx else result, vvc, pool))"

text \<open>The members of \<open>tx_verification_context\<close> that the check of a deregistration sets.\<close>

record tx_verification_context =
  m_verifivation_failed :: bool
  m_double_spend :: bool
  m_vote_ctx :: vote_verification_context

text \<open>
  Whether a transaction of the chain deregisters the node with the given key; \<^const>\<open>None\<close> in the place of
  a transaction is a blob that does not parse, and every \<open>continue\<close> is \<^const>\<open>False\<close>. The index is in range
  for a transaction that has passed the check itself.
\<close>

definition deregisters_node :: "transient_state \<Rightarrow> public_key \<Rightarrow> transaction option \<Rightarrow> bool" where
  "deregisters_node st key existing_tx =
     (case existing_tx of
        None \<Rightarrow> False
      | Some tx \<Rightarrow>
          get_type tx = type_deregister
        \<and> (case get_full_node_deregister_from_tx_extra (extra tx) of
             None \<Rightarrow> False
           | Some existing \<Rightarrow>
               (case get_quorum_state st (dereg_block_height existing) of
                  None \<Rightarrow> False
                | Some quorum \<Rightarrow> nodes_to_test quorum ! unat (dereg_full_node_index existing) = key)))"

text \<open>
  The branch of \<open>Blockchain::check_tx_inputs\<close> for a deregistration; \<open>tx_blobs\<close> are the parsed transactions
  of a block, \<^const>\<open>None\<close> when one is missing.
\<close>

definition check_deregister_tx :: "staking_crypto \<Rightarrow> chain_view \<Rightarrow> (crypto_hash list \<Rightarrow> transaction option list option) \<Rightarrow>
    transient_state \<Rightarrow> transaction \<Rightarrow> tx_verification_context \<Rightarrow> bool \<times> tx_verification_context" where
  "check_deregister_tx env chain tx_blobs st tx tvc =
     (case get_full_node_deregister_from_tx_extra (extra tx) of
        None \<Rightarrow> (False, tvc)
      | Some deregister \<Rightarrow>
          (case get_quorum_state st (dereg_block_height deregister) of
             None \<Rightarrow> (False, tvc)
           | Some quorum \<Rightarrow>
               let (ok, vvc) = verify_deregister env deregister (m_vote_ctx tvc) quorum;
                   tvc = tvc\<lparr>m_vote_ctx := vvc\<rparr>;
                   invalid_height = tvc\<lparr>m_vote_ctx := vvc\<lparr>m_invalid_block_height := True\<rparr>, m_verifivation_failed := True\<rparr>
               in if \<not> ok then (False, tvc\<lparr>m_verifivation_failed := True\<rparr>)
                  else if dereg_block_height deregister \<ge> current_height chain then (False, invalid_height)
                  else if current_height chain - dereg_block_height deregister \<ge> VOTE_LIFETIME_BY_HEIGHT then (False, invalid_height)
                  else (case get_blocks chain (dereg_block_height deregister) (unat VOTE_LIFETIME_BY_HEIGHT) of
                    None \<Rightarrow> (False, tvc)
                  | Some bs \<Rightarrow>
                      (case those (map (\<lambda>b. tx_blobs (tx_hashes b)) bs) of
                         None \<Rightarrow> (False, tvc)
                       | Some txss \<Rightarrow>
                           if list_ex (deregisters_node st (nodes_to_test quorum ! unat (dereg_full_node_index deregister))) (concat txss)
                           then (False, tvc\<lparr>m_double_spend := True\<rparr>) else (True, tvc)))))"

section \<open>Checking votes\<close>

abbreviation vote_index :: "deregister_tx_vote \<Rightarrow> nat" where
  "vote_index v \<equiv> unat (voters_quorum_index v)"

lemma collect_votes_cases:
  assumes "length qs = length quorum"
  shows "if distinct (map vote_index votes) \<and> (\<forall>v \<in> set votes. vote_index v < length quorum \<and> qs ! vote_index v = 0)
    then collect_votes quorum qs ks votes vvc = (vvc, Some (ks @ map (\<lambda>v. (quorum ! vote_index v, signature v)) votes))
    else snd (collect_votes quorum qs ks votes vvc) = None"
  using assms
proof (induction votes arbitrary: qs ks)
  case (Cons v votes)
  let ?i = "vote_index v"
  let ?qs = "qs[?i := Suc (qs ! ?i)]"
  show ?case
  proof (cases "?i < length quorum \<and> qs ! ?i = 0")
    case True
    then have c: "collect_votes quorum qs ks (v # votes) vvc = collect_votes quorum ?qs (ks @ [(quorum ! ?i, signature v)]) votes vvc"
      using Cons.prems by (simp add: Let_def)
    have "distinct (map vote_index (v # votes)) \<and> (\<forall>w \<in> set (v # votes). vote_index w < length quorum \<and> qs ! vote_index w = 0)
        \<longleftrightarrow> distinct (map vote_index votes) \<and> (\<forall>w \<in> set votes. vote_index w < length quorum \<and> ?qs ! vote_index w = 0)"
      using True Cons.prems by (auto simp: nth_list_update)
    then show ?thesis
      unfolding c using Cons.IH [of ?qs "ks @ [(quorum ! ?i, signature v)]"] Cons.prems by (simp only: length_list_update) simp
  next
    case False
    then have "snd (collect_votes quorum qs ks (v # votes) vvc) = None" using Cons.prems by (auto simp: Let_def)
    then show ?thesis using False by auto
  qed
qed simp

lemma verify_votes_helper_iff:
  "fst (verify_votes_helper env d vvc q) \<longleftrightarrow>
     unat (dereg_full_node_index d) < length (nodes_to_test q) \<and> distinct (map vote_index (dereg_votes d))
   \<and> (\<forall>v \<in> set (dereg_votes d). vote_index v < length (quorum_nodes q)
       \<and> check_signature env (make_hash_from env (dereg_block_height d) (dereg_full_node_index d)) (quorum_nodes q ! vote_index v) (signature v))"
proof -
  let ?n = "length (quorum_nodes q)"
  show ?thesis
  proof (cases "distinct (map vote_index (dereg_votes d)) \<and> (\<forall>v \<in> set (dereg_votes d). vote_index v < ?n)")
    case True
    then have "collect_votes (quorum_nodes q) (replicate ?n 0) [] (dereg_votes d) vvc
        = (vvc, Some (map (\<lambda>v. (quorum_nodes q ! vote_index v, signature v)) (dereg_votes d)))"
      using collect_votes_cases [of "replicate ?n 0" "quorum_nodes q" "dereg_votes d" "[]" vvc] by (auto split: if_splits)
    then show ?thesis
      using True by (auto simp: verify_votes_helper_def verify_votes_signature_def list_all_iff)
  next
    case False
    then have "snd (collect_votes (quorum_nodes q) (replicate ?n 0) [] (dereg_votes d) vvc) = None"
      using collect_votes_cases [of "replicate ?n 0" "quorum_nodes q" "dereg_votes d" "[]" vvc] by (auto split: if_splits)
    then show ?thesis using False by (auto simp: verify_votes_helper_def split: prod.splits)
  qed
qed

lemma distinct_below_length: "distinct xs \<Longrightarrow> \<forall>x \<in> set xs. x < n \<Longrightarrow> length xs \<le> n"
  using card_mono [of "{..<n}" "set xs"] by (auto simp: distinct_card)

text \<open>
  C9. A deregistration is accepted exactly when it has at least seven votes, names a node to test, and its
  votes are of different members of the quorum with valid signatures over the height and the index.
\<close>

theorem verify_deregister_correct:
  "fst (verify_deregister env d vvc q) \<longleftrightarrow>
     7 \<le> length (dereg_votes d) \<and> unat (dereg_full_node_index d) < length (nodes_to_test q)
   \<and> distinct (map vote_index (dereg_votes d))
   \<and> (\<forall>v \<in> set (dereg_votes d). vote_index v < length (quorum_nodes q)
       \<and> check_signature env (make_hash_from env (dereg_block_height d) (dereg_full_node_index d)) (quorum_nodes q ! vote_index v) (signature v))"
  using verify_votes_helper_iff by (auto simp: verify_deregister_def MIN_VOTES_TO_KICK_FULL_NODE_def)

definition no_context :: vote_verification_context where
  "no_context = \<lparr>m_verification_failed = False, m_invalid_block_height = False, m_duplicate_voters = False,
     m_voters_quorum_index_out_of_bounds = False, m_full_node_index_out_of_bounds = False, m_signature_not_valid = False,
     m_added_to_pool = False, m_full_tx_deregister_made = False, m_not_enough_votes = False\<rparr>"

definition key_signature_crypto :: staking_crypto where
  "key_signature_crypto = \<lparr>key_crypto = \<lparr>generate_key_derivation = \<lambda>p s. Some p, derive_public_key = \<lambda>d i p. Some p, recover_keys = \<lambda>s. (s, s)\<rparr>,
     check_key = \<lambda>_. True, check_signature = \<lambda>_ k s. k = s, check_ring_signature = \<lambda>_ _ _ _. True,
     cn_fast_hash = \<lambda>_. replicate 32 1, decode_amount = \<lambda>_ _ _. 0\<rparr>"

theorem verify_deregister_correct_witness:
  "fst (verify_deregister key_signature_crypto \<lparr>dereg_block_height = 9, dereg_full_node_index = 0,
       dereg_votes = map (\<lambda>i. \<lparr>signature = [word_of_nat i], voters_quorum_index = word_of_nat i\<rparr>) [0..<7]\<rparr> no_context
     \<lparr>quorum_nodes = map (\<lambda>i. [word_of_nat i]) [0..<8], nodes_to_test = [[9]]\<rparr>)"
  unfolding verify_deregister_correct by (simp add: key_signature_crypto_def upt_rec)

section \<open>The pool\<close>

text \<open>In every group of the pool the votes are for that group, of different voters below \<open>n\<close>.\<close>

definition group_ok :: "nat \<Rightarrow> deregister_group \<Rightarrow> deregister_vote list \<Rightarrow> bool" where
  "group_ok n g votes \<longleftrightarrow> distinct (map vote_voters_quorum_index votes)
     \<and> (\<forall>v \<in> set votes. unat (vote_voters_quorum_index v) < n \<and> vote_group v = g)"

definition pool_ok :: "nat \<Rightarrow> deregister_vote_pool \<Rightarrow> bool" where
  "pool_ok n pool \<longleftrightarrow> list_all (\<lambda>p. group_ok n (fst p) (map m_vote (snd p))) pool"

lemma mark_relayed_votes: "map m_vote (mark_relayed now i es) = map m_vote es"
  by (induction es) auto

lemma pool_ok_update: "pool_ok n pool \<Longrightarrow> group_ok n g (map m_vote es) \<Longrightarrow> pool_ok n (AList.update g es pool)"
  by (induction pool) (auto simp: pool_ok_def)

lemma pool_ok_map_of: "pool_ok n pool \<Longrightarrow> map_of pool g = Some es \<Longrightarrow> group_ok n g (map m_vote es)"
  using map_of_SomeD [of pool g es] by (force simp: pool_ok_def list_all_iff)

lemma pool_ok_filter: "pool_ok n pool \<Longrightarrow> pool_ok n (filter P pool)"
  by (simp add: pool_ok_def list_all_iff)

lemma set_relayed_ok: "pool_ok n pool \<Longrightarrow> pool_ok n (set_relayed now votes pool)"
proof (induction votes arbitrary: pool)
  case (Cons v votes)
  have "pool_ok n (AList.map_entry g (mark_relayed now i) pool)" if "pool_ok n pool" for g i pool
    using that by (induction pool) (auto simp: pool_ok_def mark_relayed_votes)
  then show ?case using Cons by (simp add: set_relayed_def)
qed (simp add: set_relayed_def)

lemma remove_used_votes_ok: "pool_ok n pool \<Longrightarrow> pool_ok n (remove_used_votes txs pool)"
  unfolding remove_used_votes_def
  by (induction txs arbitrary: pool) (auto simp: AList.delete_eq pool_ok_filter split: option.splits)

lemma remove_expired_votes_ok: "pool_ok n pool \<Longrightarrow> pool_ok n (remove_expired_votes h pool)"
  by (simp add: remove_expired_votes_def pool_ok_filter Let_def)

lemma verify_vote_iff:
  "fst (verify_vote env v vvc q) \<longleftrightarrow>
     unat (vote_full_node_index v) < length (nodes_to_test q) \<and> unat (vote_voters_quorum_index v) < length (quorum_nodes q)
   \<and> check_signature env (make_hash_from env (vote_block_height v) (vote_full_node_index v))
       (quorum_nodes q ! unat (vote_voters_quorum_index v)) (vote_signature v)"
  by (simp add: verify_vote_def verify_votes_helper_iff)

lemma verify_vote_made: "m_full_tx_deregister_made (snd (verify_vote env v vvc q)) = m_full_tx_deregister_made vvc"
  by (simp add: verify_vote_def verify_votes_helper_def Let_def)

lemma add_vote_ok:
  assumes "pool_ok n pool" and "length (quorum_nodes q) \<le> n" and "add_vote env net hf v vvc q tx pool = (r, vvc', tx', pool')"
  shows "pool_ok n pool'" and "n < 7 \<Longrightarrow> m_full_tx_deregister_made vvc' = m_full_tx_deregister_made vvc \<and> tx' = tx"
proof -
  obtain ok vvc1 where v: "verify_vote env v vvc q = (ok, vvc1)" by fastforce
  define es where "es = (case map_of pool (vote_group v) of None \<Rightarrow> [] | Some es \<Rightarrow> es)"
  have es: "group_ok n (vote_group v) (map m_vote es)"
    using pool_ok_map_of [OF assms(1)] by (auto simp: es_def group_ok_def split: option.splits)
  note a = assms(3) [unfolded add_vote_def v Let_def prod.case, folded es_def]
  have made: "m_full_tx_deregister_made vvc1 = m_full_tx_deregister_made vvc" using verify_vote_made [of env v vvc q] v by simp
  have "pool_ok n pool' \<and> (n < 7 \<longrightarrow> m_full_tx_deregister_made vvc' = m_full_tx_deregister_made vvc \<and> tx' = tx)"
  proof (cases "ok \<and> vote_voters_quorum_index v \<notin> (\<lambda>e. vote_voters_quorum_index (m_vote e)) ` set es")
    case False
    then show ?thesis using assms(1) a made pool_ok_update [OF assms(1) es] by (cases ok) auto
  next
    case True
    let ?es = "es @ [\<lparr>m_time_last_sent_p2p = 0, m_vote = v\<rparr>]"
    have "unat (vote_voters_quorum_index v) < n" using True v verify_vote_iff [of env v vvc q] assms(2) by simp
    then have g: "group_ok n (vote_group v) (map m_vote ?es)" using es True by (auto simp: group_ok_def)
    then have "length (map (\<lambda>v. unat (vote_voters_quorum_index v)) (map m_vote ?es)) \<le> n"
      by (intro distinct_below_length) (auto simp: group_ok_def distinct_map inj_on_def word_unat_eq_iff)
    then have "n < 7 \<Longrightarrow> \<not> MIN_VOTES_TO_KICK_FULL_NODE \<le> length ?es" by (simp add: MIN_VOTES_TO_KICK_FULL_NODE_def)
    then show ?thesis using True a made pool_ok_update [OF assms(1) g] by (auto split: if_splits prod.splits)
  qed
  then show "pool_ok n pool'" and "n < 7 \<Longrightarrow> m_full_tx_deregister_made vvc' = m_full_tx_deregister_made vvc \<and> tx' = tx" by blast+
qed

end
