(* ===== verification/QuorumCop.thy ===== *)
theory QuorumCop
  imports Deregister
begin

text \<open>
  The quorum cop, \<^verbatim>\<open>src/cryptonote_core/full_node_quorum_cop.cpp\<close>: it records the uptime proofs of full
  nodes and, for every block whose quorum it is a member of, votes off the nodes to test that have sent
  none. The clock, the keys of the node and what it asks the core are parameters.
\<close>

definition REORG_SAFETY_BUFFER_IN_BLOCKS :: u64 where "REORG_SAFETY_BUFFER_IN_BLOCKS = 20"
definition UPTIME_PROOF_FREQUENCY_IN_SECONDS :: u64 where "UPTIME_PROOF_FREQUENCY_IN_SECONDS = 60 * 60"
definition UPTIME_PROOF_BUFFER_IN_SECONDS :: u64 where "UPTIME_PROOF_BUFFER_IN_SECONDS = 5 * 60"
definition UPTIME_PROOF_MAX_TIME_IN_SECONDS :: u64 where
  "UPTIME_PROOF_MAX_TIME_IN_SECONDS = UPTIME_PROOF_FREQUENCY_IN_SECONDS * 2 + UPTIME_PROOF_BUFFER_IN_SECONDS"
definition ANTD_VERSION_MAJOR :: u16 where "ANTD_VERSION_MAJOR = 7"
definition ANTD_VERSION_MINOR :: u16 where "ANTD_VERSION_MINOR = 0"
definition ANTD_VERSION_PATCH :: u16 where "ANTD_VERSION_PATCH = 0"

record quorum_cop =
  m_last_height :: u64
  m_uptime_proof_seen :: "(public_key \<times> u64) list"

text \<open>What the quorum cop asks of the core; \<open>sign\<close> is \<open>crypto::generate_signature\<close>.\<close>

record cop_core =
  core_chain :: chain_view
  core_list :: transient_state
  core_target_height :: u64
  core_keys :: "(public_key \<times> secret_key) option"
  core_start_time :: int
  core_sign :: "crypto_hash \<Rightarrow> public_key \<Rightarrow> secret_key \<Rightarrow> signature"

record uptime_proof =
  snode_version_major :: u16
  snode_version_minor :: u16
  snode_version_patch :: u16
  proof_timestamp :: u64
  proof_pubkey :: public_key
  proof_sig :: signature

definition cop_init :: quorum_cop where
  "cop_init = \<lparr>m_last_height = 0, m_uptime_proof_seen = []\<rparr>"

definition cop_blockchain_detached :: "u64 \<Rightarrow> quorum_cop \<Rightarrow> quorum_cop" where
  "cop_blockchain_detached height cop =
     (if m_last_height cop \<ge> height then cop\<lparr>m_last_height := height\<rparr> else cop)"

definition sign_vote :: "staking_crypto \<Rightarrow> cop_core \<Rightarrow> u64 \<Rightarrow> u32 \<Rightarrow> public_key \<Rightarrow> secret_key \<Rightarrow> signature" where
  "sign_vote env core block_height full_node_index pub sec =
     core_sign core (make_hash_from env block_height full_node_index) pub sec"

text \<open>The votes for one height: the body of the loop of \<open>block_added\<close>.\<close>

definition votes_at :: "staking_crypto \<Rightarrow> cop_core \<Rightarrow> public_key \<Rightarrow> secret_key \<Rightarrow> (public_key \<times> u64) list \<Rightarrow> u64 \<Rightarrow> deregister_vote list" where
  "votes_at env core my_pubkey my_seckey seen height =
     (if hard_fork_version (core_chain core) height < 9 then []
      else case get_quorum_state (core_list core) height of
        None \<Rightarrow> []
      | Some state \<Rightarrow>
          (case find (\<lambda>(_, k). k = my_pubkey) (enumerate 0 (quorum_nodes state)) of
             None \<Rightarrow> []
           | Some (my_index_in_quorum, _) \<Rightarrow>
               [\<lparr>vote_block_height = height, vote_full_node_index = word_of_nat node_index,
                 vote_voters_quorum_index = word_of_nat my_index_in_quorum,
                 vote_signature = sign_vote env core height (word_of_nat node_index) my_pubkey my_seckey\<rparr>.
                 (node_index, node_key) \<leftarrow> enumerate 0 (nodes_to_test state),
                 map_of seen node_key = None]))"

lemma unat_next_below: "(x :: u64) < y \<Longrightarrow> unat (x + 1) = Suc (unat x)"
  using unat_u64_less [of y] by (simp add: word_less_nat_alt unat_add_nowrap)

text \<open>The loop over the heights; \<open>stop\<close> is \<open>height - REORG_SAFETY_BUFFER_IN_BLOCKS\<close>.\<close>

function votes_loop :: "staking_crypto \<Rightarrow> cop_core \<Rightarrow> public_key \<Rightarrow> secret_key \<Rightarrow> u64 \<Rightarrow> quorum_cop \<Rightarrow>
    quorum_cop \<times> deregister_vote list" where
  "votes_loop env core my_pubkey my_seckey stop cop =
     (if m_last_height cop < stop
      then let votes = votes_at env core my_pubkey my_seckey (m_uptime_proof_seen cop) (m_last_height cop);
               (cop, rest) = votes_loop env core my_pubkey my_seckey stop (cop\<lparr>m_last_height := m_last_height cop + 1\<rparr>)
           in (cop, votes @ rest)
      else (cop, []))"
  by pat_completeness auto
termination
  by (relation "measure (\<lambda>(env, core, pk, sk, stop, cop). unat stop - unat (m_last_height cop))")
    (auto simp: word_less_nat_alt unat_next_below)

declare votes_loop.simps [simp del]

text \<open>\<open>block_added\<close>: the new state and the votes passed to \<open>core::add_deregister_vote\<close>, in order.\<close>

definition cop_block_added :: "staking_crypto \<Rightarrow> cop_core \<Rightarrow> int \<Rightarrow> block \<Rightarrow> quorum_cop \<Rightarrow> quorum_cop \<times> deregister_vote list" where
  "cop_block_added env core now b cop =
     (let height = get_block_height b
      in if hard_fork_version (core_chain core) height < 9 then (cop, [])
         else case core_keys core of
           None \<Rightarrow> (cop, [])
         | Some (my_pubkey, my_seckey) \<Rightarrow>
             if now - core_start_time core < 60 * 60 * 2 then (cop, [])
             else
               let latest_height = max (current_height (core_chain core)) (core_target_height core)
               in if latest_height < VOTE_LIFETIME_BY_HEIGHT then (cop, [])
                  else
                    let execute_justice_from_height = latest_height - VOTE_LIFETIME_BY_HEIGHT
                    in if height < execute_justice_from_height then (cop, [])
                       else
                         let cop = (if m_last_height cop < execute_justice_from_height
                                    then cop\<lparr>m_last_height := execute_justice_from_height\<rparr> else cop)
                         in votes_loop env core my_pubkey my_seckey (height - REORG_SAFETY_BUFFER_IN_BLOCKS) cop)"

definition make_hash :: "staking_crypto \<Rightarrow> public_key \<Rightarrow> u64 \<Rightarrow> crypto_hash" where
  "make_hash env pubkey ts = cn_fast_hash env ([0x53, 0x55, 0x50, 0x00] @ pubkey @ u64_bytes ts)"

text \<open>\<open>m_uptime_proof_seen[pubkey]\<close> in the test of the last proof inserts 0 for a node that has none.\<close>

definition handle_uptime_proof :: "staking_crypto \<Rightarrow> cop_core \<Rightarrow> u64 \<Rightarrow> uptime_proof \<Rightarrow> quorum_cop \<Rightarrow> bool \<times> quorum_cop" where
  "handle_uptime_proof env core now proof cop =
     (let ts = proof_timestamp proof; pubkey = proof_pubkey proof
      in if ts < now - UPTIME_PROOF_BUFFER_IN_SECONDS \<or> ts > now + UPTIME_PROOF_BUFFER_IN_SECONDS then (False, cop)
         else if \<not> is_full_node (core_list core) pubkey then (False, cop)
         else
           let ver = hard_fork_version (core_chain core) (current_height (core_chain core))
           in if ver = network_version_11_infinite_staking \<and> snode_version_major proof < 3
                 \<or> ver = network_version_10_bulletproofs \<and> snode_version_major proof < 2 then (False, cop)
              else
                let last = (case map_of (m_uptime_proof_seen cop) pubkey of None \<Rightarrow> 0 | Some t \<Rightarrow> t);
                    cop = cop\<lparr>m_uptime_proof_seen := AList.update pubkey last (m_uptime_proof_seen cop)\<rparr>
                in if last \<ge> now - UPTIME_PROOF_FREQUENCY_IN_SECONDS div 2 then (False, cop)
                   else if \<not> check_signature env (make_hash env pubkey ts) pubkey (proof_sig proof) then (False, cop)
                   else (True, cop\<lparr>m_uptime_proof_seen := AList.update pubkey now (m_uptime_proof_seen cop)\<rparr>))"

definition generate_uptime_proof_request :: "staking_crypto \<Rightarrow> cop_core \<Rightarrow> u64 \<Rightarrow> public_key \<times> secret_key \<Rightarrow> uptime_proof" where
  "generate_uptime_proof_request env core now keys =
     (let ver = hard_fork_version (core_chain core) (current_height (core_chain core));
          (major, minor) = (if ver = network_version_10_bulletproofs then (2, ANTD_VERSION_MAJOR)
                            else (ANTD_VERSION_MAJOR, ANTD_VERSION_MINOR))
      in \<lparr>snode_version_major = major, snode_version_minor = minor, snode_version_patch = ANTD_VERSION_PATCH,
          proof_timestamp = now, proof_pubkey = fst keys,
          proof_sig = core_sign core (make_hash env (fst keys) now) (fst keys) (snd keys)\<rparr>)"

definition prune_uptime_proof :: "u64 \<Rightarrow> quorum_cop \<Rightarrow> quorum_cop" where
  "prune_uptime_proof now cop =
     (let prune_from_timestamp = now - UPTIME_PROOF_MAX_TIME_IN_SECONDS
      in cop\<lparr>m_uptime_proof_seen := filter (\<lambda>(_, t). \<not> t < prune_from_timestamp) (m_uptime_proof_seen cop)\<rparr>)"

definition get_uptime_proof :: "public_key \<Rightarrow> quorum_cop \<Rightarrow> u64" where
  "get_uptime_proof pubkey cop = (case map_of (m_uptime_proof_seen cop) pubkey of None \<Rightarrow> 0 | Some t \<Rightarrow> t)"

section \<open>Voting\<close>

lemma votes_loop_range:
  "votes_loop env core pk sk stop cop =
     (cop\<lparr>m_last_height := max (m_last_height cop) stop\<rparr>,
      concat (map (\<lambda>h. votes_at env core pk sk (m_uptime_proof_seen cop) (word_of_nat h)) [unat (m_last_height cop)..<unat stop]))"
proof (induction env core pk sk stop cop rule: votes_loop.induct)
  case (1 env core pk sk stop cop)
  show ?case
  proof (cases "m_last_height cop < stop")
    case True
    note n = unat_next_below [OF True]
    have u: "[unat (m_last_height cop)..<unat stop] = unat (m_last_height cop) # [unat (m_last_height cop + 1)..<unat stop]"
      unfolding n by (rule upt_conv_Cons) (use True in \<open>simp add: word_less_nat_alt\<close>)
    have "max (m_last_height cop + 1) stop = stop" using True n by (simp add: max_def word_le_nat_alt word_less_nat_alt)
    then show ?thesis
      using 1 [OF True refl] True by (subst votes_loop.simps) (simp add: u max_def)
  next
    case False
    then have "max (m_last_height cop) stop = m_last_height cop" "unat stop \<le> unat (m_last_height cop)"
      by (simp_all add: not_less max_absorb1 word_le_nat_alt)
    then show ?thesis using False by (subst votes_loop.simps) simp
  qed
qed

lemma votes_at_member:
  assumes "v \<in> set (votes_at env core pk sk seen h)"
  obtains state i j where "get_quorum_state (core_list core) h = Some state" and "i < length (quorum_nodes state)"
    and "quorum_nodes state ! i = pk" and "j < length (nodes_to_test state)"
    and "map_of seen (nodes_to_test state ! j) = None"
    and "v = \<lparr>vote_block_height = h, vote_full_node_index = word_of_nat j, vote_voters_quorum_index = word_of_nat i,
      vote_signature = sign_vote env core h (word_of_nat j) pk sk\<rparr>"
proof -
  have "get_quorum_state (core_list core) h = None \<Longrightarrow> votes_at env core pk sk seen h = []" by (simp add: votes_at_def)
  then obtain state where st: "get_quorum_state (core_list core) h = Some state" using assms by fastforce
  have "find (\<lambda>(_, k). k = pk) (enumerate 0 (quorum_nodes state)) = None \<Longrightarrow> votes_at env core pk sk seen h = []"
    using st by (simp add: votes_at_def)
  then obtain i k where f: "find (\<lambda>(_, k). k = pk) (enumerate 0 (quorum_nodes state)) = Some (i, k)" using assms by fastforce
  then have i: "i < length (quorum_nodes state)" "quorum_nodes state ! i = pk"
    by (auto simp: find_Some_iff nth_enumerate_eq)
  obtain j where "j < length (nodes_to_test state)" "map_of seen (nodes_to_test state ! j) = None"
    "v = \<lparr>vote_block_height = h, vote_full_node_index = word_of_nat j, vote_voters_quorum_index = word_of_nat i,
      vote_signature = sign_vote env core h (word_of_nat j) pk sk\<rparr>"
    using assms st f by (auto simp: votes_at_def in_set_enumerate_eq split: if_splits)
  with that st i show thesis by blast
qed


definition voting_core :: cop_core where
  "voting_core = \<lparr>core_chain = \<lparr>nettype = TESTNET, hard_fork_version = \<lambda>_. 9, block_id_by_height = \<lambda>_. [1], block_at = \<lambda>_. None,
       get_transactions = \<lambda>_. None, hardfork_9_from_height = 0, current_height = 91\<rparr>,
     core_list = \<lparr>full_nodes_infos = [([6], empty_info)], key_image_blacklist = [],
       quorum_states = [(69, \<lparr>quorum_nodes = [[4], [5]], nodes_to_test = [[6], [7]]\<rparr>)], rollback_events = [], state_height = 91\<rparr>,
     core_target_height = 0, core_keys = Some ([5], [1]), core_start_time = 0, core_sign = \<lambda>h k s. if k = [5] \<and> s = [1] then k else []\<rparr>"

definition coinbase_at :: "u64 \<Rightarrow> block" where
  "coinbase_at h = \<lparr>major_version = 9, minor_version = 9, timestamp = 0, prev_id = [], nonce = 0,
     miner_tx = \<lparr>version = 2, unlock_time = 0, vin = [txin_gen h], vout = [], extra = [], output_unlock_times = [],
       tx_type = 0, txnFee = 0\<rparr>, tx_hashes = []\<rparr>"

definition watching_cop :: quorum_cop where
  "watching_cop = \<lparr>m_last_height = 68, m_uptime_proof_seen = [([7], 3)]\<rparr>"

lemma voting_core_quorum:
  "get_quorum_state (core_list voting_core) h = Some q \<longleftrightarrow> h = 69 \<and> q = \<lparr>quorum_nodes = [[4], [5]], nodes_to_test = [[6], [7]]\<rparr>"
  by (auto simp: get_quorum_state_def voting_core_def)


section \<open>Uptime proofs\<close>

text \<open>
  C39. A proof with a bad signature counts as an uptime proof: when it arrives in time and is for a
  registered node it is rejected, but afterwards the quorum cop does not vote against that node.
\<close>

theorem unsigned_proof_counts:
  assumes "\<not> check_signature env (make_hash env (proof_pubkey proof) (proof_timestamp proof)) (proof_pubkey proof) (proof_sig proof)"
    and "now - UPTIME_PROOF_BUFFER_IN_SECONDS \<le> proof_timestamp proof" and "proof_timestamp proof \<le> now + UPTIME_PROOF_BUFFER_IN_SECONDS"
    and "is_full_node (core_list core) (proof_pubkey proof)" and "3 \<le> snode_version_major proof"
    and "\<forall>h q. get_quorum_state (core_list core) h = Some q \<longrightarrow> length (nodes_to_test q) < 2 ^ 32"
  shows "\<exists>cop'. handle_uptime_proof env core now proof cop = (False, cop')
    \<and> (\<forall>pk sk h q. \<forall>v \<in> set (votes_at env core pk sk (m_uptime_proof_seen cop') h).
         get_quorum_state (core_list core) h = Some q \<longrightarrow> nodes_to_test q ! unat (vote_full_node_index v) \<noteq> proof_pubkey proof)"
proof -
  let ?k = "proof_pubkey proof"
  define last where "last = (case map_of (m_uptime_proof_seen cop) ?k of None \<Rightarrow> 0 | Some t \<Rightarrow> t)"
  let ?seen = "AList.update ?k last (m_uptime_proof_seen cop)"
  have "\<not> snode_version_major proof < 3" "\<not> snode_version_major proof < 2"
    using assms(5) unfolding word_le_nat_alt word_less_nat_alt by simp_all
  then have "handle_uptime_proof env core now proof cop = (False, cop\<lparr>m_uptime_proof_seen := ?seen\<rparr>)"
    using assms(1,4) assms(2,3) [folded not_less] by (simp add: handle_uptime_proof_def Let_def last_def [symmetric])
  moreover have "nodes_to_test q ! unat (vote_full_node_index v) \<noteq> ?k"
    if v: "v \<in> set (votes_at env core pk sk ?seen h)" and q: "get_quorum_state (core_list core) h = Some q" for pk sk h q v
  proof -
    obtain j where "j < length (nodes_to_test q)" "map_of ?seen (nodes_to_test q ! j) = None" "vote_full_node_index v = word_of_nat j"
      using v by (rule votes_at_member) (use q in auto)
    moreover have "unat (word_of_nat j :: u32) = j"
      using assms(6) [rule_format, OF q] calculation(1) by (simp add: unat_of_nat)
    ultimately show ?thesis by (auto simp: update_conv' split: if_splits)
  qed
  ultimately show ?thesis by auto
qed

definition forged_proof :: uptime_proof where
  "forged_proof = \<lparr>snode_version_major = 7, snode_version_minor = 0, snode_version_patch = 0, proof_timestamp = 5000,
     proof_pubkey = [6], proof_sig = []\<rparr>"

theorem unsigned_proof_counts_witness:
  "votes_at key_signature_crypto voting_core [5] [1] (m_uptime_proof_seen watching_cop) 69 \<noteq> []
   \<and> (\<exists>cop'. handle_uptime_proof key_signature_crypto voting_core 5000 forged_proof watching_cop = (False, cop')
       \<and> (\<forall>v \<in> set (votes_at key_signature_crypto voting_core [5] [1] (m_uptime_proof_seen cop') 69). unat (vote_full_node_index v) \<noteq> 0))"
proof -
  have "\<exists>cop'. handle_uptime_proof key_signature_crypto voting_core 5000 forged_proof watching_cop = (False, cop')
    \<and> (\<forall>pk sk h q. \<forall>v \<in> set (votes_at key_signature_crypto voting_core pk sk (m_uptime_proof_seen cop') h).
         get_quorum_state (core_list voting_core) h = Some q \<longrightarrow> nodes_to_test q ! unat (vote_full_node_index v) \<noteq> proof_pubkey forged_proof)"
    by (rule unsigned_proof_counts)
      (auto simp: voting_core_quorum, auto simp: forged_proof_def key_signature_crypto_def UPTIME_PROOF_BUFFER_IN_SECONDS_def
        voting_core_def is_full_node_def word_le_nat_alt)
  then obtain cop' where c: "handle_uptime_proof key_signature_crypto voting_core 5000 forged_proof watching_cop = (False, cop')"
    and v: "\<forall>v \<in> set (votes_at key_signature_crypto voting_core [5] [1] (m_uptime_proof_seen cop') 69).
      nodes_to_test \<lparr>quorum_nodes = [[4], [5]], nodes_to_test = [[6], [7]]\<rparr> ! unat (vote_full_node_index v) \<noteq> [6]"
    using voting_core_quorum by (force simp: forged_proof_def)
  have "votes_at key_signature_crypto voting_core [5] [1] (m_uptime_proof_seen watching_cop) 69 \<noteq> []" by code_simp
  with c v show ?thesis by (metis nth_Cons_0 quorum_state.select_convs(2))
qed

end
