(* ===== verification/Node.thy ===== *)
theory Node
  imports Winners QuorumCop
begin

text \<open>
  The full node list and the pool of votes together, as the node drives them: a step relation for
  blocks, detached chains, votes and relayed votes, and what holds in every reachable state.
\<close>

section \<open>Steps\<close>

text \<open>
  The state is the list, what \<open>store\<close> wrote last, and the pool. After a block the list is stored, expired
  votes are dropped with the height of the next block and then the votes used by its transactions; detaching
  the chain also stores the list. Before version 9 \<open>store\<close> leaves what is stored as it is. What is stored is kept
  here as the list itself; the bytes that are written, and what is read back from them, are in the theory \<open>Storage\<close>.
\<close>

definition stored_by :: "chain_view \<Rightarrow> transient_state \<Rightarrow> transient_state option \<Rightarrow> transient_state option" where
  "stored_by chain st stored =
     (if hard_fork_version chain (current_height chain) < network_version_9_full_nodes then stored else Some st)"

lemma stored_byD: "stored_by chain st stored = Some t \<Longrightarrow> t = st \<or> stored = Some t"
  by (simp add: stored_by_def split: if_splits)

type_synonym node_state = "transient_state \<times> transient_state option \<times> deregister_vote_pool"

inductive node_step :: "staking_crypto \<Rightarrow> node_state \<Rightarrow> node_state \<Rightarrow> bool" for env where
  block: "block_added_generic env chain b txs st = Some st' \<Longrightarrow>
    node_step env (st, stored, pool) (st', stored_by chain st' stored, remove_used_votes txs (remove_expired_votes next_height pool))"
| detach: "blockchain_detached env chain stored height st = Some st' \<Longrightarrow>
    node_step env (st, stored, pool) (st', stored_by chain st' stored, pool)"
| vote: "add_deregister_vote env chain target_height hf_version handle_incoming_tx st v vvc tx pool = (result, vvc', pool') \<Longrightarrow>
    node_step env (st, stored, pool) (st, stored, pool')"
| relay: "node_step env (st, stored, pool) (st, stored, set_relayed now votes pool)"
| restart: "init env chain stored = Some st' \<Longrightarrow> node_step env (st, stored, pool) (st', stored, [])"

inductive_cases node_stepE: "node_step env s s'"

abbreviation node_start :: "chain_view \<Rightarrow> node_state" where
  "node_start chain \<equiv> (clear chain, None, [])"

abbreviation reachable :: "staking_crypto \<Rightarrow> chain_view \<Rightarrow> node_state \<Rightarrow> bool" where
  "reachable env chain s \<equiv> (node_step env)\<^sup>*\<^sup>* (node_start chain) s"

text \<open>Every invariant of the list holds in every reachable state, also of what is stored.\<close>

context list_invariant
begin

lemma reachable_inv:
  assumes "reachable env chain (st, stored, pool)"
  shows "inv st \<and> (\<forall>s. stored = Some s \<longrightarrow> inv s)"
proof -
  have "inv (fst s) \<and> (\<forall>t. fst (snd s) = Some t \<longrightarrow> inv t)" if "reachable env chain s" for s
    using that
  proof (induction rule: rtranclp_induct)
    case base
    then show ?case by (simp add: clear_inv)
  next
    case (step s s')
    from step(2) show ?case
    proof cases
      case (block chain b txs st st' stored pool h)
      then show ?thesis using block_inv [OF _ block(3)] step.IH by (auto dest: stored_byD)
    next
      case (detach chain stored h st st' pool)
      then show ?thesis using detached_inv [OF _ _ detach(3)] step.IH by (auto dest: stored_byD)
    next
      case (restart chain stored st' st pool)
      then show ?thesis using started_inv [OF _ restart(3)] step.IH by auto
    qed (use step.IH in auto)
  qed
  from this [OF assms] show ?thesis by simp
qed

end

text \<open>
  C5. In every state the node can reach by blocks, detached chains, votes and restarts, the contributions and
  the reservations of a registered node add up to its totals, both are within the staking requirement, nobody
  has contributed more than reserved, there are one to four contributors with distinct addresses, and the first
  one is the operator.
\<close>

theorem reachable_funding:
  assumes "(node_step env)\<^sup>*\<^sup>* (clear chain, None, []) (st, stored, pool)" and "find_node st key = Some info"
  shows "sum_list (map (\<lambda>c. unat (cr_amount c)) (contributors info)) = unat (total_contributed info)
    \<and> sum_list (map (\<lambda>c. unat (cr_reserved c)) (contributors info)) = unat (total_reserved info)
    \<and> unat (total_contributed info) \<le> unat (staking_requirement info)
    \<and> unat (total_reserved info) \<le> unat (staking_requirement info)
    \<and> (\<forall>c \<in> set (contributors info). cr_amount c \<le> cr_reserved c)
    \<and> 1 \<le> length (contributors info) \<and> length (contributors info) \<le> 4
    \<and> distinct (map cr_address (contributors info)) \<and> operator_address info = cr_address (hd (contributors info))"
proof -
  have "list_ok st" using funded.reachable_inv [OF assms(1)] by blast
  then have ok: "node_ok info" using assms(2) by (rule find_node_ok)
  then show ?thesis
    using node_ok_total [OF ok] by (auto simp: node_ok_def word_le_nat_alt Suc_le_eq list_all_iff)
qed

lemma add_locked_swarm: "swarm_id (add_locked n cs info) = swarm_id info"
  by (induction n cs info rule: add_locked.induct) (simp_all add: Let_def set_contributor_def)

lemma apply_contribution_swarm: "swarm_id (apply_contribution hf h i parsed n info) = swarm_id info"
  by (simp add: apply_contribution_def Let_def add_locked_swarm set_contributor_def)

lemma contribution_single:
  assumes "full_nodes_infos st = [(k, i)]"
  shows "\<exists>i'. full_nodes_infos (process_contribution_tx env chain tx h n st) = [(k, i')] \<and> swarm_id i' = swarm_id i"
  using assms
  by (auto simp: process_contribution_tx_def Let_def put_node_def push_event_def apply_contribution_swarm split: option.splits)

lemma one_queued: "update_swarms chain h st = Some st"
  if "full_nodes_infos st = [(k, i)]" "swarm_id i = QUEUE_SWARM_ID"
proof -
  have "existing_swarms (full_nodes_infos st) = [(QUEUE_SWARM_ID, [k])]"
    by (simp add: existing_swarms_def that push_swarm_def insert_swarm_def)
  moreover have "calc_swarm_changes [(QUEUE_SWARM_ID, [k])] seed = Some [(QUEUE_SWARM_ID, [k])]" for seed
    by (simp add: calc_swarm_changes_def QUEUE_SWARM_ID_def swarm_at_def antd_shuffle_def get_all_swarms_def
        MIN_SWARM_SIZE_def MAX_SWARM_SIZE_def SWARM_BUFFER_def smallest_swarm_def insert_swarm_def)
  ultimately show ?thesis by (simp add: update_swarms_def that move_to_swarm_def)
qed

definition register_block :: block where
  "register_block = (coinbase_block 50000)\<lparr>timestamp := 7\<rparr>"

definition unhashed_10 :: chain_view where
  "unhashed_10 = small_chain\<lparr>block_id_by_height := \<lambda>_. null_hash\<rparr>"

lemma register_block_added:
  obtains st i where "block_added_generic rich_crypto unhashed_10 register_block [register_tx] (clear unhashed_10) = Some st"
    and "full_nodes_infos st = [(node_key, i)]"
proof -
  have "hard_fork_version unhashed_10 = hard_fork_version small_chain" "nettype unhashed_10 = nettype small_chain"
    by (simp_all add: unhashed_10_def)
  then have "is_registration_tx rich_crypto unhashed_10 = is_registration_tx rich_crypto small_chain"
    by (intro ext) (simp only: is_registration_tx_def)
  then obtain info where r: "is_registration_tx rich_crypto unhashed_10 register_tx 7 50000 0 empty_info = Some (node_key, info)"
    using register_tx_ok by metis
  from r obtain reg where "add_contributors (get_min_full_node_info_version_for_hf (hard_fork_version unhashed_10 50000)) []
      (zip (reg_addresses reg) (reg_portions reg)) (start_info unhashed_10 50000 0 reg empty_info) = Some info"
    by (rule is_registration_txD)
  then have q: "swarm_id info = QUEUE_SWARM_ID"
    by (auto dest!: add_contributors_result simp: start_info_def Let_def empty_info_def QUEUE_SWARM_ID_def)
  let ?h = "50000 :: u64"
  let ?s = "remove_expired_key_images ?h (cull_rollback_events ?h ((clear unhashed_10)\<lparr>state_height := state_height (clear unhashed_10) + 1\<rparr>))"
  let ?t = "put_node node_key info (push_event (rollback_new ?h node_key) ?s)"
  have hf: "hard_fork_version unhashed_10 ?h = 10" by (simp add: unhashed_10_def small_chain_def)
  have n: "full_nodes_infos ?s = []"
    by (simp add: remove_expired_key_images_def cull_rollback_events_def clear_def Let_def)
  have p: "process_registration_tx rich_crypto unhashed_10 register_tx 7 ?h 0 ?s = (True, ?t)"
    by (simp add: process_registration_tx_def r Let_def n)
  have t: "full_nodes_infos ?t = [(node_key, info)]" using n by (simp add: put_node_def push_event_def)
  obtain i where i: "full_nodes_infos (process_contribution_tx rich_crypto unhashed_10 register_tx ?h 0 ?t) = [(node_key, i)]" "swarm_id i = swarm_id info"
    using contribution_single [OF t] by metis
  have "get_type register_tx = type_standard" by (simp add: get_type_def register_tx_def version_2_def)
  moreover have "update_and_get_expired_nodes rich_crypto unhashed_10 ?h ?s = []"
    using hf by (simp add: update_and_get_expired_nodes_def n network_version_9_full_nodes_def)
  moreover have "advance_winner ?h w ?s = ?s" for w by (simp add: advance_winner_def n)
  moreover have "get_block_height register_block = ?h" "timestamp register_block = 7" "hard_fork_version unhashed_10 ?h = 10"
      "block_id_by_height unhashed_10 ?h = null_hash"
    by (simp_all add: register_block_def coinbase_block_def get_block_height_def unhashed_10_def small_chain_def)
  moreover note one_queued [OF i(1), of unhashed_10 ?h] q i p
  ultimately have "\<exists>st. block_added_generic rich_crypto unhashed_10 register_block [register_tx] (clear unhashed_10) = Some st
      \<and> full_nodes_infos st = [(node_key, i)]"
    by (simp add: block_added_generic_def Let_def store_quorum_state_from_rewards_list_def)
  then show thesis using that by blast
qed

theorem reachable_funding_witness:
  "\<exists>st stored pool info. (node_step rich_crypto)\<^sup>*\<^sup>* (clear unhashed_10, None, []) (st, stored, pool)
     \<and> find_node st node_key = Some info \<and> length (contributors info) \<le> 4
     \<and> unat (total_contributed info) \<le> unat (staking_requirement info)"
proof -
  obtain st i where b: "block_added_generic rich_crypto unhashed_10 register_block [register_tx] (clear unhashed_10) = Some st"
    and n: "full_nodes_infos st = [(node_key, i)]" by (rule register_block_added)
  have r: "(node_step rich_crypto)\<^sup>*\<^sup>* (clear unhashed_10, None, [])
      (st, stored_by unhashed_10 st None, remove_used_votes [register_tx] (remove_expired_votes 0 []))"
    using node_step.block [OF b] by (rule r_into_rtranclp)
  have f: "find_node st node_key = Some i" by (simp add: n)
  show ?thesis using reachable_funding [OF r f] r f by blast
qed

section \<open>Quorums are small\<close>

definition quorums_small :: "transient_state \<Rightarrow> bool" where
  "quorums_small st \<longleftrightarrow> (\<forall>p \<in> set (quorum_states st). length (quorum_nodes (snd p)) \<le> QUORUM_SIZE)"

lemma quorum_state_small: "quorums_small st \<Longrightarrow> get_quorum_state st h = Some q \<Longrightarrow> length (quorum_nodes q) \<le> QUORUM_SIZE"
  using map_of_SomeD [of "quorum_states st" h q] by (fastforce simp: quorums_small_def get_quorum_state_def)

lemma registration_quorums: "quorum_states (snd (process_registration_tx env chain tx ts h i st)) = quorum_states st"
  by (auto simp: process_registration_tx_def Let_def split: option.splits)

lemma process_txs_quorums: "quorum_states (snd (snd (process_txs env chain ts h i txs acc))) = quorum_states (snd (snd acc))"
proof (induction env chain ts h i txs acc rule: process_txs.induct)
  case (2 env chain ts h i tx txs r d st)
  have "quorum_states (process_contribution_tx env chain tx h i s) = quorum_states s"
      "quorum_states (snd (process_deregistration_tx chain tx h s)) = quorum_states s"
      "quorum_states (process_key_image_unlock_tx env chain tx h s) = quorum_states s" for s
    using reversible_contribution [of h s] reversible_deregistration [of h s] reversible_key_image_unlock [of h s]
    by (simp_all add: reversible_def)
  then show ?case
    using 2 registration_quorums [of env chain tx ts h i st] by (simp add: case_prod_beta split: type_t.split)
qed simp

lemma store_quorum_small:
  "store_quorum_state_from_rewards_list chain h st = Some st' \<Longrightarrow> quorums_small st \<Longrightarrow> quorums_small st'"
  using set_set_quorum
  by (fastforce simp: store_quorum_state_from_rewards_list_def Let_def bind_eq_Some_conv quorums_small_def split: if_splits)

lemma block_quorums_small:
  assumes "quorums_small st" and "block_added_generic env chain b txs st = Some st'"
  shows "quorums_small st'"
proof (cases "hard_fork_version chain (get_block_height b) < 9")
  case True
  then show ?thesis using assms by (simp add: block_added_generic_def)
next
  case False
  define h where "h = get_block_height b"
  from block_added_cases [OF assms(2) False, folded h_def]
  obtain s0 n s1 s2 r d s3 s4 s5
  where 0: "s0 = remove_expired_key_images h (cull_rollback_events h (st\<lparr>state_height := state_height st + 1\<rparr>))"
    and 1: "fold (expire_node h) (update_and_get_expired_nodes env chain h s0) (0, s0) = (n, s1)"
    and 2: "s2 = advance_winner h (get_full_node_winner_from_tx_extra (extra (miner_tx b))) s1"
    and 3: "process_txs env chain (timestamp b) h 0 txs (0, 0, s2) = (r, d, s3)"
    and 4: "s4 = s3 \<or> update_swarms chain h s3 = Some s4"
    and 5: "store_quorum_state_from_rewards_list chain h s4 = Some s5"
    and 6: "st' = s5\<lparr>quorum_states := dropWhile (\<lambda>(k, _). k < (if h < QUORUM_LIFETIME then 0 else h - QUORUM_LIFETIME)) (quorum_states s5)\<rparr>"
    by metis
  have q0: "quorum_states s0 = quorum_states st"
    by (simp add: 0 remove_expired_key_images_def cull_rollback_events_def Let_def case_prod_beta)
  have q1: "quorum_states s1 = quorum_states s0"
    using reversible_expire [of h "(0, s0)" "update_and_get_expired_nodes env chain h s0"] by (simp add: 1 reversible_def)
  have q2: "quorum_states s2 = quorum_states s1" using reversible_winner [of h s1] by (simp add: 2 reversible_def)
  have q3: "quorum_states s3 = quorum_states s2" using process_txs_quorums [of env chain "timestamp b" h 0 txs "(0, 0, s2)"] by (simp add: 3)
  have q4: "quorum_states s4 = quorum_states s3" using 4 reversible_update_swarms by (auto simp: reversible_def)
  have "quorums_small s4" using assms(1) q0 q1 q2 q3 q4 by (simp add: quorums_small_def)
  then have "quorums_small s5" by (rule store_quorum_small [OF 5])
  then show ?thesis using set_dropWhileD by (fastforce simp: 6 quorums_small_def)
qed

lemma undo_events_quorums: "undo_events h es st = (ok, st') \<Longrightarrow> quorum_states st' = quorum_states st"
proof (induction es arbitrary: st)
  case (Cons e es)
  then show ?case by (auto dest: undo_event_keeps split: if_splits option.splits)
qed auto

interpretation small: list_invariant quorums_small
proof
  show "quorums_small (clear chain)" for chain by (simp add: clear_def quorums_small_def)
  show "quorums_small st \<Longrightarrow> block_added_generic env chain b txs st = Some st' \<Longrightarrow> quorums_small st'" for st env chain b txs st'
    by (rule block_quorums_small)
  show "quorums_small st \<Longrightarrow> undo_events h (rev (rollback_events st)) st = (ok, st') \<Longrightarrow> quorums_small st'" for st h ok st'
    by (simp add: quorums_small_def undo_events_quorums)
  show "quorums_small st \<Longrightarrow> quorums_small (st\<lparr>quorum_states := rev (dropWhile P (rev (quorum_states st))), state_height := h\<rparr>)" for st P h
    using set_dropWhileD [of _ P "rev (quorum_states st)"] by (fastforce simp: quorums_small_def)
qed

section \<open>Deregistrations never happen\<close>

lemma reachable_pool:
  assumes "reachable env chain s"
  shows "pool_ok QUORUM_SIZE (snd (snd s))"
  using assms
proof (induction rule: rtranclp_induct)
  case base
  then show ?case by (simp add: pool_ok_def)
next
  case (step s s')
  obtain st stored pool where s: "s = (st, stored, pool)" by (metis prod_cases3)
  have small: "quorums_small st" using small.reachable_inv step(1) by (simp add: s)
  from step(2) show ?case
  proof cases
    case (vote chain target_height hf handle st v vvc tx pool result vvc' pool' stored)
    show ?thesis
    proof (cases "get_quorum_state st (vote_block_height v)")
      case None
      then show ?thesis using vote step.IH by (auto simp: add_deregister_vote_def Let_def split: if_splits)
    next
      case (Some q)
      then have "length (quorum_nodes q) \<le> QUORUM_SIZE"
        using quorum_state_small [OF small] vote(1) s by simp
      then show ?thesis
        using vote step.IH Some by (auto simp: add_deregister_vote_def Let_def dest: add_vote_ok(1) split: if_splits prod.splits)
    qed
  qed (use step.IH in \<open>auto simp: remove_used_votes_ok remove_expired_votes_ok set_relayed_ok\<close>, simp add: pool_ok_def)
qed

text \<open>
  C2. No full node is ever deregistered by vote: in every reachable state each quorum has at most 5 members
  while 7 votes of different members are needed, so no deregistration transaction passes the check of
  the chain and no vote that arrives completes a deregistration.
\<close>

theorem deregistration_never:
  assumes "(node_step env)\<^sup>*\<^sup>* (clear chain0, None, []) (st, stored, pool)"
  shows "\<not> fst (check_deregister_tx env chain tx_blobs st tx tvc)
    \<and> (add_deregister_vote env chain target_height hf handle st v vvc etx pool = (result, vvc', pool')
        \<longrightarrow> m_full_tx_deregister_made vvc' = m_full_tx_deregister_made vvc)"
proof -
  have small: "quorums_small st" using assms by (rule small.reachable_inv [THEN conjunct1])
  have pool: "pool_ok QUORUM_SIZE pool" using reachable_pool [OF assms] by simp
  have q: "length (quorum_nodes q) \<le> QUORUM_SIZE" if "get_quorum_state st h = Some q" for h q
    using small that by (rule quorum_state_small)
  have "\<not> fst (verify_deregister env d c q)" if "get_quorum_state st h = Some q" for h d c q
  proof
    assume "fst (verify_deregister env d c q)"
    then have v: "7 \<le> length (dereg_votes d)" "fst (verify_votes_helper env d c q)"
      by (auto simp: verify_deregister_def MIN_VOTES_TO_KICK_FULL_NODE_def split: if_splits)
    have "length (map vote_index (dereg_votes d)) \<le> length (quorum_nodes q)"
      by (rule distinct_below_length) (use v(2) in \<open>auto simp: verify_votes_helper_iff\<close>)
    then show False using q [OF that] v(1) by (simp add: QUORUM_SIZE_def)
  qed
  then have "\<not> fst (check_deregister_tx env chain tx_blobs st tx tvc)"
    by (auto simp: check_deregister_tx_def Let_def split: option.splits prod.splits) (metis fst_conv)
  moreover have "m_full_tx_deregister_made vvc' = m_full_tx_deregister_made vvc"
    if "add_deregister_vote env chain target_height hf handle st v vvc etx pool = (result, vvc', pool')"
    using that add_vote_ok(2) [OF pool q]
    by (fastforce simp: add_deregister_vote_def Let_def QUORUM_SIZE_def split: if_splits option.splits prod.splits)
  ultimately show ?thesis by blast
qed

theorem deregistration_never_witness:
  "\<exists>st. (node_step small_crypto)\<^sup>*\<^sup>* (clear small_chain, None, []) (st, Some st, []) \<and> state_height st = 1
     \<and> \<not> fst (check_deregister_tx small_crypto small_chain (\<lambda>_. None) st (miner_tx (coinbase_block 0))
         \<lparr>m_verifivation_failed = False, m_double_spend = False, m_vote_ctx = no_context\<rparr>)"
proof -
  have "map_option state_height (block_added_generic small_crypto small_chain (coinbase_block 0) [] (clear small_chain)) = Some 1"
    by code_simp
  then obtain st where b: "block_added_generic small_crypto small_chain (coinbase_block 0) [] (clear small_chain) = Some st" "state_height st = 1"
    by auto
  have "remove_used_votes [] (remove_expired_votes 0 []) = []" by (simp add: remove_used_votes_def remove_expired_votes_def)
  with node_step.block [OF b(1), of None "[]" 0]
  have r: "(node_step small_crypto)\<^sup>*\<^sup>* (clear small_chain, None, []) (st, Some st, [])"
    by (simp add: r_into_rtranclp stored_by_def small_chain_def network_version_9_full_nodes_def)
  show ?thesis using deregistration_never [OF r] r b(2) by blast
qed

end
