(* ===== verification/Base58.thy ===== *)
theory Base58
  imports TxExtra IntUtil
begin

text \<open>
  Base58 text (common/base58.cpp): eight bytes become eleven characters, a shorter last block
  becomes a fixed number of characters that depends on its size, and an address carries a tag and a
  checksum.
\<close>

section \<open>The code\<close>

definition alphabet :: string where
  "alphabet = ''123456789ABCDEFGHJKLMNPQRSTUVWXYZabcdefghijkmnopqrstuvwxyz''"
definition alphabet_size :: u64 where "alphabet_size = of_nat (length alphabet)"
definition encoded_block_sizes :: "nat list" where "encoded_block_sizes = [0, 2, 3, 5, 6, 7, 9, 10, 11]"
definition full_block_size :: nat where "full_block_size = length encoded_block_sizes - 1"
definition full_encoded_block_size :: nat where
  "full_encoded_block_size = encoded_block_sizes ! full_block_size"
definition addr_checksum_size :: nat where "addr_checksum_size = 4"

text \<open>
  The two tables are filled once, with -1 where nothing is assigned. The index of a letter is
  converted to an unsigned number, so that letters before the first of the alphabet are out of range.
\<close>

definition letter_index :: "char \<Rightarrow> int" where
  "letter_index letter = of_char letter - of_char (alphabet ! 0)"

definition reverse_alphabet_data :: "int list" where
  "reverse_alphabet_data =
     fold (\<lambda>i m_data. m_data [nat (letter_index (alphabet ! i)) := int i]) [0..<length alphabet]
       (replicate (nat (letter_index (alphabet ! (length alphabet - 1))) + 1) (-1))"

definition reverse_alphabet :: "char \<Rightarrow> int" where
  "reverse_alphabet letter =
     (let idx = letter_index letter
      in if 0 \<le> idx \<and> idx < int (length reverse_alphabet_data) then reverse_alphabet_data ! nat idx else -1)"

definition decoded_block_sizes_data :: "int list" where
  "decoded_block_sizes_data =
     fold (\<lambda>i m_data. m_data [encoded_block_sizes ! i := int i]) [0..<full_block_size + 1]
       (replicate (encoded_block_sizes ! full_block_size + 1) (-1))"

definition decoded_block_sizes :: "nat \<Rightarrow> int" where
  "decoded_block_sizes encoded_block_size = decoded_block_sizes_data ! encoded_block_size"

text \<open>
  The bytes are copied to or from the end of the memory of a 64-bit word, whose byte order is reversed.
\<close>

definition uint_8be_to_64 :: "bytes \<Rightarrow> u64" where
  "uint_8be_to_64 data = of_nat (le_val (rev (replicate (8 - length data) 0 @ data)))"

definition uint_64_to_8be :: "u64 \<Rightarrow> nat \<Rightarrow> bytes" where
  "uint_64_to_8be num sz = drop (8 - sz) (rev (serialize_uint_store 8 num))"

text \<open>
  The loop of \<open>encode_block\<close> writes the digits from the last one backwards, in the buffer of the whole
  text; \<^const>\<open>None\<close> is a write outside of that buffer.
\<close>

function encode_digits :: "u64 \<Rightarrow> int \<Rightarrow> string \<Rightarrow> string option" where
  "encode_digits num i res =
     (if 0 < num then
        let remainder = num mod alphabet_size;
            num = num div alphabet_size
        in if 0 \<le> i \<and> i < int (length res)
           then encode_digits num (i - 1) (res [nat i := alphabet ! unat remainder])
           else None
      else Some res)"
  by auto
termination
  by (relation "measure (\<lambda>(num, i, res). unat num)")
    (auto simp: alphabet_size_def alphabet_def word_gt_0 unat_div unat_gt_0)

declare encode_digits.simps [simp del]

definition encode_block :: "bytes \<Rightarrow> nat \<Rightarrow> string \<Rightarrow> string option" where
  "encode_block block offset res =
     encode_digits (uint_8be_to_64 block) (int offset + int (encoded_block_sizes ! length block) - 1) res"

fun decode_digits :: "string \<Rightarrow> u64 \<Rightarrow> u64 \<Rightarrow> u64 option" where
  "decode_digits [] res_num order = Some res_num"
| "decode_digits (letter # rest) res_num order =
     (let digit = reverse_alphabet letter
      in if digit < 0 then None
         else
           let (product_lo, product_hi) = mul128 order (of_int digit);
               tmp = res_num + product_lo
           in if tmp < res_num \<or> 0 \<noteq> product_hi then None
              else decode_digits rest tmp (order * alphabet_size))"

definition decode_block :: "string \<Rightarrow> bytes option" where
  "decode_block block =
     (let res_size = decoded_block_sizes (length block)
      in if res_size \<le> 0 then None
         else do {
           res_num \<leftarrow> decode_digits (rev block) 0 1;
           if nat res_size < full_block_size \<and> push_bit (8 * nat res_size) 1 \<le> res_num then None
           else Some (uint_64_to_8be res_num (nat res_size))
         })"

definition substr :: "nat \<Rightarrow> nat \<Rightarrow> 'a list \<Rightarrow> 'a list" where
  "substr offset sz xs = take sz (drop offset xs)"

definition write_at :: "nat \<Rightarrow> 'a list \<Rightarrow> 'a list \<Rightarrow> 'a list" where
  "write_at offset ys xs = take offset xs @ ys @ drop (offset + length ys) xs"

primrec encode_full_blocks :: "bytes \<Rightarrow> nat \<Rightarrow> string \<Rightarrow> string option" where
  "encode_full_blocks data 0 res = Some res"
| "encode_full_blocks data (Suc i) res = do {
     res \<leftarrow> encode_full_blocks data i res;
     encode_block (substr (i * full_block_size) full_block_size data) (i * full_encoded_block_size) res
   }"

definition encode_base58 :: "bytes \<Rightarrow> string option" where
  "encode_base58 data =
     (if data = [] then Some []
      else do {
        let full_block_count = length data div full_block_size;
        let last_block_size = length data mod full_block_size;
        let res_size = full_block_count * full_encoded_block_size + encoded_block_sizes ! last_block_size;
        res \<leftarrow> encode_full_blocks data full_block_count (replicate res_size (alphabet ! 0));
        if 0 < last_block_size then
          encode_block (substr (full_block_count * full_block_size) last_block_size data)
            (full_block_count * full_encoded_block_size) res
        else Some res
      })"

primrec decode_full_blocks :: "string \<Rightarrow> nat \<Rightarrow> bytes \<Rightarrow> bytes option" where
  "decode_full_blocks enc 0 data = Some data"
| "decode_full_blocks enc (Suc i) data = do {
     data \<leftarrow> decode_full_blocks enc i data;
     block \<leftarrow> decode_block (substr (i * full_encoded_block_size) full_encoded_block_size enc);
     Some (write_at (i * full_block_size) block data)
   }"

definition decode_base58 :: "string \<Rightarrow> bytes option" where
  "decode_base58 enc =
     (if enc = [] then Some []
      else
        let full_block_count = length enc div full_encoded_block_size;
            last_block_size = length enc mod full_encoded_block_size;
            last_block_decoded_size = decoded_block_sizes last_block_size
        in if last_block_decoded_size < 0 then None
           else do {
             let data_size = full_block_count * full_block_size + nat last_block_decoded_size;
             data \<leftarrow> decode_full_blocks enc full_block_count (replicate data_size 0);
             if 0 < last_block_size then do {
               block \<leftarrow> decode_block (substr (full_block_count * full_encoded_block_size) last_block_size enc);
               Some (write_at (full_block_count * full_block_size) block data)
             }
             else Some data
           })"

text \<open>The hash function is a parameter; the checksum is the start of its result.\<close>

definition encode_addr :: "(bytes \<Rightarrow> crypto_hash) \<Rightarrow> u64 \<Rightarrow> bytes \<Rightarrow> string option" where
  "encode_addr cn_fast_hash tag data =
     (let buf = write_varint tag @ data;
          hash = cn_fast_hash buf
      in encode_base58 (buf @ take addr_checksum_size hash))"

definition decode_addr :: "(bytes \<Rightarrow> crypto_hash) \<Rightarrow> string \<Rightarrow> (u64 \<times> bytes) option" where
  "decode_addr cn_fast_hash addr = do {
     addr_data \<leftarrow> decode_base58 addr;
     if length addr_data \<le> addr_checksum_size then None else do {
     let checksum = drop (length addr_data - addr_checksum_size) addr_data;
     let addr_data = take (length addr_data - addr_checksum_size) addr_data;
     let expected_checksum = take addr_checksum_size (cn_fast_hash addr_data);
     if expected_checksum \<noteq> checksum then None else do {
     let (read, tag, _) = read_varint addr_data;
     if read \<le> 0 then None
     else Some (tag, drop (nat read) addr_data) } } }"

section \<open>Digits\<close>

lemma alphabet_size_val [simp]: "unat alphabet_size = 58" "alphabet_size = 58"
  by (simp_all add: alphabet_size_def alphabet_def)

lemma length_alphabet [simp]: "length alphabet = 58"
  by (simp add: alphabet_def)

lemma block_size_vals [simp]: "full_block_size = 8" "full_encoded_block_size = 11"
  by (simp_all add: full_block_size_def full_encoded_block_size_def encoded_block_sizes_def)

lemma reverse_alphabet_data_val:
  "reverse_alphabet_data =
     [0, 1, 2, 3, 4, 5, 6, 7, 8, -1, -1, -1, -1, -1, -1, -1, 9, 10, 11, 12, 13, 14, 15, 16, -1, 17, 18,
     19, 20, 21, -1, 22, 23, 24, 25, 26, 27, 28, 29, 30, 31, 32, -1, -1, -1, -1, -1, -1, 33, 34, 35, 36,
     37, 38, 39, 40, 41, 42, 43, -1, 44, 45, 46, 47, 48, 49, 50, 51, 52, 53, 54, 55, 56, 57]"
  by code_simp

lemma reverse_alphabet_table:
  "list_all (\<lambda>(i, c). 0 \<le> letter_index c \<and> letter_index c < 74
     \<and> reverse_alphabet_data ! nat (letter_index c) = int i) (enumerate 0 alphabet)"
  "list_all (\<lambda>(j, d). 0 \<le> d \<longrightarrow> d < 58 \<and> alphabet ! nat d = char_of (49 + j)) (enumerate 0 reverse_alphabet_data)"
  unfolding reverse_alphabet_data_val by code_simp+

lemma reverse_alphabet_data_length [simp]: "length reverse_alphabet_data = 74"
  unfolding reverse_alphabet_data_val by simp

lemma reverse_alphabet_of: "i < 58 \<Longrightarrow> reverse_alphabet (alphabet ! i) = int i"
proof -
  assume "i < 58"
  then have "(i, alphabet ! i) \<in> set (enumerate 0 alphabet)"
    by (simp add: in_set_enumerate_eq)
  then show ?thesis using reverse_alphabet_table(1)
    by (fastforce simp: list_all_iff reverse_alphabet_def Let_def)
qed

lemma letter_index_val: "letter_index c = of_char c - 49"
  by (simp add: letter_index_def alphabet_def)

lemma reverse_alphabet_valid:
  assumes "0 \<le> reverse_alphabet c"
  shows "reverse_alphabet c < 58 \<and> alphabet ! nat (reverse_alphabet c) = c"
proof -
  have idx: "0 \<le> letter_index c" "letter_index c < 74"
    and d: "reverse_alphabet c = reverse_alphabet_data ! nat (letter_index c)"
    using assms by (auto simp: reverse_alphabet_def Let_def split: if_splits)
  have "(nat (letter_index c), reverse_alphabet c) \<in> set (enumerate 0 reverse_alphabet_data)"
    unfolding d using idx by (simp add: in_set_enumerate_eq)
  then have "reverse_alphabet c < 58 \<and> alphabet ! nat (reverse_alphabet c) = char_of (49 + nat (letter_index c))"
    using assms reverse_alphabet_table(2) by (auto simp: list_all_iff)
  moreover have "49 + nat (letter_index c) = (of_char c :: nat)"
    using idx of_nat_of_char [of c, where ?'a = int] unfolding letter_index_val by linarith
  ultimately show ?thesis by simp
qed

text \<open>The value of a text in reversed order, and the digits of a number in a fixed width.\<close>

primrec digits_val :: "string \<Rightarrow> nat" where
  "digits_val [] = 0"
| "digits_val (c # cs) = nat (reverse_alphabet c) + 58 * digits_val cs"

primrec digits :: "nat \<Rightarrow> nat \<Rightarrow> string" where
  "digits 0 n = []"
| "digits (Suc k) n = alphabet ! (n mod 58) # digits k (n div 58)"

definition valid_text :: "string \<Rightarrow> bool" where
  "valid_text cs = list_all (\<lambda>c. 0 \<le> reverse_alphabet c) cs"

lemma length_digits [simp]: "length (digits k n) = k"
  by (induction k arbitrary: n) simp_all

lemma valid_digits: "valid_text (digits k n)"
  by (induction k arbitrary: n) (simp_all add: valid_text_def reverse_alphabet_of)

lemma digits_val_digits: "n < 58 ^ k \<Longrightarrow> digits_val (digits k n) = n"
  by (induction k arbitrary: n) (simp_all add: reverse_alphabet_of less_mult_imp_div_less mult.commute)

lemma digits_of_val: "valid_text cs \<Longrightarrow> digits (length cs) (digits_val cs) = cs"
proof (induction cs)
  case (Cons c cs)
  then have "reverse_alphabet c < 58 \<and> alphabet ! nat (reverse_alphabet c) = c" "0 \<le> reverse_alphabet c"
    using reverse_alphabet_valid by (auto simp: valid_text_def)
  then have "nat (reverse_alphabet c) < 58" by linarith
  with Cons \<open>reverse_alphabet c < 58 \<and> _\<close> show ?case by (simp add: valid_text_def)
qed simp

lemma digits_zero: "digits k 0 = replicate k (alphabet ! 0)"
  by (induction k) simp_all

lemma encode_digits_digits:
  assumes "unat num < 58 ^ k"
  shows "encode_digits num (int (length pre) + int k - 1) (pre @ replicate k (alphabet ! 0) @ post)
    = Some (pre @ rev (digits k (unat num)) @ post)"
  using assms
proof (induction k arbitrary: num post)
  case 0
  then have "num = 0" by (simp add: unat_eq_zero)
  then show ?case by (simp add: encode_digits.simps)
next
  case (Suc k)
  show ?case
  proof (cases "num = 0")
    case True
    then show ?thesis by (simp add: encode_digits.simps digits_zero replicate_append_same)
  next
    case False
    let ?x = "alphabet ! (unat num mod 58)"
    have dm: "unat (num div 58) = unat num div 58" "unat (num mod 58) = unat num mod 58"
      by (simp_all add: unat_div unat_mod)
    have "unat (num div 58) < 58 ^ k"
      using Suc.prems by (simp add: dm less_mult_imp_div_less mult.commute)
    note IH = Suc.IH [OF this, of "?x # post"]
    have r: "replicate (Suc k) (alphabet ! 0) = replicate k (alphabet ! 0) @ [alphabet ! 0]"
      by (simp add: replicate_append_same)
    have "(pre @ replicate (Suc k) (alphabet ! 0) @ post) [length pre + k := ?x] = pre @ replicate k (alphabet ! 0) @ ?x # post"
      unfolding r by (simp add: list_update_append)
    moreover have "nat (int (length pre) + int k) = length pre + k" by linarith
    ultimately show ?thesis
      using False IH by (subst encode_digits.simps) (simp add: word_gt_0 Let_def dm algebra_simps)
  qed
qed

lemma digits_val_less: "valid_text cs \<Longrightarrow> digits_val cs < 58 ^ length cs"
proof (induction cs)
  case (Cons c cs)
  then have "nat (reverse_alphabet c) < 58" "Suc (digits_val cs) \<le> 58 ^ length cs"
    using reverse_alphabet_valid [of c] by (auto simp: valid_text_def)
  then show ?case by simp
qed simp

lemma add_overflows: "a + b < a \<longleftrightarrow> 2 ^ 64 \<le> unat a + unat (b :: u64)"
  using unat_u64_less [of a] unat_u64_less [of b]
  by (cases "unat a + unat b < 2 ^ 64") (auto simp: word_less_nat_alt unat_word_ariths mod_if)

lemma decode_digits_val:
  assumes "i + length cs \<le> 11"
  shows "decode_digits cs res_num (of_nat (58 ^ i)) =
    (if valid_text cs \<and> unat res_num + 58 ^ i * digits_val cs < 2 ^ 64
     then Some (of_nat (unat res_num + 58 ^ i * digits_val cs)) else None)"
  using assms
proof (induction cs arbitrary: i res_num)
  case Nil
  then show ?case using unat_u64_less [of res_num] by (simp add: valid_text_def)
next
  case (Cons c cs)
  show ?case
  proof (cases "reverse_alphabet c < 0")
    case True
    then show ?thesis by (simp add: valid_text_def)
  next
    case False
    define d where "d = nat (reverse_alphabet c)"
    have d: "reverse_alphabet c = int d" "d < 58" using False reverse_alphabet_valid [of c] by (auto simp: d_def)
    have "(58 :: nat) ^ i \<le> 58 ^ 10" using Cons.prems by (intro power_increasing) auto
    then have "(58 :: nat) ^ i < 2 ^ 64" by (rule le_less_trans) simp
    then have o: "unat (of_nat (58 ^ i) :: u64) = 58 ^ i" by (intro of_nat_inverse) simp_all
    have u: "unat (of_nat d :: u64) = d" using d(2) by (simp add: unat_of_nat)
    obtain lo hi where m: "mul128 (of_nat (58 ^ i)) (of_nat d) = (lo, hi)" by (metis surj_pair)
    note hz = wide.mul_high_zero [OF m, unfolded o u]
    have step: "decode_digits (c # cs) res_num (of_nat (58 ^ i)) =
      (if res_num + lo < res_num \<or> hi \<noteq> 0 then None else decode_digits cs (res_num + lo) (of_nat (58 ^ Suc i)))"
      using m d(1) by (auto simp: Let_def mult.commute)
    show ?thesis
    proof (cases "hi = 0 \<and> unat res_num + 58 ^ i * d < 2 ^ 64")
      case True
      then have lo: "unat lo = 58 ^ i * d" using hz(2) by blast
      have fits: "unat res_num + unat lo < 2 ^ 64" using True unfolding lo by blast
      then have "unat (res_num + lo) = unat res_num + 58 ^ i * d"
        using unat_add_nowrap [of res_num lo] unfolding lo by simp
      then have e: "unat (res_num + lo) + 58 ^ Suc i * digits_val cs = unat res_num + 58 ^ i * digits_val (c # cs)"
        using d(1) by (simp add: distrib_left)
      have "valid_text (c # cs) = valid_text cs" using d(1) by (simp add: valid_text_def)
      moreover have "\<not> (res_num + lo < res_num \<or> hi \<noteq> 0)"
        using True fits add_overflows [of res_num lo] by linarith
      ultimately show ?thesis
        unfolding step using Cons.IH [of "Suc i" "res_num + lo"] Cons.prems unfolding e by simp
    next
      case over: False
      have fails: "res_num + lo < res_num \<or> hi \<noteq> 0"
      proof (cases "hi = 0")
        case True
        then show ?thesis using over hz(2) [OF True] add_overflows [of res_num lo] by linarith
      qed simp
      have "2 ^ 64 \<le> unat res_num + 58 ^ i * d"
        using over hz(1) by linarith
      also have "\<dots> \<le> unat res_num + 58 ^ i * digits_val (c # cs)"
        using d(1) by simp
      finally have "\<not> unat res_num + 58 ^ i * digits_val (c # cs) < 2 ^ 64" by (rule leD)
      with fails show ?thesis unfolding step by (simp only: if_True if_False simp_thms)
    qed
  qed
qed

section \<open>Blocks\<close>

lemma le_val_inj: "length xs = length ys \<Longrightarrow> le_val xs = le_val ys \<Longrightarrow> xs = ys"
proof (induction xs ys rule: list_induct2)
  case (Cons x xs y ys)
  have "le_val (x # xs) mod 256 = unat x" "le_val (x # xs) div 256 = le_val xs"
    "le_val (y # ys) mod 256 = unat y" "le_val (y # ys) div 256 = le_val ys"
    using unat_u8_less [of x] unat_u8_less [of y] by simp_all
  with Cons show ?case by (metis unsigned_word_eqI)
qed simp

lemma le_val_zeros: "le_val (xs @ replicate k 0) = le_val xs"
  by (induction k) (simp_all add: le_val_append)

lemma take_uint_store: "n \<le> m \<Longrightarrow> take n (serialize_uint_store m v) = serialize_uint_store n v"
proof (induction m arbitrary: n v)
  case (Suc m)
  then show ?case by (cases n) simp_all
qed simp

lemma uint_64_to_8be_val:
  assumes "sz \<le> 8" and "unat num < 256 ^ sz"
  shows "length (uint_64_to_8be num sz) = sz" and "le_val (rev (uint_64_to_8be num sz)) = unat num"
  using assms by (simp_all add: uint_64_to_8be_def rev_drop take_uint_store le_val_uint_store)

lemma power_256_le: "n \<le> 8 \<Longrightarrow> (256 :: nat) ^ n \<le> 2 ^ 64"
  using power_increasing [of n 8 "256 :: nat"] by simp

lemma uint_8be_to_64_val:
  assumes "length block \<le> 8"
  shows "unat (uint_8be_to_64 block) = le_val (rev block)"
proof -
  have "le_val (rev block) < 2 ^ 64"
    using le_val_less [of "rev block"] power_256_le [OF assms] by simp
  then show ?thesis
    unfolding uint_8be_to_64_def by (intro of_nat_inverse) (simp_all add: le_val_zeros)
qed

text \<open>The characters of a block of bytes.\<close>

definition block_text :: "bytes \<Rightarrow> string" where
  "block_text b = rev (digits (encoded_block_sizes ! length b) (le_val (rev b)))"

lemma length_block_text [simp]: "length (block_text b) = encoded_block_sizes ! length b"
  by (simp add: block_text_def)

lemma block_sizes_table:
  "list_all (\<lambda>n. decoded_block_sizes (encoded_block_sizes ! n) = int n
     \<and> encoded_block_sizes ! n \<le> 11 \<and> (encoded_block_sizes ! n = 11) = (n = 8) \<and> (encoded_block_sizes ! n = 0) = (n = 0)) [0..<9]"
  "list_all (\<lambda>k. 0 \<le> decoded_block_sizes k \<longrightarrow> decoded_block_sizes k \<le> 8 \<and> encoded_block_sizes ! nat (decoded_block_sizes k) = k) [0..<12]"
  by code_simp+

lemma block_sizes:
  assumes "n \<le> 8"
  shows "256 ^ n \<le> (58 :: nat) ^ (encoded_block_sizes ! n)" and "decoded_block_sizes (encoded_block_sizes ! n) = int n"
    and "encoded_block_sizes ! n \<le> 11" and "encoded_block_sizes ! n = 11 \<longleftrightarrow> n = 8" and "encoded_block_sizes ! n = 0 \<longleftrightarrow> n = 0"
proof -
  have "n \<in> set [0..<9]" using assms by auto
  note t = bspec [OF block_sizes_table(1) [unfolded list_all_iff] this]
  have "n \<in> {0, 1, 2, 3, 4, 5, 6, 7, 8}" using assms by auto
  then show "256 ^ n \<le> (58 :: nat) ^ (encoded_block_sizes ! n)"
    by (elim insertE emptyE) (simp_all add: encoded_block_sizes_def)
  show "decoded_block_sizes (encoded_block_sizes ! n) = int n"
    "encoded_block_sizes ! n \<le> 11" "encoded_block_sizes ! n = 11 \<longleftrightarrow> n = 8" "encoded_block_sizes ! n = 0 \<longleftrightarrow> n = 0"
    using t by - (elim conjE, assumption)+
qed

lemma decoded_sizes:
  assumes "k \<le> 11" and "0 \<le> decoded_block_sizes k"
  shows "decoded_block_sizes k \<le> 8" and "encoded_block_sizes ! nat (decoded_block_sizes k) = k"
proof -
  have "k \<in> set [0..<12]" using assms by auto
  then show "decoded_block_sizes k \<le> 8" "encoded_block_sizes ! nat (decoded_block_sizes k) = k"
    using block_sizes_table(2) assms(2) unfolding list_all_iff by blast+
qed

lemma encode_block_text:
  assumes "length b \<le> 8" and "offset = length pre"
  shows "encode_block b offset (pre @ replicate (encoded_block_sizes ! length b) (alphabet ! 0) @ post)
    = Some (pre @ block_text b @ post)"
proof -
  have "le_val (rev b) < 58 ^ (encoded_block_sizes ! length b)"
    using less_le_trans [OF le_val_less [of "rev b", unfolded length_rev] block_sizes(1) [OF assms(1)]] .
  then have "unat (uint_8be_to_64 b) < 58 ^ (encoded_block_sizes ! length b)"
    unfolding uint_8be_to_64_val [OF assms(1)] .
  from encode_digits_digits [OF this, of pre post] show ?thesis
    unfolding encode_block_def assms(2) block_text_def uint_8be_to_64_val [OF assms(1)] .
qed

lemma decode_digits_text:
  assumes "length t \<le> 11"
  shows "decode_digits (rev t) 0 1 =
    (if valid_text (rev t) \<and> digits_val (rev t) < 2 ^ 64 then Some (of_nat (digits_val (rev t))) else None)"
  using decode_digits_val [of 0 "rev t" 0] assms by simp

lemma push_bit_le_iff:
  assumes "n < 8"
  shows "push_bit (8 * n) 1 \<le> (v :: u64) \<longleftrightarrow> 256 ^ n \<le> unat v"
proof -
  have "(256 :: nat) ^ n < 256 ^ 8" using assms by (intro power_strict_increasing) simp_all
  then have "unat (push_bit (8 * n) 1 :: u64) = 256 ^ n"
    by (subst unat_push_bit) (simp_all add: power_mult)
  then show ?thesis by (simp add: word_le_nat_alt)
qed

lemma decode_block_text:
  assumes "b \<noteq> []" and "length b \<le> 8"
  shows "decode_block (block_text b) = Some b"
proof -
  let ?v = "le_val (rev b)" and ?n = "length b"
  have v: "?v < 256 ^ ?n" using le_val_less [of "rev b"] by simp
  then have "?v < 58 ^ (encoded_block_sizes ! ?n)" using block_sizes(1) [OF assms(2)] by (rule less_le_trans)
  then have val: "digits_val (rev (block_text b)) = ?v" by (simp add: block_text_def digits_val_digits)
  have v64: "?v < 2 ^ 64" using v power_256_le [OF assms(2)] by (rule less_le_trans)
  then have u: "unat (of_nat ?v :: u64) = ?v" by (intro of_nat_inverse) simp_all
  have "uint_64_to_8be (of_nat ?v) ?n = b"
    using le_val_inj [of "rev (uint_64_to_8be (of_nat ?v) ?n)" "rev b"]
      uint_64_to_8be_val [OF assms(2), of "of_nat ?v", unfolded u, OF v] by simp
  moreover have "valid_text (rev (block_text b))" by (simp add: block_text_def valid_digits)
  moreover have "\<not> (?n < 8 \<and> push_bit (8 * ?n) 1 \<le> (of_nat ?v :: u64))"
    using push_bit_le_iff [of ?n "of_nat ?v", unfolded u] v by linarith
  ultimately show ?thesis
    unfolding decode_block_def length_block_text block_sizes(2) [OF assms(2)]
      decode_digits_text [of "block_text b", unfolded length_block_text, OF block_sizes(3) [OF assms(2)]] val
    using v64 assms(1) by (simp only: Let_def block_size_vals if_True if_False nat_int bind.bind_lunit simp_thms) simp
qed

lemma decode_block_only_text:
  assumes "decode_block t = Some b" and "length t \<le> 11"
  shows "b \<noteq> [] \<and> length b \<le> 8 \<and> t = block_text b"
proof -
  define n where "n = nat (decoded_block_sizes (length t))"
  define v where "v = digits_val (rev t)"
  have pos: "0 < decoded_block_sizes (length t)"
    and valid: "valid_text (rev t)" and v64: "v < 2 ^ 64"
    and small: "\<not> (n < 8 \<and> push_bit (8 * n) 1 \<le> (of_nat v :: u64))"
    and b: "b = uint_64_to_8be (of_nat v) n"
    using assms(1) unfolding decode_block_def decode_digits_text [OF assms(2)] v_def n_def Let_def block_size_vals
    by (simp_all split: if_splits)
  have n: "n \<le> 8" "0 < n" "encoded_block_sizes ! n = length t"
    using decoded_sizes [OF assms(2)] pos by (auto simp: n_def)
  have u: "unat (of_nat v :: u64) = v" using v64 by (intro of_nat_inverse) simp_all
  have v: "v < 256 ^ n"
  proof (cases "n < 8")
    case True
    then show ?thesis using small push_bit_le_iff [OF True, of "of_nat v", unfolded u] by linarith
  next
    case False
    then have "n = 8" using n(1) by simp
    then show ?thesis using v64 by simp
  qed
  note be = uint_64_to_8be_val [OF n(1), of "of_nat v", unfolded u, OF v]
  have "block_text b = rev (digits (length (rev t)) v)"
    unfolding block_text_def b be n(3) by simp
  also have "\<dots> = t" using digits_of_val [OF valid] by (simp add: v_def)
  finally show ?thesis using n be by (auto simp: b)
qed

section \<open>Texts\<close>

definition blocks_of :: "nat \<Rightarrow> 'a list list \<Rightarrow> bool" where
  "blocks_of n bs = list_all (\<lambda>b. length b = n) bs"

lemma blocks_split:
  assumes "0 < n"
  obtains bs l where "blocks_of n bs" and "length l < n" and "xs = concat bs @ l"
  using assms
proof (induction "length xs" arbitrary: xs thesis rule: less_induct)
  case less
  show ?case
  proof (cases "length xs < n")
    case True
    then show ?thesis using less.prems(1) [of "[]" xs] by (simp add: blocks_of_def)
  next
    case False
    then have "length (drop n xs) < length xs" using less.prems(2) by auto
    then obtain bs l where "blocks_of n bs" "length l < n" "drop n xs = concat bs @ l"
      using less.hyps less.prems(2) by blast
    then show ?thesis
      using less.prems(1) [of "take n xs # bs" l] False append_take_drop_id [of n xs] by (simp add: blocks_of_def)
  qed
qed

lemma length_blocks: "blocks_of n bs \<Longrightarrow> length (concat bs) = length bs * n"
  by (induction bs) (simp_all add: blocks_of_def)

lemma substr_blocks:
  assumes "blocks_of n (bs @ b # bs')"
  shows "substr (length bs * n) n (concat (bs @ b # bs') @ l) = b"
  using assms length_blocks [of n bs] by (simp add: blocks_of_def substr_def)

lemma blocks_divmod:
  assumes "blocks_of n bs" and "length l < n"
  shows "length (concat bs @ l) div n = length bs" and "length (concat bs @ l) mod n = length l"
    and "substr (length bs * n) (length l) (concat bs @ l) = l"
  using assms length_blocks [OF assms(1)] by (simp_all add: substr_def)

lemma encode_full_blocks_text:
  assumes "blocks_of 8 (bs @ bs')"
  shows "encode_full_blocks (concat (bs @ bs') @ l) (length bs) (replicate (length bs * 11 + m) (alphabet ! 0))
    = Some (concat (map block_text bs) @ replicate m (alphabet ! 0))"
  using assms
proof (induction bs arbitrary: bs' m rule: rev_induct)
  case (snoc b bs)
  have b: "length b = 8" and bs: "blocks_of 8 bs" using snoc.prems by (simp_all add: blocks_of_def)
  have "length (concat (map block_text bs)) = length bs * 11"
    using bs by (induction bs) (simp_all add: blocks_of_def encoded_block_sizes_def)
  note enc = encode_block_text [of b "length bs * 11" "concat (map block_text bs)" "replicate m (alphabet ! 0)", unfolded this b]
  have "encode_full_blocks (concat (bs @ b # bs') @ l) (length bs) (replicate (length bs * 11 + (11 + m)) (alphabet ! 0))
    = Some (concat (map block_text bs) @ replicate (11 + m) (alphabet ! 0))"
    using snoc.IH [of "b # bs'" "11 + m"] snoc.prems by simp
  moreover have "substr (length bs * 8) 8 (concat (bs @ b # bs') @ l) = b"
    using substr_blocks snoc.prems by fastforce
  moreover have "encoded_block_sizes ! 8 = 11" by (simp add: encoded_block_sizes_def)
  moreover have "length (bs @ [b]) * 11 + m = length bs * 11 + (11 + m)" by simp
  then have "replicate (length (bs @ [b]) * 11 + m) (alphabet ! 0) = replicate (length bs * 11 + (11 + m)) (alphabet ! 0)"
    by (simp only:)
  ultimately show ?case
    using enc by (simp add: replicate_add)
qed simp

lemma length_decode_block: "decode_block t = Some b \<Longrightarrow> length t = 11 \<Longrightarrow> length b = 8"
  using decode_block_only_text [of t b] block_sizes(4) [of "length b"] by fastforce

lemma length_decode_blocks:
  assumes "map decode_block ts = map Some bs" and "blocks_of 11 ts"
  shows "blocks_of 8 bs" and "length bs = length ts"
proof -
  show "length bs = length ts" using map_eq_imp_length_eq [OF assms(1)] by simp
  show "blocks_of 8 bs"
    using assms by (induction ts arbitrary: bs) (auto simp: blocks_of_def length_decode_block)
qed

lemma decode_full_blocks_text:
  assumes "blocks_of 11 (ts @ ts')"
  shows "decode_full_blocks (concat (ts @ ts') @ l) (length ts) (replicate (length ts * 8 + m) 0) = Some d
    \<longleftrightarrow> (\<exists>bs. map decode_block ts = map Some bs \<and> d = concat bs @ replicate m 0)"
  using assms
proof (induction ts arbitrary: ts' m d rule: rev_induct)
  case (snoc t ts)
  have t: "length t = 11" and ts: "blocks_of 11 ts" using snoc.prems by (simp_all add: blocks_of_def)
  have "length (ts @ [t]) * 8 + m = length ts * 8 + (8 + m)" by simp
  then have r: "replicate (length (ts @ [t]) * 8 + m) 0 = replicate (length ts * 8 + (8 + m)) (0 :: u8)"
    by (simp only:)
  have sub: "substr (length ts * 11) 11 (concat (ts @ t # ts') @ l) = t"
    using substr_blocks snoc.prems by fastforce
  have IH: "decode_full_blocks (concat (ts @ t # ts') @ l) (length ts) (replicate (length ts * 8 + (8 + m)) 0) = Some e
    \<longleftrightarrow> (\<exists>bs. map decode_block ts = map Some bs \<and> e = concat bs @ replicate (8 + m) 0)" for e
    using snoc.IH [of "t # ts'" "8 + m"] snoc.prems by simp
  have w: "write_at (length ts * 8) b (concat bs @ replicate (8 + m) 0) = concat (bs @ [b]) @ replicate m 0"
    if "map decode_block ts = map Some bs" "decode_block t = Some b" for bs b
    using length_decode_blocks [OF that(1) ts] length_blocks [of 8 bs] length_decode_block [OF that(2) t]
    by (simp add: write_at_def)
  have "decode_full_blocks (concat ((ts @ [t]) @ ts') @ l) (length (ts @ [t])) (replicate (length (ts @ [t]) * 8 + m) 0) = Some d
    \<longleftrightarrow> (\<exists>e b. decode_full_blocks (concat (ts @ t # ts') @ l) (length ts) (replicate (length ts * 8 + (8 + m)) 0) = Some e
      \<and> decode_block t = Some b \<and> d = write_at (length ts * 8) b e)"
    unfolding r using sub by (auto simp: bind_eq_Some_conv)
  also have "\<dots> \<longleftrightarrow> (\<exists>bs b. map decode_block ts = map Some bs \<and> decode_block t = Some b \<and> d = concat (bs @ [b]) @ replicate m 0)"
    unfolding IH using w by metis
  also have "\<dots> \<longleftrightarrow> (\<exists>bs. map decode_block (ts @ [t]) = map Some bs \<and> d = concat bs @ replicate m 0)"
  proof
    assume "\<exists>bs b. map decode_block ts = map Some bs \<and> decode_block t = Some b \<and> d = concat (bs @ [b]) @ replicate m 0"
    then obtain bs b where "map decode_block (ts @ [t]) = map Some (bs @ [b])" "d = concat (bs @ [b]) @ replicate m 0" by auto
    then show "\<exists>bs. map decode_block (ts @ [t]) = map Some bs \<and> d = concat bs @ replicate m 0" by blast
  qed (auto simp: append_eq_map_conv)
  finally show ?case .
next
  case Nil
  show ?case by simp (rule eq_commute)
qed

lemma blocks_empty:
  assumes "blocks_of n bs" and "0 < n" and "concat bs @ l = []"
  shows "bs = []" and "l = []"
proof -
  show "l = []" using assms(3) by simp
  have "concat bs = []" using assms(3) unfolding append_is_Nil_conv by (rule conjunct1)
  from length_blocks [OF assms(1), unfolded this] have "length bs * n = 0" by simp
  then show "bs = []" using assms(2) by simp
qed

lemma encode_base58_text:
  assumes "blocks_of 8 bs" and "length l < 8"
  shows "encode_base58 (concat bs @ l) = Some (concat (map block_text bs) @ block_text l)"
proof (cases "concat bs @ l = []")
  case True
  then have "bs = []" "l = []" using blocks_empty [OF assms(1) _ True] by auto
  then show ?thesis by (simp add: encode_base58_def block_text_def encoded_block_sizes_def)
next
  case False
  have len: "length (concat (map block_text bs)) = length bs * 11"
    using assms(1) by (induction bs) (simp_all add: blocks_of_def encoded_block_sizes_def)
  note d = blocks_divmod [OF assms]
  have "encode_full_blocks (concat bs @ l) (length bs) (replicate (length bs * 11 + encoded_block_sizes ! length l) (alphabet ! 0))
    = Some (concat (map block_text bs) @ replicate (encoded_block_sizes ! length l) (alphabet ! 0))"
    using encode_full_blocks_text [of bs "[]"] assms(1) by simp
  moreover have "encode_block l (length bs * 11) (concat (map block_text bs) @ replicate (encoded_block_sizes ! length l) (alphabet ! 0))
    = Some (concat (map block_text bs) @ block_text l)"
    using encode_block_text [of l "length bs * 11" "concat (map block_text bs)" "[]"] assms(2) len by simp
  moreover have "block_text [] = []" "encoded_block_sizes ! 0 = 0" by (simp_all add: block_text_def encoded_block_sizes_def)
  ultimately show ?thesis
    using False by (auto simp: encode_base58_def Let_def d simp del: length_append append_is_Nil_conv)
qed

lemma decode_base58_text:
  assumes "blocks_of 11 ts" and "length t < 11"
  shows "decode_base58 (concat ts @ t) = Some d \<longleftrightarrow>
    (\<exists>bs l. map decode_block ts = map Some bs \<and> (if t = [] then l = [] else decode_block t = Some l) \<and> d = concat bs @ l)"
proof (cases "concat ts @ t = []")
  case True
  then have "ts = []" "t = []" using blocks_empty [OF assms(1) _ True] by auto
  then show ?thesis by (auto simp: decode_base58_def)
next
  case False
  note dm = blocks_divmod [OF assms]
  have zero: "decoded_block_sizes 0 = 0" using block_sizes(2) [of 0] by (simp add: encoded_block_sizes_def)
  show ?thesis
  proof (cases "decoded_block_sizes (length t) < 0")
    case True
    then have "t \<noteq> []" "decode_block t = None" using zero by (auto simp: decode_block_def)
    then show ?thesis using True False by (simp add: decode_base58_def Let_def dm del: length_append append_is_Nil_conv)
  next
    case ok: False
    define n where "n = nat (decoded_block_sizes (length t))"
    have full: "decode_full_blocks (concat ts @ t) (length ts) (replicate (length ts * 8 + n) 0) = Some e
      \<longleftrightarrow> (\<exists>bs. map decode_block ts = map Some bs \<and> e = concat bs @ replicate n 0)" for e
      using decode_full_blocks_text [of ts "[]"] assms(1) by simp
    have w: "write_at (length ts * 8) l (concat bs @ replicate n 0) = concat bs @ l"
      if "map decode_block ts = map Some bs" "decode_block t = Some l" for bs l
    proof -
      have "length l = n"
        using decode_block_only_text [OF that(2)] block_sizes(2) [of "length l"] assms(2) by (auto simp: n_def)
      then show ?thesis
        using length_decode_blocks [OF that(1) assms(1)] length_blocks [of 8 bs] by (simp add: write_at_def)
    qed
    have unfolded: "decode_base58 (concat ts @ t) = do {
        e \<leftarrow> decode_full_blocks (concat ts @ t) (length ts) (replicate (length ts * 8 + n) 0);
        if t \<noteq> [] then do { l \<leftarrow> decode_block t; Some (write_at (length ts * 8) l e) } else Some e }"
      using False ok by (simp add: decode_base58_def Let_def dm n_def cong: if_cong del: length_append append_is_Nil_conv)
    show ?thesis
    proof (cases "t = []")
      case True
      then have "n = 0" using zero by (simp add: n_def)
      then show ?thesis unfolding unfolded using True full by (auto simp: bind_eq_Some_conv)
    next
      case False
      then show ?thesis unfolding unfolded using w by (auto simp: bind_eq_Some_conv full)
    qed
  qed
qed

section \<open>Round trip\<close>

lemma decode_encode_base58: "encode_base58 data = Some enc \<Longrightarrow> decode_base58 enc = Some data"
proof -
  assume enc: "encode_base58 data = Some enc"
  have "(0 :: nat) < 8" by simp
  then obtain bs l where bs: "blocks_of 8 bs" "length l < 8" "data = concat bs @ l"
    by (rule blocks_split [of 8 data])
  have e: "enc = concat (map block_text bs) @ block_text l"
    using enc encode_base58_text [OF bs(1,2)] bs(3) by simp
  have t1: "blocks_of 11 (map block_text bs)"
    using bs(1) by (auto simp: blocks_of_def list_all_iff encoded_block_sizes_def)
  have t2: "length (block_text l) < 11"
    using block_sizes(3,4) [of "length l"] bs(2) by simp
  have t3: "map decode_block (map block_text bs) = map Some bs"
    using bs(1) by (auto simp: blocks_of_def list_all_iff intro!: decode_block_text)
  have t4: "if block_text l = [] then l = [] else decode_block (block_text l) = Some l"
  proof (cases "l = []")
    case True
    then show ?thesis by (simp add: block_text_def encoded_block_sizes_def)
  next
    case False
    then have "block_text l \<noteq> []"
      using block_sizes(5) [of "length l"] bs(2) length_block_text [of l] by (auto simp del: length_block_text)
    then show ?thesis using False bs(2) decode_block_text [of l] by simp
  qed
  have "\<exists>bs' l'. map decode_block (map block_text bs) = map Some bs'
    \<and> (if block_text l = [] then l' = [] else decode_block (block_text l) = Some l') \<and> concat bs @ l = concat bs' @ l'"
    by (intro exI conjI) (rule t3, rule t4, rule refl)
  then show ?thesis
    unfolding e bs(3) by (rule decode_base58_text [OF t1 t2, THEN iffD2])
qed

lemma encode_decode_base58: "decode_base58 enc = Some data \<Longrightarrow> encode_base58 data = Some enc"
proof -
  assume dec: "decode_base58 enc = Some data"
  have "(0 :: nat) < 11" by simp
  then obtain ts t where ts: "blocks_of 11 ts" "length t < 11" "enc = concat ts @ t"
    by (rule blocks_split [of 11 enc])
  from dec [unfolded ts(3) decode_base58_text [OF ts(1,2)]]
  obtain bs l where bs: "map decode_block ts = map Some bs" "if t = [] then l = [] else decode_block t = Some l"
    "data = concat bs @ l"
    by (elim exE conjE) (rule that)
  have "ts = map block_text bs"
    using bs(1) ts(1)
  proof (induction ts arbitrary: bs)
    case (Cons x xs)
    then obtain y ys where "bs = y # ys" "decode_block x = Some y" "map decode_block xs = map Some ys" by auto
    then show ?case using Cons decode_block_only_text [of x y] by (auto simp: blocks_of_def)
  qed simp
  moreover have "t = block_text l \<and> length l < 8"
  proof (cases "t = []")
    case True
    then show ?thesis using bs(2) by (simp add: block_text_def encoded_block_sizes_def)
  next
    case False
    then have "l \<noteq> [] \<and> length l \<le> 8 \<and> t = block_text l" using bs(2) decode_block_only_text [of t l] ts(2) by simp
    moreover from this have "length l \<noteq> 8" using block_sizes(4) [of "length l"] ts(2) by auto
    ultimately show ?thesis by simp
  qed
  ultimately show ?thesis
    using encode_base58_text [OF length_decode_blocks(1) [OF bs(1) ts(1)], of l] by (simp only: ts(3) bs(3))
qed

lemma encode_base58_total: "\<exists>enc. encode_base58 data = Some enc"
proof -
  have "(0 :: nat) < 8" by simp
  then obtain bs l where "blocks_of 8 bs" "length l < 8" "data = concat bs @ l"
    by (rule blocks_split [of 8 data])
  then show ?thesis using encode_base58_text [of bs l] by blast
qed

text \<open>
  C16. Base58 is a bijection between byte strings and the texts that decode: every byte string has an encoding
  (no digit is ever written outside of the text), and a text decodes to a byte string exactly if it is the encoding
  of that byte string. In particular no two texts decode to the same bytes.
\<close>
theorem base58_bijective:
  "(\<exists>enc. encode_base58 data = Some enc)
   \<and> (decode_base58 text = Some data) = (encode_base58 data = Some text)"
  using encode_base58_total decode_encode_base58 encode_decode_base58 by blast

text \<open>The encoding fixes the length of the text.\<close>

lemma length_encode_base58:
  assumes "encode_base58 data = Some enc"
  shows "length enc = length data div 8 * 11 + encoded_block_sizes ! (length data mod 8)"
proof -
  have "(0 :: nat) < 8" by simp
  then obtain bs l where bs: "blocks_of 8 bs" "length l < 8" "data = concat bs @ l"
    by (rule blocks_split [of 8 data])
  have "length (concat (map block_text bs)) = length bs * 11"
    using bs(1) by (induction bs) (simp_all add: blocks_of_def encoded_block_sizes_def)
  then show ?thesis
    using assms encode_base58_text [OF bs(1,2)] blocks_divmod(1,2) [OF bs(1,2)] unfolding bs(3) by fastforce
qed

lemma decode_encode_addr:
  assumes "encode_addr h tag data = Some addr" and "\<And>x. length (h x) = 32"
  shows "decode_addr h addr = Some (tag, data)"
proof -
  define buf where "buf = write_varint tag @ data"
  have "decode_base58 addr = Some (buf @ take 4 (h buf))"
    using assms(1) decode_encode_base58 by (simp add: encode_addr_def buf_def addr_checksum_size_def Let_def)
  moreover have "0 < length buf" by (simp add: buf_def)
  ultimately show ?thesis
    using assms(2) [of buf] read_varint_write_varint [of tag data]
    by (simp add: decode_addr_def addr_checksum_size_def Let_def buf_def)
qed

end
