(* ===== verification/Text.thy ===== *)
theory Text
  imports Prelude "HOL-Library.Monad_Syntax"
begin

text \<open>
  Numbers and bytes as text: decimal numbers as the standard library prints them and hexadecimal strings
  (contrib/epee: string_tools.h, hex.cpp).
\<close>

section \<open>The code\<close>

text \<open>\<open>std::to_string\<close> of an unsigned 64-bit number.\<close>

definition digit_char :: "nat \<Rightarrow> char" where
  "digit_char d = char_of (48 + d)"

fun decimal :: "nat \<Rightarrow> string" where
  "decimal n = (if n < 10 then [digit_char n] else decimal (n div 10) @ [digit_char (n mod 10)])"

declare decimal.simps [simp del]

definition to_string_u64 :: "u64 \<Rightarrow> string" where
  "to_string_u64 v = decimal (unat v)"

text \<open>The lower case hexadecimal digits of bytes.\<close>

definition hex_char :: "nat \<Rightarrow> char" where
  "hex_char d = ''0123456789abcdef'' ! d"

primrec write_hex :: "bytes \<Rightarrow> string" where
  "write_hex [] = []"
| "write_hex (b # bs) = hex_char (unat (drop_bit 4 b)) # hex_char (unat (b AND 0x0f)) # write_hex bs"

text \<open>The values of hexadecimal digits (the table \<open>isx\<close>), 0xff for other characters.\<close>

definition isx :: "char \<Rightarrow> u8" where
  "isx c = (let n = of_char c :: nat
     in if 48 \<le> n \<and> n \<le> 57 then of_nat (n - 48)
        else if 65 \<le> n \<and> n \<le> 70 then of_nat (n - 65 + 10)
        else if 97 \<le> n \<and> n \<le> 102 then of_nat (n - 97 + 10)
        else 0xff)"

fun parse_hexstr_to_binbuff :: "string \<Rightarrow> bytes option" where
  "parse_hexstr_to_binbuff [] = Some []"
| "parse_hexstr_to_binbuff [_] = None"
| "parse_hexstr_to_binbuff (c # d # rest) =
     (let tmp = isx c
      in if tmp = 0xff then None
         else let t2 = isx d
              in if t2 = 0xff then None
                 else do {
                   res \<leftarrow> parse_hexstr_to_binbuff rest;
                   Some ((push_bit 4 tmp OR t2) # res)
                 })"

section \<open>Round trips\<close>

lemma length_write_hex [simp]: "length (write_hex bs) = 2 * length bs"
  by (induction bs) simp_all

lemma isx_hex_char: "d < 16 \<Longrightarrow> isx (hex_char d) = of_nat d"
proof -
  assume "d < 16"
  then have "d \<in> set [0..<16]" by simp
  moreover have "list_all (\<lambda>d. isx (hex_char d) = of_nat d) [0..<16]" by code_simp
  ultimately show ?thesis by (simp only: list_all_iff)
qed

lemma nibbles: "push_bit 4 (drop_bit 4 b) OR (b AND 0x0f) = (b :: u8)"
proof -
  have m: "(0x0f :: u8) = mask 4" by (simp add: mask_eq_exp_minus_1)
  show ?thesis unfolding m by (rule bit_word_eqI) (auto simp: bit_simps)
qed

lemma parse_hexstr_write_hex: "parse_hexstr_to_binbuff (write_hex bs) = Some bs"
proof (induction bs)
  case (Cons b bs)
  have "unat (drop_bit 4 b) < 16" using unat_u8_less [of b] unfolding unat_drop_bit by simp
  moreover have "(0x0f :: u8) = mask 4" by (simp add: mask_eq_exp_minus_1)
  then have "unat (b AND 0x0f) < 16" by (simp only: unat_and_mask) simp
  moreover have "drop_bit 4 b \<noteq> 0xff" "b AND 0x0f \<noteq> 0xff" using calculation by auto
  ultimately show ?case using Cons by (simp add: isx_hex_char nibbles Let_def)
qed simp

end
