(* ===== verification/Address.thy ===== *)
theory Address
  imports Base58 Text FullNodeRules
begin

text \<open>
  The textual form of account addresses (cryptonote_basic/cryptonote_basic_impl.cpp): standard addresses,
  subaddresses and integrated addresses of the three networks, and the old hexadecimal format.
\<close>

section \<open>The code\<close>

record address_parse_info =
  address :: account_public_address
  is_subaddress :: bool
  has_payment_id :: bool
  payment_id :: bytes

record integrated_address =
  adr :: account_public_address
  iadr_payment_id :: bytes

text \<open>
  The prefixes of standard, integrated and subaddresses in the configuration of a network;
  \<^const>\<open>None\<close> is the exception for an undefined network.
\<close>

definition get_config_prefixes :: "network_type \<Rightarrow> (u64 \<times> u64 \<times> u64) option" where
  "get_config_prefixes nettype =
     (case nettype of
        MAINNET \<Rightarrow> Some (18, 19, 42)
      | FAKECHAIN \<Rightarrow> Some (18, 19, 42)
      | TESTNET \<Rightarrow> Some (156, 157, 158)
      | STAGENET \<Rightarrow> Some (24, 25, 36)
      | UNDEFINED \<Rightarrow> None)"

definition CRYPTONOTE_PUBLIC_ADDRESS_TEXTBLOB_VER :: u8 where "CRYPTONOTE_PUBLIC_ADDRESS_TEXTBLOB_VER = 0"

text \<open>The packed struct \<open>public_address_outer_blob\<close>: a version, the two keys and a check sum.\<close>

definition sizeof_public_address_outer_blob :: nat where "sizeof_public_address_outer_blob = 1 + 64 + 1"

definition address_store :: "account_public_address \<Rightarrow> bytes" where
  "address_store a = m_spend_public_key a @ m_view_public_key a"

definition address_load :: "account_public_address reader" where
  "address_load bs = do {
     (spend, rest) \<leftarrow> serialize_blob_load 32 bs;
     (view, rest) \<leftarrow> serialize_blob_load 32 rest;
     Some (\<lparr>m_spend_public_key = spend, m_view_public_key = view\<rparr>, rest)
   }"

definition integrated_store :: "integrated_address \<Rightarrow> bytes" where
  "integrated_store a = address_store (adr a) @ iadr_payment_id a"

definition integrated_load :: "integrated_address reader" where
  "integrated_load bs = do {
     (a, rest) \<leftarrow> address_load bs;
     (p, rest) \<leftarrow> serialize_blob_load 8 rest;
     Some (\<lparr>adr = a, iadr_payment_id = p\<rparr>, rest)
   }"

text \<open>\<open>parse_binary\<close> also requires that the whole blob is read.\<close>

definition parse_binary :: "'a reader \<Rightarrow> bytes \<Rightarrow> 'a option" where
  "parse_binary load blob = do {
     (v, rest) \<leftarrow> load blob;
     if rest = [] then Some v else None
   }"

definition get_account_address_checksum :: "bytes \<Rightarrow> u8" where
  "get_account_address_checksum bl = fold (\<lambda>b summ. summ + b) (take (sizeof_public_address_outer_blob - 1) bl) 0"

definition get_account_address_as_str ::
  "(bytes \<Rightarrow> crypto_hash) \<Rightarrow> network_type \<Rightarrow> bool \<Rightarrow> account_public_address \<Rightarrow> string option" where
  "get_account_address_as_str cn_fast_hash nettype subaddress a = do {
     (address_prefix, _, subaddress_prefix) \<leftarrow> get_config_prefixes nettype;
     encode_addr cn_fast_hash (if subaddress then subaddress_prefix else address_prefix) (address_store a)
   }"

definition get_account_integrated_address_as_str ::
  "(bytes \<Rightarrow> crypto_hash) \<Rightarrow> network_type \<Rightarrow> account_public_address \<Rightarrow> bytes \<Rightarrow> string option" where
  "get_account_integrated_address_as_str cn_fast_hash nettype a pid = do {
     (_, integrated_address_prefix, _) \<leftarrow> get_config_prefixes nettype;
     encode_addr cn_fast_hash integrated_address_prefix (integrated_store \<lparr>adr = a, iadr_payment_id = pid\<rparr>)
   }"

text \<open>The two branches of the parser; \<open>info\<close> is the caller's record, of which only some members are set.\<close>

definition address_from_base58 ::
  "(bytes \<Rightarrow> crypto_hash) \<Rightarrow> (public_key \<Rightarrow> bool) \<Rightarrow> u64 \<times> u64 \<times> u64 \<Rightarrow> address_parse_info \<Rightarrow> string \<Rightarrow>
   address_parse_info option" where
  "address_from_base58 cn_fast_hash check_key prefixes info str = do {
     let (address_prefix, integrated_address_prefix, subaddress_prefix) = prefixes;
     (prefix, data) \<leftarrow> decode_addr cn_fast_hash str;
     info \<leftarrow>
       (if integrated_address_prefix = prefix then Some (info\<lparr>is_subaddress := False, has_payment_id := True\<rparr>)
        else if address_prefix = prefix then Some (info\<lparr>is_subaddress := False, has_payment_id := False\<rparr>)
        else if subaddress_prefix = prefix then Some (info\<lparr>is_subaddress := True, has_payment_id := False\<rparr>)
        else None);
     info \<leftarrow>
       (if has_payment_id info then do {
          iadr \<leftarrow> parse_binary integrated_load data;
          Some (info\<lparr>address := adr iadr, payment_id := iadr_payment_id iadr\<rparr>)
        } else do {
          a \<leftarrow> parse_binary address_load data;
          Some (info\<lparr>address := a\<rparr>)
        });
     if \<not> check_key (m_spend_public_key (address info)) \<or> \<not> check_key (m_view_public_key (address info)) then None
     else Some info
   }"

definition address_from_hex :: "address_parse_info \<Rightarrow> string \<Rightarrow> address_parse_info option" where
  "address_from_hex info str = do {
     buff \<leftarrow> parse_hexstr_to_binbuff str;
     if length buff \<noteq> sizeof_public_address_outer_blob then None
     else if buff ! 0 > CRYPTONOTE_PUBLIC_ADDRESS_TEXTBLOB_VER then None
     else if buff ! (sizeof_public_address_outer_blob - 1) \<noteq> get_account_address_checksum buff then None
     else Some (info\<lparr>address := \<lparr>m_spend_public_key = take 32 (drop 1 buff), m_view_public_key = take 32 (drop 33 buff)\<rparr>,
       is_subaddress := False, has_payment_id := False\<rparr>)
   }"

text \<open>The outer \<^const>\<open>None\<close> is the exception, the inner one the result \<open>false\<close>.\<close>

definition get_account_address_from_str ::
  "(bytes \<Rightarrow> crypto_hash) \<Rightarrow> (public_key \<Rightarrow> bool) \<Rightarrow> address_parse_info \<Rightarrow> network_type \<Rightarrow> string \<Rightarrow>
   address_parse_info option option" where
  "get_account_address_from_str cn_fast_hash check_key info nettype str = do {
     prefixes \<leftarrow> get_config_prefixes nettype;
     Some (if 2 * sizeof_public_address_outer_blob \<noteq> length str
           then address_from_base58 cn_fast_hash check_key prefixes info str
           else address_from_hex info str)
   }"

section \<open>Round trip\<close>

definition valid_address :: "account_public_address \<Rightarrow> bool" where
  "valid_address a = (length (m_spend_public_key a) = 32 \<and> length (m_view_public_key a) = 32)"

lemma address_round_trip_reader: "valid_address a \<Longrightarrow> address_load (address_store a @ rest) = Some (a, rest)"
  by (simp add: valid_address_def address_load_def address_store_def blob_round_trip)

lemma integrated_round_trip_reader:
  "valid_address (adr a) \<Longrightarrow> length (iadr_payment_id a) = 8 \<Longrightarrow> integrated_load (integrated_store a @ rest) = Some (a, rest)"
  by (simp add: integrated_load_def integrated_store_def address_round_trip_reader blob_round_trip)

interpretation address_codec: element_codec address_store address_load valid_address
  by unfold_locales (auto simp: address_round_trip_reader, auto simp: address_store_def valid_address_def)

interpretation integrated_codec: element_codec integrated_store integrated_load
  "\<lambda>a. valid_address (adr a) \<and> length (iadr_payment_id a) = 8"
  by unfold_locales (auto simp: integrated_round_trip_reader, auto simp: integrated_store_def)

context codec
begin

lemma parse_binary_store: "valid x \<Longrightarrow> parse_binary load (store x) = Some x"
  using load_store [of x "[]"] by (simp add: parse_binary_def)

end

lemma prefixes:
  assumes "get_config_prefixes nettype = Some (a, i, s)"
  shows "distinct [a, i, s]" and "unat a < 128 ^ 2" and "unat i < 128 ^ 2" and "unat s < 128 ^ 2"
  using assms by (cases nettype; simp add: get_config_prefixes_def; auto)+

lemma prefixes_disjoint:
  assumes "get_config_prefixes n = Some (a, i, s)" and "get_config_prefixes n' = Some (a', i', s')" and "(a, i, s) \<noteq> (a', i', s')"
  shows "{a, i, s} \<inter> {a', i', s'} = {}"
  using assms by (cases n; cases n'; simp add: get_config_prefixes_def; auto)

text \<open>An address text never has the length of the old format.\<close>

lemma length_encode_addr:
  assumes "encode_addr h tag data = Some str" and "\<And>x. length (h x) = 32" and "unat tag < 128 ^ 2"
    and "length data \<in> {64, 72}"
  shows "length str \<noteq> 132"
proof -
  have "length (write_varint tag) \<le> Suc 1" using assms(3) by (intro length_write_varint_le) simp
  moreover have "0 < length (write_varint tag)" by simp
  ultimately have "length (write_varint tag) \<in> {1, 2}" by (simp only: insert_iff empty_iff) linarith
  moreover have "length str = (let n = length (write_varint tag) + length data + 4
      in n div 8 * 11 + encoded_block_sizes ! (n mod 8))"
    using assms(1) length_encode_base58 assms(2) by (auto simp: encode_addr_def Let_def addr_checksum_size_def add.assoc)
  ultimately show ?thesis using assms(4) by (auto simp: encoded_block_sizes_def)
qed

lemma encode_addr_total:
  assumes "\<And>x. length (h x) = 32" and "unat tag < 128 ^ 2" and "length data \<in> {64, 72}"
  obtains str where "encode_addr h tag data = Some str" and "decode_addr h str = Some (tag, data)" and "length str \<noteq> 132"
proof -
  obtain str where str: "encode_addr h tag data = Some str"
    using encode_base58_total unfolding encode_addr_def Let_def by blast
  show ?thesis
    by (rule that [OF str decode_encode_addr [OF str assms(1)] length_encode_addr [OF str assms]])
qed

lemma from_str_decoded:
  assumes "decode_addr h str = Some (tag, data)" and "length str \<noteq> 132" and "get_config_prefixes n = Some p"
  shows "get_account_address_from_str h check_key info n str = Some (address_from_base58 h check_key p info str)"
  using assms by (simp add: get_account_address_from_str_def sizeof_public_address_outer_blob_def)

lemma foreign_prefix:
  assumes "decode_addr h str = Some (tag, data)" and "tag \<notin> {a, i, s}"
  shows "address_from_base58 h check_key (a, i, s) info str = None"
  using assms by (auto simp: address_from_base58_def)

text \<open>
  C17. The text of an address is parsed back on its network to the same address: a standard address or a subaddress
  without a payment id and with its kind, an integrated address with its payment id; and on every network with
  other prefixes it is rejected. The hash and the key check are parameters, the hash with 32 bytes.
\<close>
theorem address_round_trip:
  assumes "\<And>x. length (h x) = 32" and "valid_address a" and "length pid = 8"
    and "check_key (m_spend_public_key a)" and "check_key (m_view_public_key a)"
    and "get_config_prefixes n = Some p" and "get_config_prefixes n' = Some p'" and "p \<noteq> p'"
  shows "(\<exists>str. get_account_address_as_str h n subaddress a = Some str
      \<and> get_account_address_from_str h check_key info n str
        = Some (Some (info\<lparr>address := a, is_subaddress := subaddress, has_payment_id := False\<rparr>))
      \<and> get_account_address_from_str h check_key info n' str = Some None)
    \<and> (\<exists>str. get_account_integrated_address_as_str h n a pid = Some str
      \<and> get_account_address_from_str h check_key info n str
        = Some (Some (info\<lparr>address := a, is_subaddress := False, has_payment_id := True, payment_id := pid\<rparr>))
      \<and> get_account_address_from_str h check_key info n' str = Some None)"
proof -
  obtain x i s where p: "p = (x, i, s)" by (cases p)
  obtain x' i' s' where p': "p' = (x', i', s')" by (cases p')
  note ps = prefixes [OF assms(6) [unfolded p]]
  have dis: "{x, i, s} \<inter> {x', i', s'} = {}" using prefixes_disjoint assms(6-8) unfolding p p' by blast
  let ?tag = "if subaddress then s else x"
  have "unat ?tag < 128 ^ 2" "length (address_store a) \<in> {64, 72}"
    using ps assms(2) by (auto simp: address_store_def valid_address_def)
  then obtain str where str: "encode_addr h ?tag (address_store a) = Some str"
    "decode_addr h str = Some (?tag, address_store a)" "length str \<noteq> 132"
    by (rule encode_addr_total [OF assms(1)])
  have "address_from_base58 h check_key p info str
    = Some (info\<lparr>address := a, is_subaddress := subaddress, has_payment_id := False\<rparr>)"
    using str(2) ps(1) assms(4,5) address_codec.parse_binary_store [OF assms(2)] by (auto simp: address_from_base58_def p)
  moreover have "address_from_base58 h check_key p' info str = None"
    unfolding p' by (rule foreign_prefix [OF str(2)]) (use dis in auto)
  moreover have "get_account_address_as_str h n subaddress a = Some str"
    using str(1) assms(6) by (simp add: get_account_address_as_str_def p)
  ultimately have standard: "\<exists>str. get_account_address_as_str h n subaddress a = Some str
      \<and> get_account_address_from_str h check_key info n str
        = Some (Some (info\<lparr>address := a, is_subaddress := subaddress, has_payment_id := False\<rparr>))
      \<and> get_account_address_from_str h check_key info n' str = Some None"
    using from_str_decoded [OF str(2,3) assms(6)] from_str_decoded [OF str(2,3) assms(7)] by auto
  let ?ia = "\<lparr>adr = a, iadr_payment_id = pid\<rparr>"
  have "length (integrated_store ?ia) \<in> {64, 72}"
    using assms(2,3) by (auto simp: integrated_store_def address_store_def valid_address_def)
  then obtain t where t: "encode_addr h i (integrated_store ?ia) = Some t"
    "decode_addr h t = Some (i, integrated_store ?ia)" "length t \<noteq> 132"
    by (rule encode_addr_total [OF assms(1) ps(3)])
  have "address_from_base58 h check_key p info t
    = Some (info\<lparr>address := a, is_subaddress := False, has_payment_id := True, payment_id := pid\<rparr>)"
    using t(2) assms(4,5) integrated_codec.parse_binary_store [of ?ia] assms(2,3) by (auto simp: address_from_base58_def p)
  moreover have "address_from_base58 h check_key p' info t = None"
    unfolding p' by (rule foreign_prefix [OF t(2)]) (use dis in auto)
  moreover have "get_account_integrated_address_as_str h n a pid = Some t"
    using t(1) assms(6) by (simp add: get_account_integrated_address_as_str_def p)
  ultimately show ?thesis
    using standard from_str_decoded [OF t(2,3) assms(6)] from_str_decoded [OF t(2,3) assms(7)] by auto
qed

theorem address_round_trip_witness:
  "\<exists>str. get_account_address_as_str (\<lambda>_. replicate 32 7) MAINNET True
      \<lparr>m_spend_public_key = replicate 32 1, m_view_public_key = replicate 32 2\<rparr> = Some str
    \<and> get_account_address_from_str (\<lambda>_. replicate 32 7) (\<lambda>_. True)
        \<lparr>address = \<lparr>m_spend_public_key = [], m_view_public_key = []\<rparr>, is_subaddress = False, has_payment_id = True, payment_id = []\<rparr>
        TESTNET str = Some None"
  using address_round_trip [of "\<lambda>_. replicate 32 7" "\<lparr>m_spend_public_key = replicate 32 1, m_view_public_key = replicate 32 2\<rparr>"
      "replicate 8 0" "\<lambda>_. True" MAINNET "(18, 19, 42)" TESTNET "(156, 157, 158)" True
      "\<lparr>address = \<lparr>m_spend_public_key = [], m_view_public_key = []\<rparr>, is_subaddress = False, has_payment_id = True, payment_id = []\<rparr>"]
  by (auto simp: valid_address_def get_config_prefixes_def)

end
