(* ===== verification/Registration.thy ===== *)
theory Registration
  imports Address Rollback
begin

text \<open>
  The arguments of a registration (cryptonote_core/full_node_list.cpp): \<open>convert_registration_args\<close> parses
  conv_addresses and portions, moves dust between the contributors and checks the minimum, and
  \<open>make_registration_cmd\<close> signs and prints the command.
\<close>

section \<open>The code\<close>

text \<open>The message of a failed conversion, with the arguments it quotes.\<close>

datatype registration_error =
    Usage
  | Exceeds_contributors
  | Invalid_portion string
  | Failed_address string
  | Payment_id
  | Subaddress
  | Not_a_number string string
  | Invalid_amount string string
  | Too_many_contributors

record converted_registration_args =
  conv_success :: bool
  conv_addresses :: "account_public_address list"
  conv_portions :: "u64 list"
  conv_portions_for_operator :: u64
  conv_err_msg :: "registration_error option"

definition empty_args :: converted_registration_args where
  "empty_args = \<lparr>conv_success = False, conv_addresses = [], conv_portions = [], conv_portions_for_operator = 0, conv_err_msg = None\<rparr>"

record addr_to_portion_t =
  atp_info :: address_parse_info
  atp_portions :: u64

text \<open>A fresh record, whose members are set before they are read.\<close>

definition fresh_info :: address_parse_info where
  "fresh_info = \<lparr>address = \<lparr>m_spend_public_key = null_pkey, m_view_public_key = null_pkey\<rparr>,
     is_subaddress = False, has_payment_id = False, payment_id = replicate 8 0\<rparr>"

text \<open>
  \<open>lexical_cast\<close> is \<open>boost::lexical_cast<uint64_t>\<close>, with \<^const>\<open>None\<close> for its exception. The outer
  \<^const>\<open>None\<close> is an exception or an access outside of a vector; a left value is the error message.
\<close>

fun parse_contributors ::
  "staking_crypto \<Rightarrow> (string \<Rightarrow> u64 option) \<Rightarrow> network_type \<Rightarrow> string list \<Rightarrow>
   (registration_error + addr_to_portion_t list) option" where
  "parse_contributors env lexical_cast net [] = Some (Inr [])"
| "parse_contributors env lexical_cast net [_] = None"
| "parse_contributors env lexical_cast net (arg # arg' # args) = do {
     parsed \<leftarrow> get_account_address_from_str (cn_fast_hash env) (Staking.check_key env) fresh_info net arg;
     case parsed of
       None \<Rightarrow> Some (Inl (Failed_address arg))
     | Some info \<Rightarrow>
         if has_payment_id info then Some (Inl Payment_id)
         else if is_subaddress info then Some (Inl Subaddress)
         else (case lexical_cast arg' of
           None \<Rightarrow> Some (Inl (Not_a_number arg arg'))
         | Some num_portions \<Rightarrow> do {
             rest \<leftarrow> parse_contributors env lexical_cast net args;
             Some (case rest of
               Inl e \<Rightarrow> Inl e
             | Inr rest \<Rightarrow> Inr (\<lparr>atp_info = info, atp_portions = num_portions\<rparr> # rest))
           })
   }"

fun calc_excess_portions :: "u8 \<Rightarrow> u64 \<Rightarrow> u64 \<Rightarrow> u64 \<Rightarrow> u64 list \<Rightarrow> u64 list" where
  "calc_excess_portions hf_version req antd_reserved index [] = []"
| "calc_excess_portions hf_version req antd_reserved index (p # ps) =
     (let min_contribution_portions =
            get_min_node_contribution_in_portions hf_version req antd_reserved index;
          antd_amount = portions_to_amount req p;
          excess = (if p > min_contribution_portions then p - min_contribution_portions else 0)
      in excess # calc_excess_portions hf_version req (antd_reserved + antd_amount) (index + 1) ps)"

text \<open>
  The loop that steals dust for contributor \<open>i\<close>, over the indices that are left. Its variables are the portions of
  \<open>i\<close>, the portions still needed, the last portions stolen, the excess of all contributors, and the portions of the
  result, where a steal from a contributor that is not in the result yet is an access outside of the vector.
\<close>

record steal_state =
  st_portions :: u64
  st_needed :: u64
  st_steal :: u64
  st_excess :: "u64 list"
  st_result :: "u64 list"

fun steal_dust :: "nat \<Rightarrow> nat list \<Rightarrow> steal_state \<Rightarrow> steal_state option" where
  "steal_dust i [] s = Some s"
| "steal_dust i (sub_index # rest) s =
     (if i = sub_index then steal_dust i rest s
      else if st_excess s ! sub_index > 0 then
        let portions_to_steal = min (st_needed s) (st_excess s ! sub_index)
        in if length (st_result s) \<le> sub_index then None
           else
             let s = \<lparr>st_portions = st_portions s + portions_to_steal,
                   st_needed = st_needed s - portions_to_steal,
                   st_steal = portions_to_steal,
                   st_excess = (st_excess s) [sub_index := st_excess s ! sub_index - portions_to_steal],
                   st_result = (st_result s) [sub_index := st_result s ! sub_index - portions_to_steal]\<rparr>
             in if st_needed s = 0 then Some s else steal_dust i rest s
      else steal_dust i rest s)"

definition FUDGE_FACTOR :: u64 where "FUDGE_FACTOR = 10"

text \<open>
  The main loop at contributor \<open>i\<close> with the ones that are left; the error messages quote the arguments with
  the indices \<open>i\<close> and \<open>i + 1\<close>.
\<close>

record loop_state =
  excess_portions :: "u64 list"
  portions_left :: u64
  loop_reserved :: u64
  loop_result :: converted_registration_args

definition add_result ::
  "u64 \<Rightarrow> addr_to_portion_t \<Rightarrow> steal_state \<Rightarrow> loop_state \<Rightarrow> loop_state" where
  "add_result req c s l =
     l\<lparr>excess_portions := st_excess s,
       portions_left := portions_left l - st_portions s + st_steal s,
       loop_reserved := loop_reserved l + portions_to_amount (st_portions s) req,
       loop_result := (loop_result l)\<lparr>conv_addresses := conv_addresses (loop_result l) @ [address (atp_info c)],
         conv_portions := st_result s @ [st_portions s]\<rparr>\<rparr>"

fun assign_portions ::
  "string list \<Rightarrow> u8 \<Rightarrow> u64 \<Rightarrow> nat \<Rightarrow> nat \<Rightarrow> addr_to_portion_t list \<Rightarrow> loop_state \<Rightarrow> (registration_error + loop_state) option" where
  "assign_portions args hf_version req n i [] l = Some (Inr l)"
| "assign_portions args hf_version req n i (c # cs) l =
     (let min_portions = get_min_node_contribution_in_portions hf_version req (loop_reserved l) (of_nat i);
          s = \<lparr>st_portions = atp_portions c, st_needed = min_portions - atp_portions c, st_steal = 0,
               st_excess = excess_portions l, st_result = conv_portions (loop_result l)\<rparr>;
          DUST = STAKING_PORTIONS div req * FUDGE_FACTOR
      in if atp_portions c < min_portions \<and> st_needed s > DUST
         then assign_portions args hf_version req n (i + 1) cs l
         else do {
           s \<leftarrow> (if atp_portions c < min_portions then do {
                 s \<leftarrow> steal_dust i [0..<n] s;
                 Some (if st_needed s > 0
                          \<and> of_nat n < MAX_NUMBER_OF_CONTRIBUTORS * MAX_KEY_IMAGES_PER_CONTRIBUTOR
                       then s\<lparr>st_portions := st_portions s + st_needed s\<rparr> else s)
               } else Some s);
           if st_portions s < min_portions \<or> st_portions s - st_steal s > portions_left l
           then Some (Inl (Invalid_amount (args ! i) (args ! (i + 1))))
           else if min_portions = UINT64_MAX then Some (Inl Too_many_contributors)
           else assign_portions args hf_version req n (i + 1) cs (add_result req c s l)
         })"

definition convert_registration_args ::
  "staking_crypto \<Rightarrow> (string \<Rightarrow> u64 option) \<Rightarrow> network_type \<Rightarrow> string list \<Rightarrow> u64 \<Rightarrow> u8 \<Rightarrow>
   converted_registration_args option" where
  "convert_registration_args env lexical_cast net args req hf_version =
     (let result = empty_args;
          failed = (\<lambda>e. Some (result\<lparr>conv_err_msg := Some e\<rparr>))
      in if length args mod 2 = 0 \<or> length args < 3 then failed Usage
         else if (length args - 1) div 2 > unat MAX_NUMBER_OF_CONTRIBUTORS then failed Exceeds_contributors
         else case lexical_cast (args ! 0) of
           None \<Rightarrow> failed (Invalid_portion (args ! 0))
         | Some operator_portions \<Rightarrow>
             let result = result\<lparr>conv_portions_for_operator := operator_portions\<rparr>;
                 failed = (\<lambda>e. Some (result\<lparr>conv_err_msg := Some e\<rparr>))
             in if operator_portions > STAKING_PORTIONS then failed (Invalid_portion (args ! 0))
                else do {
                  parsed \<leftarrow> parse_contributors env lexical_cast net (drop 1 args);
                  case parsed of
                    Inl e \<Rightarrow> failed e
                  | Inr addr_to_portions \<Rightarrow> do {
                      let excess = calc_excess_portions hf_version req 0 0 (map atp_portions addr_to_portions);
                      loop \<leftarrow> assign_portions args hf_version req (length addr_to_portions) 0 addr_to_portions
                        \<lparr>excess_portions = excess, portions_left = STAKING_PORTIONS, loop_reserved = 0, loop_result = result\<rparr>;
                      case loop of
                        Inl e \<Rightarrow> failed e
                      | Inr l \<Rightarrow> Some ((loop_result l)\<lparr>conv_success := True\<rparr>)
                    }
                })"

text \<open>
  The clock, the signature and the closing text of the friendly form, which the C library formats, are parameters.
\<close>

definition STAKING_AUTHORIZATION_EXPIRATION_WINDOW :: u64 where
  "STAKING_AUTHORIZATION_EXPIRATION_WINDOW = 60 * 60 * 24 * 7 * 2"

definition make_registration_cmd ::
  "staking_crypto \<Rightarrow> (string \<Rightarrow> u64 option) \<Rightarrow> (crypto_hash \<Rightarrow> public_key \<Rightarrow> secret_key \<Rightarrow> signature) \<Rightarrow> (u64 \<Rightarrow> string) \<Rightarrow>
   u64 \<Rightarrow> network_type \<Rightarrow> u8 \<Rightarrow> u64 \<Rightarrow> string list \<Rightarrow> public_key \<Rightarrow> secret_key \<Rightarrow> bool \<Rightarrow> string option option" where
  "make_registration_cmd env lexical_cast generate_signature expiry_text now net hf_version req args
     full_node_pubkey full_node_key make_friendly = do {
     converted_args \<leftarrow> convert_registration_args env lexical_cast net args req hf_version;
     if \<not> conv_success converted_args then Some None else do {
     let exp_timestamp = now + STAKING_AUTHORIZATION_EXPIRATION_WINDOW;
     case get_registration_hash env (conv_addresses converted_args) (conv_portions_for_operator converted_args)
            (conv_portions converted_args) exp_timestamp of
       None \<Rightarrow> Some None
     | Some hash \<Rightarrow> do {
         let sig = generate_signature hash full_node_pubkey full_node_key;
         Some (Some ((if make_friendly then ''Run this command in the wallet that will fund this registration:\<newline>\<newline>'' else [])
           @ ''register_full_node'' @ concat (map (\<lambda>arg. '' '' @ arg) args)
           @ '' '' @ to_string_u64 exp_timestamp @ '' '' @ write_hex full_node_pubkey @ '' '' @ write_hex sig
           @ (if make_friendly then expiry_text exp_timestamp else [])))
       } } }"

section \<open>The portions that are assigned\<close>

definition excess_ok :: "u64 list \<Rightarrow> u64 list \<Rightarrow> bool" where
  "excess_ok ex ps \<longleftrightarrow> (\<forall>k < length ps. unat (ex ! k) \<le> unat (ps ! k))"

lemma sum_list_update_sub:
  assumes "k < length ps" and "x \<le> ps ! k"
  shows "sum_list (map unat (ps [k := ps ! k - x])) + unat x = sum_list (map unat (ps :: u64 list))"
  using assms
proof (induction ps arbitrary: k)
  case (Cons p ps)
  then show ?case
    by (cases k) (auto simp: unat_sub word_le_nat_alt)
qed simp

lemma steal_dust_sum:
  assumes "steal_dust i ks s = Some s'" and "excess_ok (st_excess s) (st_result s)"
    and "length (st_result s) \<le> length (st_excess s)"
    and "unat (st_portions s) + unat (st_needed s) = m" and "m < 2 ^ 64" and "unat (st_steal s) \<le> t"
    and "sum_list (map unat (st_result s)) + t \<le> tot" and "unat (st_portions s) = p + t"
  shows "\<exists>t'. excess_ok (st_excess s') (st_result s') \<and> length (st_result s') = length (st_result s)
    \<and> length (st_excess s') = length (st_excess s) \<and> drop (length (st_result s)) (st_excess s') = drop (length (st_result s)) (st_excess s)
    \<and> unat (st_portions s') + unat (st_needed s') = m \<and> unat (st_steal s') \<le> t'
    \<and> sum_list (map unat (st_result s')) + t' \<le> tot \<and> unat (st_portions s') = p + t'"
  using assms
proof (induction i ks s arbitrary: t rule: steal_dust.induct)
  case (1 i s)
  then show ?case by auto
next
  case (2 i k ks s)
  show ?case
  proof (cases "i = k \<or> \<not> st_excess s ! k > 0")
    case True
    then have "steal_dust i ks s = Some s'" using "2.prems"(1) by (auto split: if_splits)
    then show ?thesis using True 2 by (cases "i = k") auto
  next
    case False
    define x where "x = min (st_needed s) (st_excess s ! k)"
    define s1 where "s1 = \<lparr>st_portions = st_portions s + x, st_needed = st_needed s - x, st_steal = x,
      st_excess = (st_excess s) [k := st_excess s ! k - x], st_result = (st_result s) [k := st_result s ! k - x]\<rparr>"
    have k: "k < length (st_result s)"
      and step: "(if st_needed s1 = 0 then Some s1 else steal_dust i ks s1) = Some s'"
      using "2.prems"(1) False by (auto simp: Let_def x_def s1_def split: if_splits)
    have x: "x \<le> st_needed s" "x \<le> st_excess s ! k" by (simp_all add: x_def)
    then have xn: "unat x \<le> unat (st_needed s)" "unat x \<le> unat (st_excess s ! k)" by (simp_all add: word_le_nat_alt)
    have "unat (st_excess s ! k) \<le> unat (st_result s ! k)" using "2.prems"(2) k by (simp add: excess_ok_def)
    then have xr: "x \<le> st_result s ! k" using xn(2) by (simp add: word_le_nat_alt)
    have p1: "unat (st_portions s1) = p + (t + unat x)"
      using unat_add_nowrap [of "st_portions s" x] xn(1) "2.prems"(4,5,8) by (simp add: s1_def)
    have n1: "unat (st_needed s1) = unat (st_needed s) - unat x"
      using x(1) by (simp add: s1_def unat_sub)
    have m1: "unat (st_portions s1) + unat (st_needed s1) = m" using p1 n1 xn(1) "2.prems"(4,8) by simp
    have e1: "excess_ok (st_excess s1) (st_result s1)"
      using "2.prems"(2,3) x(2) xr k by (auto simp: excess_ok_def s1_def nth_list_update unat_sub word_le_nat_alt)
    have l1: "length (st_result s1) \<le> length (st_excess s1)" using "2.prems"(3) by (simp add: s1_def)
    have t1: "sum_list (map unat (st_result s1)) + (t + unat x) \<le> tot"
      using sum_list_update_sub [OF k xr] "2.prems"(7) by (simp add: s1_def)
    have d1: "drop (length (st_result s)) (st_excess s1) = drop (length (st_result s)) (st_excess s)"
      "length (st_result s1) = length (st_result s)" "length (st_excess s1) = length (st_excess s)"
      using k by (simp_all add: s1_def)
    have z: "unat (st_steal s1) \<le> t + unat x" by (simp add: s1_def)
    show ?thesis
    proof (cases "st_needed s1 = 0")
      case True
      then have "s' = s1" using step by simp
      then show ?thesis using p1 m1 e1 t1 d1 z by blast
    next
      case again: False
      then have "steal_dust i ks s1 = Some s'" using step by simp
      moreover have "\<not> i = k" "st_excess s ! k > 0" "\<not> length (st_result s) \<le> k" using False k by auto
      ultimately show ?thesis
        using "2.IH"(2) [OF \<open>\<not> i = k\<close> \<open>st_excess s ! k > 0\<close> x_def \<open>\<not> length (st_result s) \<le> k\<close> s1_def again _ e1 l1 m1
          "2.prems"(5) z t1 p1] d1 by simp
    qed
  qed
qed

definition loop_ok :: "nat \<Rightarrow> addr_to_portion_t list \<Rightarrow> loop_state \<Rightarrow> bool" where
  "loop_ok i cs l \<longleftrightarrow> length (conv_portions (loop_result l)) = i \<and> length (conv_addresses (loop_result l)) = i
    \<and> length (excess_portions l) = i + length cs
    \<and> excess_ok (excess_portions l) (conv_portions (loop_result l) @ map atp_portions cs)
    \<and> sum_list (map unat (conv_portions (loop_result l))) + unat (portions_left l) \<le> unat STAKING_PORTIONS"

lemma excess_ok_append:
  assumes "length xs + length ys \<le> length ex"
  shows "excess_ok ex (xs @ ys) \<longleftrightarrow> excess_ok ex xs \<and> excess_ok (drop (length xs) ex) ys"
proof
  assume all: "excess_ok ex (xs @ ys)"
  have "unat (ex ! k) \<le> unat (xs ! k)" if "k < length xs" for k
    using all that by (auto simp: excess_ok_def nth_append dest: spec [of _ k])
  moreover have "unat (ex ! (length xs + k)) \<le> unat (ys ! k)" if "k < length ys" for k
    using all that by (auto simp: excess_ok_def dest: spec [of _ "length xs + k"])
  ultimately show "excess_ok ex xs \<and> excess_ok (drop (length xs) ex) ys"
    using assms by (simp add: excess_ok_def)
next
  assume parts: "excess_ok ex xs \<and> excess_ok (drop (length xs) ex) ys"
  show "excess_ok ex (xs @ ys)"
    unfolding excess_ok_def
  proof (intro allI impI)
    fix k
    assume k: "k < length (xs @ ys)"
    show "unat (ex ! k) \<le> unat ((xs @ ys) ! k)"
    proof (cases "k < length xs")
      case True
      then show ?thesis using parts by (simp add: excess_ok_def nth_append)
    next
      case False
      then have "unat (drop (length xs) ex ! (k - length xs)) \<le> unat (ys ! (k - length xs))"
        using parts k by (simp add: excess_ok_def)
      then show ?thesis using False assms by (simp add: nth_append)
    qed
  qed
qed

text \<open>What a contributor gets from the other ones and from the final correction.\<close>

definition contributor_share ::
  "nat \<Rightarrow> nat \<Rightarrow> u64 \<Rightarrow> steal_state \<Rightarrow> steal_state option" where
  "contributor_share n i min_portions s =
     (if st_portions s < min_portions then do {
        s \<leftarrow> steal_dust i [0..<n] s;
        Some (if st_needed s > 0 \<and> of_nat n < MAX_NUMBER_OF_CONTRIBUTORS * MAX_KEY_IMAGES_PER_CONTRIBUTOR
              then s\<lparr>st_portions := st_portions s + st_needed s\<rparr> else s)
      } else Some s)"

lemma contributor_share_sum:
  assumes "contributor_share n i m s = Some s'" and "excess_ok (st_excess s) (st_result s)"
    and "length (st_result s) \<le> length (st_excess s)" and "st_needed s = m - st_portions s" and "st_steal s = 0"
  shows "\<exists>t. excess_ok (st_excess s') (st_result s') \<and> length (st_result s') = length (st_result s)
    \<and> length (st_excess s') = length (st_excess s) \<and> drop (length (st_result s)) (st_excess s') = drop (length (st_result s)) (st_excess s)
    \<and> unat (st_steal s') \<le> t \<and> sum_list (map unat (st_result s')) + t \<le> sum_list (map unat (st_result s))
    \<and> unat (st_portions s) + t \<le> unat (st_portions s')"
proof (cases "st_portions s < m")
  case False
  then show ?thesis using assms by (auto simp: contributor_share_def)
next
  case True
  then obtain s1 where s1: "steal_dust i [0..<n] s = Some s1"
    and s': "s' = (if st_needed s1 > 0 \<and> of_nat n < MAX_NUMBER_OF_CONTRIBUTORS * MAX_KEY_IMAGES_PER_CONTRIBUTOR
              then s1\<lparr>st_portions := st_portions s1 + st_needed s1\<rparr> else s1)"
    using assms(1) by (auto simp: contributor_share_def bind_eq_Some_conv)
  have "unat (st_portions s) + unat (st_needed s) = unat m"
    using True by (simp add: assms(4) unat_sub word_less_nat_alt word_le_nat_alt)
  moreover have "unat m < 2 ^ 64" using unat_u64_less [of m] by simp
  ultimately obtain t where t: "excess_ok (st_excess s1) (st_result s1)" "length (st_result s1) = length (st_result s)"
    "length (st_excess s1) = length (st_excess s)" "drop (length (st_result s)) (st_excess s1) = drop (length (st_result s)) (st_excess s)"
    "unat (st_portions s1) + unat (st_needed s1) = unat m" "unat (st_steal s1) \<le> t"
    "sum_list (map unat (st_result s1)) + t \<le> sum_list (map unat (st_result s))" "unat (st_portions s1) = unat (st_portions s) + t"
    using steal_dust_sum [OF s1 assms(2,3), of "unat m" 0 "sum_list (map unat (st_result s))" "unat (st_portions s)"]
    by (auto simp: assms(5))
  have "unat (st_portions s1 + st_needed s1) = unat m"
    using unat_add_nowrap [of "st_portions s1" "st_needed s1"] t(5) unat_u64_less [of m] by simp
  then have "unat (st_portions s1) \<le> unat (st_portions s')"
    using t(5) by (simp add: s')
  then show ?thesis using t unfolding s' by (intro exI [of _ t]) (auto split: if_splits)
qed

lemma add_result_ok:
  assumes "loop_ok i (c # cs) l"
    and "contributor_share n i m \<lparr>st_portions = atp_portions c, st_needed = m - atp_portions c, st_steal = 0,
               st_excess = excess_portions l, st_result = conv_portions (loop_result l)\<rparr> = Some s"
    and "\<not> st_portions s - st_steal s > portions_left l"
  shows "loop_ok (Suc i) cs (add_result req c s l)"
proof -
  let ?s = "\<lparr>st_portions = atp_portions c, st_needed = m - atp_portions c, st_steal = 0,
               st_excess = excess_portions l, st_result = conv_portions (loop_result l)\<rparr>"
  let ?r = "conv_portions (loop_result l)"
  have l: "length ?r = i" "length (conv_addresses (loop_result l)) = i" "length (excess_portions l) = i + Suc (length cs)"
    "sum_list (map unat ?r) + unat (portions_left l) \<le> unat STAKING_PORTIONS"
    and ex: "excess_ok (excess_portions l) (?r @ map atp_portions (c # cs))"
    using assms(1) by (simp_all add: loop_ok_def)
  have ex1: "excess_ok (excess_portions l) ?r" "excess_ok (drop i (excess_portions l)) (map atp_portions (c # cs))"
    using ex excess_ok_append [of ?r "map atp_portions (c # cs)" "excess_portions l"] l by simp_all
  obtain t where t: "excess_ok (st_excess s) (st_result s)" "length (st_result s) = i"
    "length (st_excess s) = length (excess_portions l)" "drop i (st_excess s) = drop i (excess_portions l)"
    "unat (st_steal s) \<le> t" "sum_list (map unat (st_result s)) + t \<le> sum_list (map unat ?r)"
    "unat (atp_portions c) + t \<le> unat (st_portions s)"
    using contributor_share_sum [OF assms(2)] ex1(1) l by auto
  have sub: "unat (st_portions s - st_steal s) = unat (st_portions s) - unat (st_steal s)"
    using t(5,7) by (simp add: unat_sub word_le_nat_alt)
  have left: "unat (st_portions s) - unat (st_steal s) \<le> unat (portions_left l)"
    using assms(3) unfolding sub [symmetric] by (simp add: word_le_nat_alt not_less)
  have move: "portions_left l - st_portions s + st_steal s = portions_left l - (st_portions s - st_steal s)" by simp
  have left': "unat (portions_left l - st_portions s + st_steal s) = unat (portions_left l) - (unat (st_portions s) - unat (st_steal s))"
    unfolding move by (subst unat_sub) (use left sub in \<open>simp_all add: word_le_nat_alt\<close>)
  have "excess_ok (drop i (st_excess s)) (st_portions s # map atp_portions cs)"
    using ex1(2) t(4,7) by (auto simp: excess_ok_def nth_Cons' split: if_splits)
  then have "excess_ok (st_excess s) ((st_result s @ [st_portions s]) @ map atp_portions cs)"
    using excess_ok_append [of "st_result s" "st_portions s # map atp_portions cs" "st_excess s"] t(1-3) l by simp
  moreover have "sum_list (map unat (st_result s)) + unat (st_portions s)
      + (unat (portions_left l) - (unat (st_portions s) - unat (st_steal s))) \<le> unat STAKING_PORTIONS"
    using left t(5-7) l(4) by linarith
  ultimately show ?thesis
    using l t(2,3) left' by (simp add: loop_ok_def add_result_def)
qed

lemma assign_portions_Cons:
  "assign_portions args hf req n i (c # cs) l =
     (let m = get_min_node_contribution_in_portions hf req (loop_reserved l) (of_nat i)
      in if atp_portions c < m \<and> m - atp_portions c > STAKING_PORTIONS div req * FUDGE_FACTOR
         then assign_portions args hf req n (Suc i) cs l
         else do {
           s \<leftarrow> contributor_share n i m \<lparr>st_portions = atp_portions c, st_needed = m - atp_portions c, st_steal = 0,
               st_excess = excess_portions l, st_result = conv_portions (loop_result l)\<rparr>;
           if st_portions s < m \<or> st_portions s - st_steal s > portions_left l
           then Some (Inl (Invalid_amount (args ! i) (args ! (i + 1))))
           else if m = UINT64_MAX then Some (Inl Too_many_contributors)
           else assign_portions args hf req n (Suc i) cs (add_result req c s l) })"
  by (simp add: Let_def contributor_share_def cong: if_cong)

lemma assign_portions_length:
  "assign_portions args hf req n i cs l = Some (Inr l') \<Longrightarrow>
   length (conv_addresses (loop_result l')) \<le> length (conv_addresses (loop_result l)) + length cs"
proof (induction cs arbitrary: i l)
  case (Cons c cs)
  from Cons.prems consider (skip) "assign_portions args hf req n (Suc i) cs l = Some (Inr l')"
    | (add) s where "assign_portions args hf req n (Suc i) cs (add_result req c s l) = Some (Inr l')"
    unfolding assign_portions_Cons Let_def by (auto simp: bind_eq_Some_conv split: if_splits)
  then show ?case
  proof cases
    case skip
    then show ?thesis using Cons.IH by fastforce
  next
    case add
    then show ?thesis using Cons.IH [OF add] by (simp add: add_result_def)
  qed
qed simp

lemma assign_portions_ok:
  assumes "assign_portions args hf req n i cs l = Some (Inr l')" and "loop_ok i cs l"
    and "length (conv_addresses (loop_result l')) = i + length cs"
  shows "loop_ok (i + length cs) [] l'"
  using assms
proof (induction cs arbitrary: i l)
  case (Cons c cs)
  have len: "length (conv_addresses (loop_result l)) = i" using Cons.prems(2) by (simp add: loop_ok_def)
  from Cons.prems(1) consider (skip) "assign_portions args hf req n (Suc i) cs l = Some (Inr l')"
    | (add) s where "contributor_share n i (get_min_node_contribution_in_portions hf req (loop_reserved l) (of_nat i))
          \<lparr>st_portions = atp_portions c, st_needed = get_min_node_contribution_in_portions hf req (loop_reserved l) (of_nat i) - atp_portions c,
            st_steal = 0, st_excess = excess_portions l, st_result = conv_portions (loop_result l)\<rparr> = Some s"
        "\<not> st_portions s - st_steal s > portions_left l"
        "assign_portions args hf req n (Suc i) cs (add_result req c s l) = Some (Inr l')"
    unfolding assign_portions_Cons Let_def by (auto simp: bind_eq_Some_conv split: if_splits)
  then show ?case
  proof cases
    case skip
    then show ?thesis using assign_portions_length [OF skip] len Cons.prems(3) by simp
  next
    case add
    then show ?thesis
      using Cons.IH [OF add(3) add_result_ok [OF Cons.prems(2) add(1,2)]] Cons.prems(3) by simp
  qed
qed simp

lemma calc_excess_ok:
  "length (calc_excess_portions hf req r i ps) = length ps \<and> excess_ok (calc_excess_portions hf req r i ps) ps"
proof (induction ps arbitrary: r i)
  case (Cons p ps)
  have ex: "m < p \<Longrightarrow> unat (p - m) \<le> unat p" for m
    by (auto simp: unat_sub word_le_nat_alt word_less_nat_alt)
  show ?case
    using Cons.IH ex by (auto simp: excess_ok_def Let_def nth_Cons')
qed (simp add: excess_ok_def)

lemma parse_contributors_length:
  "parse_contributors env lc net args = Some (Inr cs) \<Longrightarrow> length args = 2 * length cs"
  by (induction env lc net args arbitrary: cs rule: parse_contributors.induct)
    (auto split: bind_splits option.splits if_splits sum.splits)

lemma convert_success:
  assumes "convert_registration_args env lc net args req hf = Some r" and "conv_success r"
  obtains p cs l where "parse_contributors env lc net (drop 1 args) = Some (Inr cs)"
    and "assign_portions args hf req (length cs) 0 cs
      \<lparr>excess_portions = calc_excess_portions hf req 0 0 (map atp_portions cs), portions_left = STAKING_PORTIONS,
       loop_reserved = 0, loop_result = empty_args\<lparr>conv_portions_for_operator := p\<rparr>\<rparr> = Some (Inr l)"
    and "r = (loop_result l)\<lparr>conv_success := True\<rparr>" and "3 \<le> length args"
  using assms unfolding convert_registration_args_def Let_def
  by (auto simp: empty_args_def not_less split: bind_splits if_splits option.splits sum.splits)

lemma convert_portions_ok:
  assumes "convert_registration_args env lc net args req hf = Some r" and "conv_success r"
    and "length (conv_addresses r) = (length args - 1) div 2"
  shows "length (conv_portions r) = length (conv_addresses r)"
    and "sum_list (map unat (conv_portions r)) \<le> unat STAKING_PORTIONS"
proof -
  obtain p cs l where cs: "parse_contributors env lc net (drop 1 args) = Some (Inr cs)"
    and l: "assign_portions args hf req (length cs) 0 cs
      \<lparr>excess_portions = calc_excess_portions hf req 0 0 (map atp_portions cs), portions_left = STAKING_PORTIONS,
       loop_reserved = 0, loop_result = empty_args\<lparr>conv_portions_for_operator := p\<rparr>\<rparr> = Some (Inr l)"
    and r: "r = (loop_result l)\<lparr>conv_success := True\<rparr>" "3 \<le> length args"
    by (rule convert_success [OF assms(1,2)])
  have n: "length (conv_addresses (loop_result l)) = 0 + length cs"
    using assms(3) parse_contributors_length [OF cs] by (simp add: r)
  have "loop_ok (0 + length cs) [] l"
    by (rule assign_portions_ok [OF l _ n])
      (use calc_excess_ok [of hf req 0 0 "map atp_portions cs"] in \<open>simp add: loop_ok_def empty_args_def\<close>)
  then show "length (conv_portions r) = length (conv_addresses r)"
    and "sum_list (map unat (conv_portions r)) \<le> unat STAKING_PORTIONS"
    by (simp_all add: loop_ok_def r)
qed

text \<open>
  C18. When the conversion of registration arguments succeeds and keeps every contributor, the portions are one per
  address and sum up to at most all portions, also after dust was moved between the contributors; so the
  registration hash exists and the signed command is printed.
\<close>
theorem converted_args_sign:
  assumes "convert_registration_args env lc net args req hf = Some r" and "conv_success r"
    and "length (conv_addresses r) = (length args - 1) div 2"
  shows "length (conv_portions r) = length (conv_addresses r)
    \<and> sum_list (map unat (conv_portions r)) \<le> unat STAKING_PORTIONS
    \<and> (\<exists>cmd. make_registration_cmd env lc sign expiry now net hf req args key sec friendly = Some (Some cmd))"
proof -
  note ok = convert_portions_ok [OF assms]
  then have "get_registration_hash env (conv_addresses r) (conv_portions_for_operator r) (conv_portions r) t \<noteq> None" for t
    by (simp add: get_registration_hash_def portions_left_loop_sum)
  then show ?thesis
    using ok assms(1,2) by (auto simp: make_registration_cmd_def Let_def split: option.splits)
qed

text \<open>An address in the old format, for examples: it is accepted on every network without a key check.\<close>

definition hex_address :: string where
  "hex_address = write_hex (replicate 66 0)"

lemma sum_zeros: "fold (\<lambda>b summ. summ + b) (replicate n 0) (0 :: u8) = 0"
  by (induction n) simp_all

lemma hex_address_parsed:
  assumes "get_config_prefixes net \<noteq> None"
  shows "get_account_address_from_str h ck fresh_info net hex_address = Some (Some fresh_info)"
proof -
  have "get_account_address_checksum (replicate 66 0) = 0"
    by (simp only: get_account_address_checksum_def take_replicate sum_zeros)
  then show ?thesis
    using assms by (auto simp: get_account_address_from_str_def hex_address_def address_from_hex_def parse_hexstr_write_hex
        sizeof_public_address_outer_blob_def CRYPTONOTE_PUBLIC_ADDRESS_TEXTBLOB_VER_def fresh_info_def null_pkey_def)
qed

text \<open>The minimum of the first contributor, with the requirement of the main network.\<close>

lemma first_minimum: "get_min_node_contribution_in_portions 11 100000000000000 0 0 = 0x3fffffffffffffff"
proof -
  have "unat (get_portions_to_make_amount 100000000000000 25000000000000) = 0x3fffffffffffffff"
    by (subst get_portions_to_make_amount_val) (simp_all add: STAKING_PORTIONS_nat)
  then have "get_portions_to_make_amount 100000000000000 25000000000000 = 0x3fffffffffffffff"
    by (simp add: word_unat_eq_iff)
  then show ?thesis
    by (simp add: get_min_node_contribution_in_portions_def get_min_node_contribution_def network_version_11_infinite_staking_def
        MAX_NUMBER_OF_CONTRIBUTORS_def MAX_KEY_IMAGES_PER_CONTRIBUTOR_def Let_def)
qed

definition example_numbers :: "string \<Rightarrow> u64 option" where
  "example_numbers s =
     (if s = ''none'' then Some 0 else if s = ''all'' then Some STAKING_PORTIONS
      else if s = ''dust'' then Some 0x3ffffffffffffffe else if s = ''three'' then Some 0xbffffffffffffffd else Some 1)"

lemma parse_one:
  assumes "lc w = Some p"
  shows "parse_contributors env lc MAINNET (hex_address # w # ws) =
    map_option (map_sum id ((#) \<lparr>atp_info = fresh_info, atp_portions = p\<rparr>)) (parse_contributors env lc MAINNET ws)"
proof -
  have f: "has_payment_id fresh_info = False" "is_subaddress fresh_info = False" by (simp_all add: fresh_info_def)
  show ?thesis
    using assms by (cases "parse_contributors env lc MAINNET ws")
      (auto simp: hex_address_parsed get_config_prefixes_def f split: sum.splits)
qed

theorem converted_args_sign_witness:
  "\<exists>cmd. make_registration_cmd rich_crypto example_numbers (\<lambda>_ _ _. []) (\<lambda>_. []) 1000 MAINNET 11 100000000000000
    [''none'', hex_address, ''all''] [] [] False = Some (Some cmd)"
proof -
  have n: "example_numbers ''none'' = Some 0" "example_numbers ''all'' = Some STAKING_PORTIONS" by (simp_all add: example_numbers_def)
  have "convert_registration_args rich_crypto example_numbers MAINNET [''none'', hex_address, ''all''] 100000000000000 11
    = Some (empty_args\<lparr>conv_success := True, conv_addresses := [address fresh_info], conv_portions := [STAKING_PORTIONS]\<rparr>)"
    by (simp add: convert_registration_args_def n parse_one assign_portions_Cons first_minimum contributor_share_def Let_def
        STAKING_PORTIONS_def FUDGE_FACTOR_def MAX_NUMBER_OF_CONTRIBUTORS_def empty_args_def add_result_def del: assign_portions.simps(2) parse_contributors.simps(3))
  from converted_args_sign [OF this, of "\<lambda>_ _ _. []" "\<lambda>_. []" 1000 "[]" "[]" False] show ?thesis
    by (simp add: empty_args_def)
qed

text \<open>
  C40. A contributor whose portions are more than dust below the minimum is silently left out: the conversion of such a
  single operator succeeds without any address, and the command is signed and printed all the same.
\<close>
theorem small_share_dropped:
  assumes "lc op = Some p0" and "p0 \<le> STAKING_PORTIONS"
    and "get_account_address_from_str (cn_fast_hash env) (Staking.check_key env) fresh_info net addr = Some (Some info)"
    and "\<not> has_payment_id info" and "\<not> is_subaddress info" and "lc share = Some p"
    and "p < get_min_node_contribution_in_portions hf req 0 0"
    and "STAKING_PORTIONS div req * FUDGE_FACTOR < get_min_node_contribution_in_portions hf req 0 0 - p"
  shows "convert_registration_args env lc net [op, addr, share] req hf
      = Some (empty_args\<lparr>conv_success := True, conv_portions_for_operator := p0\<rparr>)
    \<and> (\<exists>cmd. make_registration_cmd env lc sign expiry now net hf req [op, addr, share] key sec friendly = Some (Some cmd))"
proof -
  have c: "convert_registration_args env lc net [op, addr, share] req hf
      = Some (empty_args\<lparr>conv_success := True, conv_portions_for_operator := p0\<rparr>)"
    using assms by (simp add: convert_registration_args_def assign_portions_Cons Let_def
        MAX_NUMBER_OF_CONTRIBUTORS_def empty_args_def del: assign_portions.simps(2))
  then show ?thesis
    by (auto simp: make_registration_cmd_def get_registration_hash_def empty_args_def Let_def)
qed

theorem small_share_dropped_witness:
  "convert_registration_args rich_crypto example_numbers MAINNET [''none'', hex_address, ''one''] 100000000000000 11
   = Some (empty_args\<lparr>conv_success := True\<rparr>)"
  using small_share_dropped [of example_numbers "''none''" 0 rich_crypto MAINNET hex_address fresh_info "''one''" 1 11 100000000000000]
  by (simp add: example_numbers_def hex_address_parsed get_config_prefixes_def first_minimum STAKING_PORTIONS_def FUDGE_FACTOR_def)
    (simp add: fresh_info_def empty_args_def)

text \<open>
  Taking dust from a contributor that comes later writes to portions that are not in the result yet: here the first
  contributor is one portion short, and the second one has some to spare.
\<close>

lemma second_minimum: "get_min_node_contribution_in_portions 11 100000000000000 24999999999999 1 < 0xbffffffffffffffd"
proof -
  have "unat (get_portions_to_make_amount 100000000000000 25000000000000) = 0x3fffffffffffffff"
    by (subst get_portions_to_make_amount_val) (simp_all add: STAKING_PORTIONS_nat)
  then show ?thesis
    by (simp add: get_min_node_contribution_in_portions_def get_min_node_contribution_def network_version_11_infinite_staking_def
        MAX_NUMBER_OF_CONTRIBUTORS_def MAX_KEY_IMAGES_PER_CONTRIBUTOR_def Let_def word_less_nat_alt word_le_nat_alt)
qed

lemma steal_out_of_bounds:
  "convert_registration_args env example_numbers MAINNET [''none'', hex_address, ''dust'', hex_address, ''three''] 100000000000000 11 = None"
proof -
  have n: "example_numbers ''none'' = Some 0" "example_numbers ''dust'' = Some 0x3ffffffffffffffe"
    "example_numbers ''three'' = Some 0xbffffffffffffffd" by (simp_all add: example_numbers_def)
  have "unat (portions_to_amount 100000000000000 0x3ffffffffffffffe) = 24999999999999"
    by (subst portions_to_amount_val) (simp_all add: STAKING_PORTIONS_nat word_le_nat_alt)
  then have a: "portions_to_amount 100000000000000 0x3ffffffffffffffe = 24999999999999" by (simp add: word_unat_eq_iff)
  define m where "m = get_min_node_contribution_in_portions 11 100000000000000 24999999999999 1"
  have m: "m < 0xbffffffffffffffd" using second_minimum by (simp add: m_def)
  then have "0 < 0xbffffffffffffffd - m" by (simp add: word_gt_0)
  then show ?thesis
    using m by (simp add: convert_registration_args_def n parse_one assign_portions_Cons first_minimum contributor_share_def Let_def a
        m_def [symmetric] STAKING_PORTIONS_def FUDGE_FACTOR_def MAX_NUMBER_OF_CONTRIBUTORS_def empty_args_def
        upt_rec del: assign_portions.simps(2) parse_contributors.simps(3))
qed

end
