(* ===== verification/TreeHash.thy ===== *)
theory TreeHash
  imports Transaction
begin

text \<open>
  The root of the hash tree over the transactions of a block (crypto/tree-hash.c). The hash function is a parameter.
\<close>

section \<open>The code\<close>

text \<open>
  The loop that doubles \<open>pow\<close> never ends when the count exceeds \<open>2 ^ 63\<close>, which is \<^const>\<open>None\<close> here: the power
  wraps around to 0. The assertions keep the count far below that; a failed one is \<^const>\<open>None\<close> as well.
\<close>

partial_function (option) pow_loop :: "u64 \<Rightarrow> u64 \<Rightarrow> u64 option" where
  "pow_loop number pow = (if pow < number then pow_loop number (push_bit 1 pow) else Some pow)"

declare pow_loop.simps [code]

definition tree_hash_cnt :: "u64 \<Rightarrow> u64 option" where
  "tree_hash_cnt number =
     (if \<not> number \<ge> 3 then None
      else if \<not> number \<le> 0x10000000 then None
      else do {
        pow \<leftarrow> pow_loop number 2;
        Some (drop_bit 1 pow)
      })"

text \<open>
  The arrays are lists of rows of 32 bytes. A call that hashes 64 bytes reads two rows; reading or writing a
  row that is not there is \<^const>\<open>None\<close>.
\<close>

definition hash_rows :: "(bytes \<Rightarrow> crypto_hash) \<Rightarrow> crypto_hash list \<Rightarrow> nat \<Rightarrow> crypto_hash option" where
  "hash_rows cn_fast_hash rows i =
     (if i + 1 < length rows then Some (cn_fast_hash (rows ! i @ rows ! (i + 1))) else None)"

fun hash_tail :: "(bytes \<Rightarrow> crypto_hash) \<Rightarrow> crypto_hash list \<Rightarrow> nat \<Rightarrow> nat \<Rightarrow> nat \<Rightarrow> crypto_hash list \<Rightarrow> crypto_hash list option" where
  "hash_tail cn_fast_hash hashes 0 i j ints = Some ints"
| "hash_tail cn_fast_hash hashes (Suc steps) i j ints = do {
     h \<leftarrow> hash_rows cn_fast_hash hashes i;
     if j < length ints then hash_tail cn_fast_hash hashes steps (i + 2) (j + 1) (ints [j := h]) else None
   }"

fun hash_level :: "(bytes \<Rightarrow> crypto_hash) \<Rightarrow> nat \<Rightarrow> nat \<Rightarrow> nat \<Rightarrow> crypto_hash list \<Rightarrow> crypto_hash list option" where
  "hash_level cn_fast_hash 0 i j ints = Some ints"
| "hash_level cn_fast_hash (Suc steps) i j ints = do {
     h \<leftarrow> hash_rows cn_fast_hash ints i;
     if j < length ints then hash_level cn_fast_hash steps (i + 2) (j + 1) (ints [j := h]) else None
   }"

function hash_levels :: "(bytes \<Rightarrow> crypto_hash) \<Rightarrow> nat \<Rightarrow> crypto_hash list \<Rightarrow> crypto_hash list option" where
  "hash_levels cn_fast_hash cnt ints =
     (if cnt > 2 then do {
        let cnt = cnt div 2;
        ints \<leftarrow> hash_level cn_fast_hash cnt 0 0 ints;
        hash_levels cn_fast_hash cnt ints
      } else Some ints)"
  by auto
termination
  by (relation "measure (\<lambda>(_, cnt, _). cnt)") auto

declare hash_levels.simps [simp del]

text \<open>
  A count of zero fails the first assertion. The second one, \<open>i == count\<close> after the first loop, always holds:
  \<open>i\<close> is then \<open>2 * cnt - count + 2 * (count - cnt)\<close>.
\<close>

definition tree_hash :: "(bytes \<Rightarrow> crypto_hash) \<Rightarrow> crypto_hash list \<Rightarrow> crypto_hash option" where
  "tree_hash cn_fast_hash hashes =
     (let number = length hashes
      in if number = 0 then None
         else if number = 1 then Some (hashes ! 0)
         else if number = 2 then hash_rows cn_fast_hash hashes 0
         else do {
           cnt \<leftarrow> tree_hash_cnt (of_nat number);
           let cnt = unat cnt;
           let ints = take (2 * cnt - number) hashes @ replicate (cnt - (2 * cnt - number)) (replicate 32 0);
           ints \<leftarrow> hash_tail cn_fast_hash hashes (cnt - (2 * cnt - number)) (2 * cnt - number) (2 * cnt - number) ints;
           ints \<leftarrow> hash_levels cn_fast_hash cnt ints;
           hash_rows cn_fast_hash ints 0
         })"

text \<open>The hash of a transaction is a parameter; in a block the miner transaction comes first.\<close>

definition get_tx_tree_hash :: "(bytes \<Rightarrow> crypto_hash) \<Rightarrow> (transaction \<Rightarrow> crypto_hash) \<Rightarrow> block \<Rightarrow> crypto_hash option" where
  "get_tx_tree_hash cn_fast_hash get_transaction_hash b =
     tree_hash cn_fast_hash (get_transaction_hash (miner_tx b) # tx_hashes b)"

section \<open>The power of two\<close>

lemma unat_pow2: "k < 64 \<Longrightarrow> unat (push_bit k 1 :: u64) = 2 ^ k"
proof -
  assume "k < 64"
  then have "(2 :: nat) ^ k < 2 ^ 64" by (intro power_strict_increasing) simp_all
  then show ?thesis by (subst unat_push_bit) simp_all
qed

lemma pow_loop_result:
  assumes "unat num \<le> 2 ^ 63" and "1 \<le> k" and "k \<le> 63" and "2 ^ (k - 1) < unat num"
  shows "\<exists>m. pow_loop num (push_bit k 1) = Some (push_bit m 1) \<and> 1 \<le> m \<and> m \<le> 63 \<and> 2 ^ (m - 1) < unat num \<and> unat num \<le> 2 ^ m"
  using assms(2-)
proof (induction "63 - k" arbitrary: k rule: less_induct)
  case less
  have k: "unat (push_bit k 1 :: u64) = 2 ^ k" using less.prems by (intro unat_pow2) simp
  show ?case
  proof (cases "2 ^ k < unat num")
    case True
    then have "(2 :: nat) ^ k < 2 ^ 63" using assms(1) by (rule less_le_trans)
    then have "k < 63" by (rule power_less_imp_less_exp [rotated]) simp
    moreover have "push_bit 1 (push_bit k 1 :: u64) = push_bit (Suc k) 1" by simp
    moreover have "push_bit k 1 < num" using True by (simp only: word_less_nat_alt k)
    ultimately have "pow_loop num (push_bit k 1) = pow_loop num (push_bit (Suc k) 1)"
      by (subst pow_loop.simps) (simp only: if_True)
    then show ?thesis
      using less.hyps [of "Suc k"] less.prems True \<open>k < 63\<close> by (simp only: diff_Suc_1)
  next
    case False
    then have "\<not> push_bit k 1 < num" by (simp only: word_less_nat_alt k not_False_eq_True)
    then have "pow_loop num (push_bit k 1) = Some (push_bit k 1)" by (subst pow_loop.simps) simp
    then show ?thesis using less.prems False by (intro exI [of _ k]) simp
  qed
qed

lemma tree_hash_cnt_result:
  assumes "3 \<le> unat num" and "unat num \<le> 2 ^ 28"
  obtains k where "tree_hash_cnt num = Some (push_bit k 1)" and "1 \<le> k" and "k \<le> 62" and "2 ^ k < unat num" and "unat num \<le> 2 ^ Suc k"
proof -
  have big: "unat num \<le> 2 ^ 63" using assms(2) by simp
  obtain m where m: "pow_loop num (push_bit 1 1) = Some (push_bit m 1)" "1 \<le> m" "m \<le> 63" "2 ^ (m - 1) < unat num" "unat num \<le> 2 ^ m"
    using pow_loop_result [OF big, of 1] assms(1) by auto
  have "2 \<le> m"
  proof (rule ccontr)
    assume "\<not> 2 \<le> m"
    then have "m = 1" using m(2) by simp
    then show False using m(5) assms(1) by simp
  qed
  moreover have "drop_bit 1 (push_bit m 1 :: u64) = push_bit (m - 1) 1"
    using m(2,3) by (intro bit_word_eqI) (auto simp: bit_simps)
  ultimately show ?thesis
    using that [of "m - 1"] m assms by (simp add: tree_hash_cnt_def word_le_nat_alt)
qed

definition pow_or_zero :: "u64 \<Rightarrow> bool" where
  "pow_or_zero p \<longleftrightarrow> p = 0 \<or> (\<exists>k < 64. p = push_bit k 1)"

lemma pow_or_zero_shift: "pow_or_zero p \<Longrightarrow> pow_or_zero (push_bit 1 p)"
proof -
  assume "pow_or_zero p"
  then consider "p = 0" | k where "k < 63" "p = push_bit k 1" | "p = push_bit 63 1"
    unfolding pow_or_zero_def by (metis less_Suc_eq numeral_eq_Suc pred_numeral_simps(2) pred_numeral_simps(3) BitM.simps(1,2))
  then show ?thesis
  proof cases
    case (2 k)
    then show ?thesis unfolding pow_or_zero_def by (intro disjI2 exI [of _ "Suc k"]) simp
  qed (simp_all add: pow_or_zero_def)
qed

lemma pow_or_zero_le: "pow_or_zero p \<Longrightarrow> unat p \<le> 2 ^ 63"
proof -
  assume "pow_or_zero p"
  moreover have "k \<le> 63" if "k < 64" for k :: nat using that by simp
  ultimately consider "p = 0" | k where "k \<le> 63" "p = push_bit k 1" unfolding pow_or_zero_def by blast
  then show ?thesis
  proof cases
    case (2 k)
    then have "unat p = 2 ^ k" using unat_pow2 [of k] by simp
    also have "\<dots> \<le> 2 ^ 63" using 2(1) by (intro power_increasing) simp_all
    finally show ?thesis .
  qed simp
qed

lemma pow_loop_diverges:
  assumes "pow_loop num p = Some y" and "pow_or_zero p"
  shows "unat num \<le> 2 ^ 63"
proof -
  have "pow_or_zero p \<longrightarrow> unat num \<le> 2 ^ 63"
  proof (rule pow_loop.raw_induct [OF _ assms(1)])
    fix f num p y
    assume IH: "\<And>num p y. f num p = Some y \<Longrightarrow> pow_or_zero p \<longrightarrow> unat num \<le> 2 ^ 63"
      and step: "(if p < num then f num (push_bit 1 p) else Some p) = Some y"
    show "pow_or_zero p \<longrightarrow> unat num \<le> 2 ^ 63"
    proof (cases "p < num")
      case True
      then have "f num (push_bit 1 p) = Some y" using step by simp
      then show ?thesis using IH pow_or_zero_shift by blast
    next
      case False
      then show ?thesis using pow_or_zero_le [of p] by (auto simp: word_less_nat_alt)
    qed
  qed
  then show ?thesis using assms(2) by blast
qed

lemma pow_loop_ends: "(\<exists>pow. pow_loop num 2 = Some pow) \<longleftrightarrow> unat num \<le> 2 ^ 63"
proof
  have "pow_or_zero 2" unfolding pow_or_zero_def by (intro disjI2 exI [of _ 1]) simp
  then show "unat num \<le> 2 ^ 63" if "\<exists>pow. pow_loop num 2 = Some pow"
    using that pow_loop_diverges [of num 2] by blast
next
  assume small: "unat num \<le> 2 ^ 63"
  show "\<exists>pow. pow_loop num 2 = Some pow"
  proof (cases "1 < unat num")
    case True
    then show ?thesis using pow_loop_result [OF small, of 1] by auto
  next
    case False
    then have "\<not> 2 < num" by (simp add: word_less_nat_alt)
    then show ?thesis by (subst pow_loop.simps) simp
  qed
qed

text \<open>
  C20. The number of rows of the first full level is found for exactly the counts that pass the assertions, 3 to
  \<open>2 ^ 28\<close>. It is the largest power of two below the count: for a count that is a power of two itself that is half of
  it, not \<open>1 << floor(log2(count))\<close>. The loop on its own, without the assertions, ends exactly for counts up to
  \<open>2 ^ 63\<close>; the count \<open>2 ^ 63\<close>, whose top bit is set, is the last one for which it does.
\<close>
theorem tree_hash_cnt_terminates:
  "((\<exists>cnt. tree_hash_cnt num = Some cnt) \<longleftrightarrow> 3 \<le> unat num \<and> unat num \<le> 2 ^ 28)
    \<and> (\<forall>cnt. tree_hash_cnt num = Some cnt \<longrightarrow> (\<exists>k. unat cnt = 2 ^ k) \<and> unat cnt < unat num \<and> unat num \<le> 2 * unat cnt)
    \<and> (\<forall>n. tree_hash_cnt num \<noteq> None \<and> unat num = 2 ^ n \<longrightarrow> tree_hash_cnt num = Some (num div 2))
    \<and> ((\<exists>pow. pow_loop num 2 = Some pow) \<longleftrightarrow> unat num \<le> 2 ^ 63)"
proof -
  have range: "3 \<le> unat num \<and> unat num \<le> 2 ^ 28" if "tree_hash_cnt num = Some cnt" for cnt
    using that by (simp add: tree_hash_cnt_def word_le_nat_alt split: if_splits)
  have found: "\<exists>k. tree_hash_cnt num = Some (push_bit k 1) \<and> unat (push_bit k 1 :: u64) = 2 ^ k \<and> 2 ^ k < unat num \<and> unat num \<le> 2 * 2 ^ k"
    if rng: "3 \<le> unat num \<and> unat num \<le> 2 ^ 28"
  proof -
    obtain k where k: "tree_hash_cnt num = Some (push_bit k 1)" "1 \<le> k" "k \<le> 62" "2 ^ k < unat num" "unat num \<le> 2 ^ Suc k"
      using rng tree_hash_cnt_result [of num] by blast
    then show ?thesis using unat_pow2 [of k] by auto
  qed
  have "tree_hash_cnt num = Some (num div 2)" if cnt: "tree_hash_cnt num \<noteq> None" and n: "unat num = 2 ^ n" for n
  proof -
    from cnt range found obtain k where k: "tree_hash_cnt num = Some (push_bit k 1)" "unat (push_bit k 1 :: u64) = 2 ^ k"
      "2 ^ k < unat num" "unat num \<le> 2 * 2 ^ k" by blast
    have "(2 :: nat) ^ k < 2 ^ n" "(2 :: nat) ^ n \<le> 2 ^ Suc k" using k(3,4) n by simp_all
    then have "k < n" "n \<le> Suc k" by (auto intro: power_less_imp_less_exp [of 2] power_le_imp_le_exp [of 2])
    then have "unat (push_bit k 1 :: u64) = unat (num div 2)" using k(2) n by (simp add: unat_div_distrib le_Suc_eq)
    then show ?thesis using k(1) by (simp add: word_unat_eq_iff)
  qed
  moreover have "(\<exists>cnt. tree_hash_cnt num = Some cnt) \<longleftrightarrow> 3 \<le> unat num \<and> unat num \<le> 2 ^ 28"
    using range found by blast
  moreover have "\<forall>cnt. tree_hash_cnt num = Some cnt \<longrightarrow> (\<exists>k. unat cnt = 2 ^ k) \<and> unat cnt < unat num \<and> unat num \<le> 2 * unat cnt"
    using range found by fastforce
  ultimately show ?thesis using pow_loop_ends [of num] by blast
qed

theorem tree_hash_cnt_terminates_witness:
  "tree_hash_cnt 512 = Some 256 \<and> (\<exists>cnt. tree_hash_cnt 514 = Some cnt) \<and> tree_hash_cnt 0x10000001 = None
   \<and> (\<exists>pow. pow_loop 0x8000000000000000 2 = Some pow) \<and> \<not> (\<exists>pow. pow_loop 0x8000000000000001 2 = Some pow)"
proof -
  have "unat (512 :: u64) = 2 ^ 9" by simp
  then have "tree_hash_cnt 512 = Some (512 div 2)"
    using tree_hash_cnt_terminates [of 512] by fastforce
  then show ?thesis
    using tree_hash_cnt_terminates [of 514] tree_hash_cnt_terminates [of "0x10000001"]
      tree_hash_cnt_terminates [of "0x8000000000000000"] tree_hash_cnt_terminates [of "0x8000000000000001"] by simp
qed

section \<open>The tree\<close>

text \<open>The hashes of neighbours, and the root of a full tree by levels.\<close>

fun pair_up :: "(bytes \<Rightarrow> crypto_hash) \<Rightarrow> crypto_hash list \<Rightarrow> crypto_hash list" where
  "pair_up H (a # b # xs) = H (a @ b) # pair_up H xs"
| "pair_up H xs = []"

primrec full_root :: "(bytes \<Rightarrow> crypto_hash) \<Rightarrow> nat \<Rightarrow> crypto_hash list \<Rightarrow> crypto_hash" where
  "full_root H 0 xs = hd xs"
| "full_root H (Suc k) xs = full_root H k (pair_up H xs)"

lemma length_pair_up [simp]: "length (pair_up H xs) = length xs div 2"
  by (induction H xs rule: pair_up.induct) simp_all

lemma nth_pair_up: "j < length xs div 2 \<Longrightarrow> pair_up H xs ! j = H (xs ! (2 * j) @ xs ! (2 * j + 1))"
proof (induction H xs arbitrary: j rule: pair_up.induct)
  case (1 H a b xs)
  then show ?case by (cases j) simp_all
qed simp_all

lemma hash_tail_result:
  assumes "hashes = pre @ xs" and "length xs = 2 * steps" and "length ints = j + steps" and "length pre = i"
  shows "hash_tail H hashes steps i j ints = Some (take j ints @ pair_up H xs)"
  using assms
proof (induction steps arbitrary: i j ints pre xs)
  case (Suc steps)
  obtain a b ys where xs: "xs = a # b # ys" using Suc.prems(2) by (auto simp: length_Suc_conv)
  have "hash_rows H hashes i = Some (H (a @ b))"
    using Suc.prems(1,4) by (auto simp: hash_rows_def xs nth_append)
  moreover have "hash_tail H hashes steps (i + 2) (j + 1) (ints [j := H (a @ b)])
    = Some (take (j + 1) (ints [j := H (a @ b)]) @ pair_up H ys)"
    using Suc.prems by (intro Suc.IH [of "pre @ [a, b]"]) (simp_all add: xs)
  moreover have "take (j + 1) (ints [j := H (a @ b)]) = take j ints @ [H (a @ b)]"
    using Suc.prems(3) by (simp add: take_Suc_conv_app_nth)
  ultimately show ?case using Suc.prems(3) by (simp add: xs)
qed simp

text \<open>The levels are computed in place: the rows that are still to be read are never overwritten before.\<close>

lemma hash_level_result:
  assumes "2 * (j + steps) \<le> length ints" and "2 * (j + steps) \<le> length rows" and "length ints = length rows"
    and "\<And>r. 2 * j \<le> r \<Longrightarrow> r < length rows \<Longrightarrow> ints ! r = rows ! r"
  shows "\<exists>out. hash_level H steps (2 * j) j ints = Some out \<and> length out = length ints \<and> take j out = take j ints
    \<and> (\<forall>r. j \<le> r \<and> r < j + steps \<longrightarrow> out ! r = H (rows ! (2 * r) @ rows ! (2 * r + 1)))"
  using assms
proof (induction steps arbitrary: j ints)
  case (Suc steps)
  define h where "h = H (rows ! (2 * j) @ rows ! (2 * j + 1))"
  define ints' where "ints' = ints [j := h]"
  have rows: "hash_rows H ints (2 * j) = Some h"
    using Suc.prems by (simp add: hash_rows_def h_def)
  have same: "ints' ! r = rows ! r" if "2 * (j + 1) \<le> r" "r < length rows" for r
    using Suc.prems(4) [of r] that by (simp add: ints'_def)
  from Suc.IH [of "j + 1" ints', OF _ _ _ same] Suc.prems(1-3)
  obtain out where out: "hash_level H steps (2 * (j + 1)) (j + 1) ints' = Some out" "length out = length ints'"
    "take (j + 1) out = take (j + 1) ints'"
    "\<forall>r. j + 1 \<le> r \<and> r < j + 1 + steps \<longrightarrow> out ! r = H (rows ! (2 * r) @ rows ! (2 * r + 1))"
    by (auto simp: ints'_def)
  have "take j out = take j ints"
    using arg_cong [OF out(3), of "take j"] by (simp add: ints'_def)
  moreover have "out ! j = h"
    using arg_cong [OF out(3), of "\<lambda>l. l ! j"] Suc.prems(1) by (simp add: ints'_def)
  moreover have "hash_level H (Suc steps) (2 * j) j ints = Some out"
    using rows out(1) Suc.prems(1) by (simp add: ints'_def)
  moreover have "out ! r = H (rows ! (2 * r) @ rows ! (2 * r + 1))" if "j \<le> r" "r < j + Suc steps" for r
    using out(4) calculation(2) that by (cases "r = j") (auto simp: h_def)
  ultimately show ?case
    using out(2) by (intro exI [of _ out]) (simp add: ints'_def)
qed auto

lemma hash_levels_result:
  assumes "2 ^ Suc k \<le> length ints"
  shows "\<exists>out. hash_levels H (2 ^ Suc k) ints = Some out \<and> hash_rows H out 0 = Some (full_root H (Suc k) (take (2 ^ Suc k) ints))"
  using assms
proof (induction k arbitrary: ints)
  case 0
  then obtain a b xs where "ints = a # b # xs"
    by (cases ints; cases "tl ints") auto
  then show ?case by (simp add: hash_levels.simps hash_rows_def)
next
  case (Suc k)
  define half where "half = (2 :: nat) ^ Suc k"
  have half: "2 ^ Suc (Suc k) = 2 * half" "2 \<le> half" by (simp_all add: half_def)
  obtain mid where mid: "hash_level H half 0 0 ints = Some mid" "length mid = length ints"
    "\<forall>r < half. mid ! r = H (ints ! (2 * r) @ ints ! (2 * r + 1))"
    using hash_level_result [of 0 half ints ints H] Suc.prems half by auto
  have level: "take half mid = pair_up H (take (2 * half) ints)"
    using mid(2,3) Suc.prems half by (intro nth_equalityI) (simp_all add: nth_pair_up)
  obtain out where "hash_levels H half mid = Some out" "hash_rows H out 0 = Some (full_root H (Suc k) (take half mid))"
    using Suc.IH [of mid] mid(2) Suc.prems half by (auto simp: half_def)
  moreover have "hash_levels H (2 * half) ints = hash_levels H half mid"
    using mid(1) half(2) by (subst hash_levels.simps) simp
  ultimately show ?case
    unfolding half(1) by (simp add: level)
qed

text \<open>The first full level: the rows that fill it up stay, the others are hashed in pairs.\<close>

definition first_level :: "(bytes \<Rightarrow> crypto_hash) \<Rightarrow> nat \<Rightarrow> crypto_hash list \<Rightarrow> crypto_hash list" where
  "first_level H k xs = (let m = 2 * 2 ^ k - length xs in take m xs @ pair_up H (drop m xs))"

lemma length_first_level:
  assumes "2 ^ k < length xs" and "length xs \<le> 2 * 2 ^ k"
  shows "length (first_level H k xs) = 2 ^ k"
  using assms by (simp add: first_level_def Let_def)

lemma tree_hash_root:
  assumes "2 ^ k < length xs" and "length xs \<le> 2 * 2 ^ k" and "k \<le> 27"
  shows "tree_hash H xs = Some (full_root H k (first_level H k xs))"
proof (cases k)
  case 0
  then have "length xs = 2" using assms by simp
  then obtain a b where "xs = [a, b]" by (auto simp: length_Suc_conv numeral_2_eq_2)
  then show ?thesis using 0 by (simp add: tree_hash_def hash_rows_def first_level_def)
next
  case (Suc k')
  define m where "m = 2 * 2 ^ k - length xs"
  have p: "(2 :: nat) ^ k \<le> 2 ^ 27" using assms(3) by (intro power_increasing) simp_all
  have pos: "2 \<le> (2 :: nat) ^ k" by (simp add: Suc)
  then have len: "3 \<le> length xs" "length xs \<le> 2 ^ 28" using assms(1,2) p by simp_all
  have u: "unat (of_nat (length xs) :: u64) = length xs" using len(2) by (intro of_nat_inverse) simp_all
  obtain l where l: "tree_hash_cnt (of_nat (length xs)) = Some (push_bit l 1)" "l \<le> 62" "2 ^ l < length xs" "length xs \<le> 2 ^ Suc l"
    using tree_hash_cnt_result [of "of_nat (length xs)"] len u by metis
  have "(2 :: nat) ^ l < 2 ^ Suc k" "(2 :: nat) ^ k < 2 ^ Suc l" using assms(1,2) l(3,4) by simp_all
  then have "l < Suc k" "k < Suc l" by (auto intro: power_less_imp_less_exp [of 2])
  then have "l = k" by simp
  then have cnt: "tree_hash_cnt (of_nat (length xs)) = Some (push_bit k 1)" "unat (push_bit k 1 :: u64) = 2 ^ k"
    using l(1) assms(3) unat_pow2 [of k] by simp_all
  have m: "m < 2 ^ k" "length xs - m = 2 * (2 ^ k - m)" "m \<le> length xs" using assms(1,2) by (simp_all add: m_def)
  have "hash_tail H xs (2 ^ k - m) m m (take m xs @ replicate (2 ^ k - m) (replicate 32 0))
    = Some (take m xs @ pair_up H (drop m xs))"
    using hash_tail_result [of xs "take m xs" "drop m xs" "2 ^ k - m" "take m xs @ replicate (2 ^ k - m) (replicate 32 0)" m m H] m by simp
  moreover have "length (first_level H k xs) = 2 ^ Suc k'" using length_first_level [OF assms(1,2)] Suc by simp
  then obtain out where "hash_levels H (2 ^ k) (first_level H k xs) = Some out"
    "hash_rows H out 0 = Some (full_root H k (first_level H k xs))"
    using hash_levels_result [of k' "first_level H k xs" H] Suc by auto
  moreover have "first_level H k xs = take m xs @ pair_up H (drop m xs)" by (simp add: first_level_def m_def Let_def)
  moreover have "xs \<noteq> []" using len(1) by auto
  ultimately show ?thesis
    using cnt len(1) by (simp add: tree_hash_def Let_def m_def [symmetric])
qed

section \<open>What the root determines\<close>

text \<open>The blocks of 64 bytes that are hashed on the way to the root.\<close>

fun pair_inputs :: "crypto_hash list \<Rightarrow> bytes list" where
  "pair_inputs (a # b # xs) = (a @ b) # pair_inputs xs"
| "pair_inputs xs = []"

primrec full_inputs :: "(bytes \<Rightarrow> crypto_hash) \<Rightarrow> nat \<Rightarrow> crypto_hash list \<Rightarrow> bytes list" where
  "full_inputs H 0 xs = []"
| "full_inputs H (Suc k) xs = pair_inputs xs @ full_inputs H k (pair_up H xs)"

definition tree_inputs :: "(bytes \<Rightarrow> crypto_hash) \<Rightarrow> nat \<Rightarrow> crypto_hash list \<Rightarrow> bytes list" where
  "tree_inputs H k xs = pair_inputs (drop (2 * 2 ^ k - length xs) xs) @ full_inputs H k (first_level H k xs)"

definition rows_ok :: "crypto_hash list \<Rightarrow> bool" where
  "rows_ok xs = list_all (\<lambda>x. length x = 32) xs"

lemma rows_ok_pair_up:
  assumes "\<And>b. length (H b) = 32"
  shows "rows_ok (pair_up H xs)"
  by (induction xs rule: induct_list012) (simp_all add: rows_ok_def assms)

lemma pair_up_inj:
  assumes "length xs = length ys" and "even (length xs)" and "rows_ok xs" and "rows_ok ys"
    and "inj_on H (set (pair_inputs xs) \<union> set (pair_inputs ys))" and "pair_up H xs = pair_up H ys"
  shows "xs = ys"
  using assms
proof (induction xs arbitrary: ys rule: induct_list012)
  case (3 a b xs)
  have "length ys = Suc (Suc (length xs))" using "3.prems"(1) by simp
  then obtain c d zs where ys: "ys = c # d # zs" by (auto simp: length_Suc_conv)
  have "H (a @ b) = H (c @ d)" using "3.prems"(6) by (simp add: ys)
  then have "a @ b = c @ d" by (rule inj_onD [OF "3.prems"(5)]) (simp_all add: ys)
  moreover have "length a = length c" using "3.prems"(3,4) by (simp add: ys rows_ok_def)
  moreover have "inj_on H (set (pair_inputs xs) \<union> set (pair_inputs zs))"
    using "3.prems"(5) by (rule inj_on_subset) (auto simp: ys)
  then have "xs = zs"
    using "3.prems"(1-4,6) by (intro "3.IH"(1)) (simp_all add: ys rows_ok_def)
  ultimately show ?case by (simp add: ys)
next
  case (2 v)
  then have "even (1 :: nat)" by simp
  then show ?case by simp
qed simp

lemma full_root_inj:
  assumes "length xs = 2 ^ k" and "length ys = 2 ^ k" and "rows_ok xs" and "rows_ok ys" and "\<And>b. length (H b) = 32"
    and "inj_on H (set (full_inputs H k xs) \<union> set (full_inputs H k ys))" and "full_root H k xs = full_root H k ys"
  shows "xs = ys"
  using assms
proof (induction k arbitrary: xs ys)
  case 0
  then show ?case by (auto simp: length_Suc_conv)
next
  case (Suc k)
  have "inj_on H (set (full_inputs H k (pair_up H xs)) \<union> set (full_inputs H k (pair_up H ys)))"
    and inj: "inj_on H (set (pair_inputs xs) \<union> set (pair_inputs ys))"
    using Suc.prems(6) by (rule inj_on_subset; auto)+
  then have "pair_up H xs = pair_up H ys"
    using Suc.prems(1-5,7) rows_ok_pair_up [of H] by (intro Suc.IH) simp_all
  then show ?case
    using Suc.prems(1-4) inj by (intro pair_up_inj [of xs ys H]) simp_all
qed

text \<open>
  C19. The tree hash of 2 to \<open>2 ^ 28\<close> transaction hashes is the root of the full tree above the first level, although
  all levels are computed in place, and among lists of one length it binds the hashes: two lists of the same length have
  the same root exactly if they are equal, as long as the hash function has no collision among the blocks hashed in the
  two trees. Nothing is said of lists of different lengths, which can share a root: the list of the root alone does.
\<close>
theorem tree_hash_binding:
  assumes "2 ^ k < length xs" and "length xs \<le> 2 * 2 ^ k" and "k \<le> 27" and "length ys = length xs"
    and "rows_ok xs" and "rows_ok ys" and "\<And>b. length (H b) = 32"
    and "inj_on H (set (tree_inputs H k xs) \<union> set (tree_inputs H k ys))"
  shows "tree_hash H xs = Some (full_root H k (first_level H k xs)) \<and> (tree_hash H xs = tree_hash H ys) = (xs = ys)"
proof -
  have root: "tree_hash H zs = Some (full_root H k (first_level H k zs))" if "length zs = length xs" for zs
    using tree_hash_root assms(1-3) that by simp
  have "xs = ys" if "tree_hash H xs = tree_hash H ys"
  proof -
    let ?m = "2 * 2 ^ k - length xs"
    have ok: "rows_ok (first_level H k zs)" if "rows_ok zs" for zs
      using that rows_ok_pair_up [of H] assms(7) by (auto simp: first_level_def Let_def rows_ok_def list_all_iff dest: in_set_takeD)
    have "full_root H k (first_level H k xs) = full_root H k (first_level H k ys)"
      using that root assms(4) by simp
    moreover have "length (first_level H k xs) = 2 ^ k" "length (first_level H k ys) = 2 ^ k"
      using length_first_level [of k xs H] length_first_level [of k ys H] assms(1,2,4) by simp_all
    moreover have "inj_on H (set (full_inputs H k (first_level H k xs)) \<union> set (full_inputs H k (first_level H k ys)))"
      using assms(8) by (rule inj_on_subset) (auto simp: tree_inputs_def)
    ultimately have "first_level H k xs = first_level H k ys"
      using full_root_inj [of _ k _ H] ok [OF assms(5)] ok [OF assms(6)] assms(7) by blast
    then have parts: "take ?m xs = take ?m ys" "pair_up H (drop ?m xs) = pair_up H (drop ?m ys)"
      using assms(4) by (simp_all add: first_level_def Let_def)
    have "drop ?m xs = drop ?m ys"
    proof (rule pair_up_inj [OF _ _ _ _ _ parts(2)])
      have "length xs - ?m = 2 * (length xs - 2 ^ k)" using assms(1,2) by simp
      then show "even (length (drop ?m xs))" by simp
      show "inj_on H (set (pair_inputs (drop ?m xs)) \<union> set (pair_inputs (drop ?m ys)))"
        using assms(8) by (rule inj_on_subset) (auto simp: tree_inputs_def assms(4))
    qed (use assms(4-6) in \<open>auto simp: rows_ok_def list_all_iff dest: in_set_dropD\<close>)
    with parts(1) show ?thesis by (metis append_take_drop_id)
  qed
  then show ?thesis using root [of xs] by auto
qed

text \<open>A function with results of 32 bytes, for an example.\<close>

definition first_bytes :: "bytes \<Rightarrow> crypto_hash" where
  "first_bytes b = resize 32 0 b"

lemma first_bytes_simps: "length (first_bytes b) = 32" "first_bytes (replicate 32 x @ c) = replicate 32 x"
  by (simp_all add: first_bytes_def resize_def)

theorem tree_hash_binding_witness:
  "tree_hash first_bytes [replicate 32 1, replicate 32 2, replicate 32 3]
   \<noteq> tree_hash first_bytes [replicate 32 4, replicate 32 5, replicate 32 6]"
  using tree_hash_binding [of 1 "[replicate 32 1, replicate 32 2, replicate 32 3]" "[replicate 32 4, replicate 32 5, replicate 32 6]" first_bytes]
  by (simp add: rows_ok_def tree_inputs_def first_level_def inj_on_def first_bytes_simps) (elim conjE, simp)

end
