(* ===== verification/Checkpoints.thy ===== *)
theory Checkpoints
  imports Address Difficulty
begin

text \<open>
  Checkpoints (checkpoints/checkpoints.cpp): known hashes and difficulties of blocks. The \<open>std::map\<close>s are
  association lists in the order of the heights.
\<close>

section \<open>The code\<close>

text \<open>\<open>operator[]\<close> followed by an assignment.\<close>

fun map_assign :: "u64 \<Rightarrow> 'v \<Rightarrow> (u64 \<times> 'v) list \<Rightarrow> (u64 \<times> 'v) list" where
  "map_assign k v [] = [(k, v)]"
| "map_assign k v ((k', v') # m) =
     (if k < k' then (k, v) # (k', v') # m
      else if k = k' then (k, v) # m
      else (k', v') # map_assign k v m)"

record checkpoints =
  m_points :: "(u64 \<times> crypto_hash) list"
  m_difficulty_points :: "(u64 \<times> difficulty_type) list"

definition no_checkpoints :: checkpoints where
  "no_checkpoints = \<lparr>m_points = [], m_difficulty_points = []\<rparr>"

definition hex_to_hash :: "string \<Rightarrow> crypto_hash option" where
  "hex_to_hash hex_str = (if 32 * 2 \<noteq> length hex_str then None else parse_hexstr_to_binbuff hex_str)"

text \<open>
  \<open>parse_difficulty\<close> is the conversion by boost's multiprecision numbers, in hexadecimal with a prefix and in decimal
  without, with \<^const>\<open>None\<close> for an exception. The hash is entered before the difficulty is looked at.
\<close>

definition add_checkpoint ::
  "(string \<Rightarrow> difficulty_type option) \<Rightarrow> u64 \<Rightarrow> string \<Rightarrow> string \<Rightarrow> checkpoints \<Rightarrow> bool \<times> checkpoints" where
  "add_checkpoint parse_difficulty height hash_str difficulty_str c =
     (case hex_to_hash hash_str of
        None \<Rightarrow> (False, c)
      | Some h \<Rightarrow>
          if map_of (m_points c) height \<notin> {None, Some h} then (False, c)
          else
            let c = c\<lparr>m_points := map_assign height h (m_points c)\<rparr>
            in if difficulty_str = [] then (True, c)
               else (case parse_difficulty difficulty_str of
                 None \<Rightarrow> (False, c)
               | Some difficulty \<Rightarrow>
                   if map_of (m_difficulty_points c) height \<notin> {None, Some difficulty} then (False, c)
                   else (True, c\<lparr>m_difficulty_points := map_assign height difficulty (m_difficulty_points c)\<rparr>)))"

definition is_in_checkpoint_zone :: "u64 \<Rightarrow> checkpoints \<Rightarrow> bool" where
  "is_in_checkpoint_zone height c = (m_points c \<noteq> [] \<and> height \<le> fst (last (m_points c)))"

text \<open>The result and the output parameter \<open>is_a_checkpoint\<close>.\<close>

definition check_block :: "u64 \<Rightarrow> crypto_hash \<Rightarrow> checkpoints \<Rightarrow> bool \<times> bool" where
  "check_block height h c =
     (case map_of (m_points c) height of
        None \<Rightarrow> (True, False)
      | Some h' \<Rightarrow> (h' = h, True))"

text \<open>The entries before \<open>upper_bound\<close>; the last one of them is the checkpoint at or below the height.\<close>

definition is_alternative_block_allowed :: "u64 \<Rightarrow> u64 \<Rightarrow> checkpoints \<Rightarrow> bool" where
  "is_alternative_block_allowed blockchain_height block_height c =
     (if block_height = 0 then False
      else
        let below = takeWhile (\<lambda>(k, _). k \<le> blockchain_height) (m_points c)
        in if below = [] then True else fst (last below) < block_height)"

text \<open>\<open>std::max_element\<close>; \<^const>\<open>None\<close> is reading the end iterator of an empty map.\<close>

definition get_max_height :: "checkpoints \<Rightarrow> u64 option" where
  "get_max_height c =
     (case m_points c of
        [] \<Rightarrow> None
      | p # ps \<Rightarrow> Some (fst (fold (\<lambda>q best. if fst best < fst q then q else best) ps p)))"

definition check_for_conflicts :: "checkpoints \<Rightarrow> checkpoints \<Rightarrow> bool" where
  "check_for_conflicts c other =
     list_all (\<lambda>(k, h). case map_of (m_points c) k of None \<Rightarrow> True | Some h' \<Rightarrow> h = h') (m_points other)"

fun add_checkpoints ::
  "(string \<Rightarrow> difficulty_type option) \<Rightarrow> (u64 \<times> string \<times> string) list \<Rightarrow> checkpoints \<Rightarrow> bool \<times> checkpoints" where
  "add_checkpoints parse_difficulty [] c = (True, c)"
| "add_checkpoints parse_difficulty ((height, hash, difficulty) # rest) c =
     (let (r, c) = add_checkpoint parse_difficulty height hash difficulty c
      in if \<not> r then (False, c) else add_checkpoints parse_difficulty rest c)"

definition mainnet_checkpoints :: "(u64 \<times> string \<times> string) list" where
  "mainnet_checkpoints =
     [(0, ''e49dd87be7e6a9120639ec0eee0c19a4ac43ab316057213d6293ccc9ed749e81'', ''0x1''),
      (20, ''13ce8fc6196e3387c81a552b8b0f9ca7620dce0b5794e7a6a6a410db0d5c5de4'', ''0x14193''),
      (40, ''046698aad0d780c3bed741c2fff674729db2621a1297d4956d93e747db2f9d87'', ''0x2b6cf''),
      (60, ''73ad016c9f9f2b7e489125c871e5713ec958fa62441d4403cf0fb7c5ca5f8532'', ''0x3efb1''),
      (80, ''918a4db27370a29a04d14a4200f2edc9bcb2d0728d49fb533dd783ded4dfcbe3'', ''0x4f940''),
      (100, ''0e9d22ab03317ce5c498ab9329b6cb301b60d3f9760999731048a127cd53b6fb'', ''0x5989d'')]"

definition init_default_checkpoints :: "(string \<Rightarrow> difficulty_type option) \<Rightarrow> network_type \<Rightarrow> checkpoints \<Rightarrow> bool \<times> checkpoints" where
  "init_default_checkpoints parse_difficulty net c =
     (case net of
        MAINNET \<Rightarrow> add_checkpoints parse_difficulty mainnet_checkpoints c
      | _ \<Rightarrow> (True, c))"

text \<open>
  The file is a parameter: \<open>None\<close> when it does not exist, otherwise the lines read from it or a failure.
  The outer \<^const>\<open>None\<close> of the result is the undefined maximum of an empty map.
\<close>

definition load_checkpoints_from_json ::
  "(u64 \<times> string) list option option \<Rightarrow> checkpoints \<Rightarrow> (bool \<times> checkpoints) option" where
  "load_checkpoints_from_json file c =
     (case file of
        None \<Rightarrow> Some (True, c)
      | Some loaded \<Rightarrow> do {
          prev_max_height \<leftarrow> get_max_height c;
          case loaded of
            None \<Rightarrow> Some (False, c)
          | Some hashlines \<Rightarrow>
              Some (add_checkpoints (\<lambda>_. None)
                [(height, hash, []). (height, hash) \<leftarrow> hashlines, \<not> height \<le> prev_max_height] c)
        })"

definition load_checkpoints_from_dns :: "network_type \<Rightarrow> bool" where
  "load_checkpoints_from_dns net = True"

definition load_new_checkpoints ::
  "(u64 \<times> string) list option option \<Rightarrow> network_type \<Rightarrow> bool \<Rightarrow> checkpoints \<Rightarrow> (bool \<times> checkpoints) option" where
  "load_new_checkpoints file net dns c = do {
     (result, c) \<leftarrow> load_checkpoints_from_json file c;
     Some (if dns then result \<and> load_checkpoints_from_dns net else result, c)
   }"

section \<open>Ordered association lists\<close>

definition ordered :: "(u64 \<times> 'v) list \<Rightarrow> bool" where
  "ordered m = sorted_wrt (<) (map fst m)"

lemma map_assign_keys: "fst ` set (map_assign k v m) = insert k (fst ` set m)"
  by (induction k v m rule: map_assign.induct) auto

lemma map_assign_ordered: "ordered m \<Longrightarrow> ordered (map_assign k v m)"
proof (induction k v m rule: map_assign.induct)
  case (2 k v k' v' m)
  have "\<forall>x \<in> fst ` set (map_assign k v m). k' < x" if "k' < k" "\<forall>x \<in> fst ` set m. k' < x"
    using that by (simp add: map_assign_keys)
  then show ?case using 2 by (fastforce simp: ordered_def)
qed (simp add: ordered_def)

lemma map_of_map_assign: "ordered m \<Longrightarrow> map_of (map_assign k v m) = (map_of m)(k \<mapsto> v)"
proof (induction k v m rule: map_assign.induct)
  case (2 k v k' v' m)
  then show ?case by (auto simp: ordered_def fun_eq_iff)
qed simp

lemma ordered_last:
  assumes "ordered m" and "m \<noteq> []" and "k \<in> fst ` set m"
  shows "k \<le> fst (last m)"
  using assms
proof (induction m)
  case (Cons p m)
  then show ?case by (cases "m = []") (auto simp: ordered_def intro: less_imp_le)
qed simp

lemma ordered_takeWhile:
  assumes "ordered m"
  shows "takeWhile (\<lambda>(k, _). k \<le> b) m = filter (\<lambda>(k, _). k \<le> b) m"
  using assms
proof (induction m)
  case (Cons p m)
  obtain k v where p: "p = (k, v)" by force
  show ?case
  proof (cases "k \<le> b")
    case True
    then show ?thesis using Cons by (simp add: p ordered_def)
  next
    case False
    have "\<not> k' \<le> b" if "(k', v') \<in> set m" for k' v'
      using Cons.prems that False by (force simp: p ordered_def)
    then have "filter (\<lambda>(k, _). k \<le> b) m = []" by (auto simp: filter_empty_conv)
    then show ?thesis using False by (simp add: p)
  qed
qed simp

lemma ordered_filter: "ordered m \<Longrightarrow> ordered (filter P m)"
  unfolding ordered_def by (induction m) auto

section \<open>What checkpoints decide\<close>

text \<open>Every sequence of additions keeps the maps in order.\<close>

definition checkpoints_ok :: "checkpoints \<Rightarrow> bool" where
  "checkpoints_ok c = (ordered (m_points c) \<and> ordered (m_difficulty_points c))"

abbreviation point :: "checkpoints \<Rightarrow> u64 \<Rightarrow> crypto_hash option" where
  "point c \<equiv> map_of (m_points c)"

lemma add_checkpoint_ok: "checkpoints_ok c \<Longrightarrow> checkpoints_ok (snd (add_checkpoint pd h s d c))"
  by (auto simp: add_checkpoint_def checkpoints_ok_def Let_def map_assign_ordered split: option.split)

lemma add_checkpoint_point:
  assumes "checkpoints_ok c" and "hex_to_hash s = Some x"
  shows "point (snd (add_checkpoint pd h s d c)) = (if point c h \<in> {None, Some x} then (point c)(h \<mapsto> x) else point c)"
  using assms by (auto simp: add_checkpoint_def checkpoints_ok_def Let_def map_of_map_assign split: option.split)

lemma add_checkpoint_bad: "hex_to_hash s = None \<Longrightarrow> add_checkpoint pd h s d c = (False, c)"
  by (simp add: add_checkpoint_def)

lemma add_checkpoint_keeps: "checkpoints_ok c \<Longrightarrow> point c \<subseteq>\<^sub>m point (snd (add_checkpoint pd h s d c))"
proof (cases "hex_to_hash s")
  case (Some x)
  assume "checkpoints_ok c"
  from add_checkpoint_point [OF this Some, of pd h d] show ?thesis by (auto simp: map_le_def)
qed (simp add: add_checkpoint_bad)

lemma add_checkpoints_ok:
  "checkpoints_ok c \<Longrightarrow> checkpoints_ok (snd (add_checkpoints pd ls c)) \<and> point c \<subseteq>\<^sub>m point (snd (add_checkpoints pd ls c))"
proof (induction pd ls c rule: add_checkpoints.induct)
  case (2 pd h s d rest c)
  obtain r c' where c': "add_checkpoint pd h s d c = (r, c')" by force
  then have "checkpoints_ok c'" "point c \<subseteq>\<^sub>m point c'"
    using add_checkpoint_ok [OF "2.prems", of pd h s d] add_checkpoint_keeps [OF "2.prems", of pd h s d] by simp_all
  then show ?case using "2.IH" [OF c' [symmetric] refl] c' by (auto intro: map_le_trans)
qed simp

lemma fold_max: "fst (fold (\<lambda>q best. if fst best < fst q then q else best) ps p) = Max (fst ` set (p # ps))"
  for p :: "u64 \<times> 'v"
proof -
  have "fst (fold (\<lambda>q best. if fst best < fst q then q else best) ps p) = fold max (map fst ps) (fst p)"
  proof (induction ps arbitrary: p)
    case (Cons q ps)
    have "fst (if fst p < fst q then q else p) = max (fst q) (fst p)" by (auto simp: max_def)
    then show ?case using Cons.IH [of "if fst p < fst q then q else p"] by simp
  qed simp
  also have "\<dots> = Max (set (map fst (p # ps)))" by (simp only: list.map Max.set_eq_fold)
  finally show ?thesis by simp
qed

lemma alternative_allowed_iff:
  assumes "checkpoints_ok c"
  shows "is_alternative_block_allowed bh h c \<longleftrightarrow> h \<noteq> 0 \<and> (\<forall>k \<in> dom (point c). k \<le> bh \<longrightarrow> k < h)"
proof -
  define below where "below = filter (\<lambda>(k, _). k \<le> bh) (m_points c)"
  have ord: "ordered (m_points c)" using assms by (simp add: checkpoints_ok_def)
  have keys: "fst ` set below = {k \<in> dom (point c). k \<le> bh}" by (auto simp: below_def dom_map_of_conv_image_fst image_iff)
  show ?thesis
  proof (cases "below = []")
    case True
    then show ?thesis using keys by (auto simp: is_alternative_block_allowed_def ordered_takeWhile [OF ord] below_def [symmetric])
  next
    case False
    have "fst (last below) \<in> fst ` set below" using False by simp
    moreover have "k \<le> fst (last below)" if "k \<in> fst ` set below" for k
      using ordered_last [OF ordered_filter [OF ord] _ that [unfolded below_def]] False by (simp add: below_def)
    ultimately have "fst (last below) < h \<longleftrightarrow> (\<forall>k \<in> fst ` set below. k < h)" by (meson le_less_trans)
    then show ?thesis
      using False keys by (auto simp: is_alternative_block_allowed_def ordered_takeWhile [OF ord] below_def [symmetric])
  qed
qed

text \<open>
  C21. After any sequence of additions the ordered lists refine a partial map from heights to hashes: the checkpoint
  zone, the maximal height and the permission of alternative blocks are those of the map's heights, an addition
  enters a hash exactly where none or the same one is, and entries never change. The zone reaches up to the highest
  checkpoint and includes its own height, where the header says the heights lower than it; an alternative block at
  height 0 is never allowed, and a checkpoint at the height of the chain counts, which is the height of the block after
  its last one; and a hash is entered whatever becomes of the difficulty that comes with it.
\<close>
theorem checkpoints_refine:
  assumes "c = snd (add_checkpoints pd ls no_checkpoints)" and "hex_to_hash s = Some x"
  shows "is_in_checkpoint_zone h c = (\<exists>k. k \<in> dom (point c) \<and> h \<le> k)
    \<and> get_max_height c = (if dom (point c) = {} then None else Some (Max (dom (point c))))
    \<and> is_alternative_block_allowed bh h c = (h \<noteq> 0 \<and> (\<forall>k \<in> dom (point c). k \<le> bh \<longrightarrow> k < h))
    \<and> point (snd (add_checkpoint pd h s d c)) = (if point c h \<in> {None, Some x} then (point c)(h \<mapsto> x) else point c)
    \<and> point c \<subseteq>\<^sub>m point (snd (add_checkpoints pd ls' c))"
proof -
  have ok: "checkpoints_ok c"
    using add_checkpoints_ok [of no_checkpoints pd ls] assms(1) by (simp add: checkpoints_ok_def ordered_def no_checkpoints_def)
  then have ord: "ordered (m_points c)" by (simp add: checkpoints_ok_def)
  have keys: "dom (point c) = fst ` set (m_points c)" by (rule dom_map_of_conv_image_fst)
  have "is_in_checkpoint_zone h c = (\<exists>k. k \<in> dom (point c) \<and> h \<le> k)"
  proof (cases "m_points c = []")
    case False
    then have "fst (last (m_points c)) \<in> fst ` set (m_points c)" by simp
    then show ?thesis using False ordered_last [OF ord False] unfolding is_in_checkpoint_zone_def keys by (meson order_trans)
  qed (simp add: is_in_checkpoint_zone_def keys)
  moreover have "get_max_height c = (if dom (point c) = {} then None else Some (Max (dom (point c))))"
  proof (cases "m_points c")
    case (Cons p ps)
    then show ?thesis using fold_max [of ps p] by (simp add: get_max_height_def dom_map_of_conv_image_fst del: map_of.simps)
  qed (simp add: get_max_height_def)
  ultimately show ?thesis
    using alternative_allowed_iff [OF ok] add_checkpoint_point [OF ok assms(2)] add_checkpoints_ok [OF ok, of pd ls'] by blast
qed

theorem checkpoints_refine_witness:
  "is_alternative_block_allowed 30 25 (snd (add_checkpoints (\<lambda>_. None) [(20, write_hex (replicate 32 7), [])] no_checkpoints))"
proof -
  have h: "hex_to_hash (write_hex (replicate 32 7)) = Some (replicate 32 7)"
    by (simp add: hex_to_hash_def parse_hexstr_write_hex length_write_hex)
  define c where "c = snd (add_checkpoints (\<lambda>_. None) [(20, write_hex (replicate 32 7), [])] no_checkpoints)"
  have "dom (point c) = {20}" by (simp add: c_def add_checkpoint_def h no_checkpoints_def)
  then show ?thesis
    using checkpoints_refine [OF c_def h, of 25 30 "[]" "[]"] unfolding c_def [symmetric] by simp
qed

text \<open>
  The file of checkpoints cannot be read on a network without default ones: the maximum of no heights is
  read from the end of the map.
\<close>

lemma load_without_defaults: "load_checkpoints_from_json (Some loaded) no_checkpoints = None"
  by (simp add: load_checkpoints_from_json_def get_max_height_def no_checkpoints_def)

end
