(* ===== verification/Pruning.thy ===== *)
theory Pruning
  imports Staking
begin

text \<open>
  Pruning stripes (common/pruning.cpp): the chain is cut into runs of 4096 blocks, dealt out to the stripes in
  turn; a node with a pruning seed keeps the blocks of its stripe and the newest blocks.
\<close>

section \<open>The code\<close>

definition PRUNING_SEED_LOG_STRIPES_SHIFT :: nat where "PRUNING_SEED_LOG_STRIPES_SHIFT = 7"
definition PRUNING_SEED_LOG_STRIPES_MASK :: u32 where "PRUNING_SEED_LOG_STRIPES_MASK = 0x7"
definition PRUNING_SEED_STRIPE_SHIFT :: nat where "PRUNING_SEED_STRIPE_SHIFT = 0"
definition PRUNING_SEED_STRIPE_MASK :: u32 where "PRUNING_SEED_STRIPE_MASK = 0x7f"
definition CRYPTONOTE_PRUNING_STRIPE_SIZE :: u64 where "CRYPTONOTE_PRUNING_STRIPE_SIZE = 4096"
definition CRYPTONOTE_PRUNING_LOG_STRIPES :: u64 where "CRYPTONOTE_PRUNING_LOG_STRIPES = 3"
definition CRYPTONOTE_PRUNING_TIP_BLOCKS :: u64 where "CRYPTONOTE_PRUNING_TIP_BLOCKS = 5500"

definition get_pruning_log_stripes :: "u32 \<Rightarrow> u32" where
  "get_pruning_log_stripes pruning_seed =
     drop_bit PRUNING_SEED_LOG_STRIPES_SHIFT pruning_seed AND PRUNING_SEED_LOG_STRIPES_MASK"

definition get_pruning_stripe_of_seed :: "u32 \<Rightarrow> u32" where
  "get_pruning_stripe_of_seed pruning_seed =
     (if pruning_seed = 0 then 0
      else 1 + (drop_bit PRUNING_SEED_STRIPE_SHIFT pruning_seed AND PRUNING_SEED_STRIPE_MASK))"

text \<open>\<^const>\<open>None\<close> is the exception of a failed check.\<close>

definition make_pruning_seed :: "u32 \<Rightarrow> u32 \<Rightarrow> u32 option" where
  "make_pruning_seed stripe log_stripes =
     (if \<not> log_stripes \<le> PRUNING_SEED_LOG_STRIPES_MASK then None
      else if \<not> (stripe > 0 \<and> (ucast stripe :: u64) \<le> push_bit (unat log_stripes) 1) then None
      else Some (push_bit PRUNING_SEED_LOG_STRIPES_SHIFT log_stripes OR push_bit PRUNING_SEED_STRIPE_SHIFT (stripe - 1)))"

definition get_pruning_stripe :: "u64 \<Rightarrow> u64 \<Rightarrow> u32 \<Rightarrow> u32" where
  "get_pruning_stripe block_height blockchain_height log_stripes =
     (if block_height + CRYPTONOTE_PRUNING_TIP_BLOCKS \<ge> blockchain_height then 0
      else ucast ((block_height div CRYPTONOTE_PRUNING_STRIPE_SIZE AND (push_bit (unat log_stripes) 1 - 1)) + 1))"

definition has_unpruned_block :: "u64 \<Rightarrow> u64 \<Rightarrow> u32 \<Rightarrow> bool" where
  "has_unpruned_block block_height blockchain_height pruning_seed =
     (let stripe = get_pruning_stripe_of_seed pruning_seed
      in if stripe = 0 then True
         else
           let log_stripes = get_pruning_log_stripes pruning_seed;
               block_stripe = get_pruning_stripe block_height blockchain_height log_stripes
           in block_stripe = 0 \<or> block_stripe = stripe)"

definition get_pruning_seed :: "u64 \<Rightarrow> u64 \<Rightarrow> u32 \<Rightarrow> u32 option" where
  "get_pruning_seed block_height blockchain_height log_stripes =
     (let stripe = get_pruning_stripe block_height blockchain_height log_stripes
      in if stripe = 0 then Some 0 else make_pruning_seed stripe log_stripes)"

text \<open>
  The shifted stripe size and the start of the stripe are computed in 32 bits; a failed check returns the
  height of the block.
\<close>

definition get_next_unpruned_block_height :: "u64 \<Rightarrow> u64 \<Rightarrow> u32 \<Rightarrow> u64" where
  "get_next_unpruned_block_height block_height blockchain_height pruning_seed =
     (if \<not> block_height \<le> CRYPTONOTE_MAX_BLOCK_NUMBER + 1 then block_height
      else if \<not> blockchain_height \<le> CRYPTONOTE_MAX_BLOCK_NUMBER + 1 then block_height
      else
        let stripe = get_pruning_stripe_of_seed pruning_seed
        in if stripe = 0 then block_height
           else if block_height + CRYPTONOTE_PRUNING_TIP_BLOCKS \<ge> blockchain_height then block_height
           else
             let seed_log_stripes = get_pruning_log_stripes pruning_seed;
                 log_stripes = (if seed_log_stripes \<noteq> 0 then ucast seed_log_stripes else CRYPTONOTE_PRUNING_LOG_STRIPES);
                 mask = push_bit (unat log_stripes) 1 - 1;
                 block_pruning_stripe = ucast ((block_height div CRYPTONOTE_PRUNING_STRIPE_SIZE AND mask) + 1)
             in if block_pruning_stripe = stripe then block_height
                else
                  let cycles = drop_bit (unat log_stripes) (block_height div CRYPTONOTE_PRUNING_STRIPE_SIZE);
                      cycle_start = cycles + (if stripe > block_pruning_stripe then 0 else 1);
                      h = cycle_start * ucast (push_bit (unat log_stripes) (ucast CRYPTONOTE_PRUNING_STRIPE_SIZE) :: u32)
                        + ucast ((stripe - 1) * ucast CRYPTONOTE_PRUNING_STRIPE_SIZE)
                  in if h + CRYPTONOTE_PRUNING_TIP_BLOCKS > blockchain_height
                     then if blockchain_height < CRYPTONOTE_PRUNING_TIP_BLOCKS then 0
                          else blockchain_height - CRYPTONOTE_PRUNING_TIP_BLOCKS
                     else if \<not> h \<ge> block_height then block_height
                     else h)"

definition get_next_pruned_block_height :: "u64 \<Rightarrow> u64 \<Rightarrow> u32 \<Rightarrow> u64 option" where
  "get_next_pruned_block_height block_height blockchain_height pruning_seed =
     (let stripe = get_pruning_stripe_of_seed pruning_seed
      in if stripe = 0 then Some blockchain_height
         else if block_height + CRYPTONOTE_PRUNING_TIP_BLOCKS \<ge> blockchain_height then Some blockchain_height
         else
           let seed_log_stripes = get_pruning_log_stripes pruning_seed;
               log_stripes = (if seed_log_stripes \<noteq> 0 then ucast seed_log_stripes else CRYPTONOTE_PRUNING_LOG_STRIPES);
               mask = push_bit (unat log_stripes) 1 - 1;
               block_pruning_seed = ucast ((block_height div CRYPTONOTE_PRUNING_STRIPE_SIZE AND mask) + 1)
           in if block_pruning_seed \<noteq> stripe then Some block_height
              else do {
                let next_stripe = ucast (1 + (ucast block_pruning_seed AND mask));
                seed \<leftarrow> make_pruning_seed next_stripe (ucast log_stripes);
                Some (get_next_unpruned_block_height block_height blockchain_height seed)
              })"

text \<open>The random byte is a parameter.\<close>

definition get_random_stripe :: "u8 \<Rightarrow> u32" where
  "get_random_stripe rand = ucast (1 + ucast rand mod push_bit (unat CRYPTONOTE_PRUNING_LOG_STRIPES) (1 :: u64))"

section \<open>Seeds\<close>

text \<open>Stripe and number of stripes of a seed, for every seed that \<^const>\<open>make_pruning_seed\<close> returns.\<close>

lemma make_pruning_seed_parts:
  assumes "make_pruning_seed stripe log_stripes = Some seed" and "log_stripes \<noteq> 0"
  shows "get_pruning_stripe_of_seed seed = stripe" and "get_pruning_log_stripes seed = log_stripes"
    and "1 \<le> unat stripe" and "unat stripe \<le> 2 ^ unat log_stripes" and "unat log_stripes \<le> 7"
proof -
  have l: "unat log_stripes \<le> 7" and s: "0 < stripe" "(ucast stripe :: u64) \<le> push_bit (unat log_stripes) 1"
    and seed: "seed = push_bit 7 log_stripes OR (stripe - 1)"
    using assms(1) by (simp_all add: make_pruning_seed_def PRUNING_SEED_LOG_STRIPES_MASK_def PRUNING_SEED_LOG_STRIPES_SHIFT_def
        PRUNING_SEED_STRIPE_SHIFT_def word_le_nat_alt split: if_splits)
  have p: "(2 :: nat) ^ unat log_stripes \<le> 2 ^ 7" using l by (intro power_increasing) simp_all
  have "unat (push_bit (unat log_stripes) 1 :: u64) = 2 ^ unat log_stripes"
    by (subst unat_push_bit) (use p in simp_all)
  then have st: "unat stripe \<le> 2 ^ unat log_stripes"
    using s(2) by (simp add: word_le_nat_alt unsigned_ucast_eq take_bit_nat_eq_self)
  show "1 \<le> unat stripe" "unat stripe \<le> 2 ^ unat log_stripes" "unat log_stripes \<le> 7"
    using s(1) st l by (simp_all add: word_less_nat_alt)
  define t where "t = stripe - 1"
  have t: "unat t = unat stripe - 1" using s(1) by (simp add: t_def unat_sub word_less_nat_alt word_le_nat_alt)
  then have t7: "unat t < 2 ^ 7" using st p s(1) by (simp add: word_less_nat_alt)
  then have tm: "t = t AND mask 7" by (simp add: word_unat_eq_iff unat_and_mask)
  have lm: "log_stripes = log_stripes AND mask 3" using l by (simp add: word_unat_eq_iff unat_and_mask)
  have m: "(0x7f :: u32) = mask 7" "(7 :: u32) = mask 3" by (simp_all add: mask_eq_exp_minus_1)
  have "seed AND mask 7 = t"
    unfolding seed t_def [symmetric] by (subst (2) tm, subst tm, rule bit_word_eqI) (auto simp: bit_simps)
  moreover have "drop_bit 7 seed AND mask 3 = log_stripes"
    unfolding seed t_def [symmetric] by (subst (2) lm, subst tm, rule bit_word_eqI) (auto simp: bit_simps)
  moreover have "seed \<noteq> 0"
    using calculation(2) assms(2) by auto
  ultimately show "get_pruning_stripe_of_seed seed = stripe" "get_pruning_log_stripes seed = log_stripes"
    by (simp_all add: get_pruning_stripe_of_seed_def get_pruning_log_stripes_def PRUNING_SEED_STRIPE_SHIFT_def
        PRUNING_SEED_STRIPE_MASK_def PRUNING_SEED_LOG_STRIPES_SHIFT_def PRUNING_SEED_LOG_STRIPES_MASK_def m t_def)
qed

section \<open>Stripes as numbers\<close>

definition stripe_at :: "nat \<Rightarrow> nat \<Rightarrow> nat" where
  "stripe_at n h = h div 4096 mod 2 ^ n + 1"

lemmas pruning_constants = CRYPTONOTE_PRUNING_STRIPE_SIZE_def CRYPTONOTE_PRUNING_TIP_BLOCKS_def CRYPTONOTE_PRUNING_LOG_STRIPES_def
  CRYPTONOTE_MAX_BLOCK_NUMBER_def

lemma unat_div_4096: "unat (h div 4096 :: u64) = unat h div 4096"
  by (simp add: unat_div)

lemma stripe_word:
  assumes "n \<le> 7"
  shows "unat (ucast ((h div 4096 AND (push_bit n 1 - 1)) + 1 :: u64) :: u32) = stripe_at n (unat h)"
proof -
  have m: "(push_bit n 1 - 1 :: u64) = mask n" by (simp add: mask_eq_exp_minus_1 push_bit_eq_mult)
  have "(2 :: nat) ^ n \<le> 128" using power_increasing [OF assms, of "2 :: nat"] by simp
  moreover have "unat h div 4096 mod 2 ^ n < (2 :: nat) ^ n" by simp
  ultimately have small: "unat h div 4096 mod 2 ^ n < 128" by linarith
  have "unat (h div 4096 AND mask n) = unat h div 4096 mod 2 ^ n"
    by (simp add: unat_and_mask unat_div_4096)
  then have "unat ((h div 4096 AND mask n) + 1) = unat h div 4096 mod 2 ^ n + 1"
    using unat_add_nowrap [of "h div 4096 AND mask n" 1] small by simp
  then show ?thesis
    using small unfolding m by (simp add: unsigned_ucast_eq take_bit_nat_eq_self stripe_at_def)
qed

lemma has_unpruned_block_iff:
  assumes "make_pruning_seed stripe log_stripes = Some seed" and "log_stripes \<noteq> 0" and "unat h + 5500 < 2 ^ 64"
  shows "has_unpruned_block h bh seed \<longleftrightarrow>
    unat bh \<le> unat h + 5500 \<or> stripe_at (unat log_stripes) (unat h) = unat stripe"
proof -
  note parts = make_pruning_seed_parts [OF assms(1,2)]
  have tip: "bh \<le> h + 5500 \<longleftrightarrow> unat bh \<le> unat h + 5500"
    using unat_add_nowrap [of h 5500] assms(3) by (simp add: word_le_nat_alt)
  have "ucast ((h div 4096 AND (push_bit (unat log_stripes) 1 - 1)) + 1) = stripe
    \<longleftrightarrow> stripe_at (unat log_stripes) (unat h) = unat stripe"
    using stripe_word [OF parts(5), of h] by (simp add: word_unat_eq_iff)
  moreover have "ucast ((h div 4096 AND (push_bit (unat log_stripes) 1 - 1)) + 1) \<noteq> (0 :: u32)"
    using stripe_word [OF parts(5), of h] by (auto simp: stripe_at_def)
  moreover have "stripe \<noteq> 0" using parts(3) by auto
  ultimately show ?thesis
    using tip parts(1,2) by (simp add: has_unpruned_block_def get_pruning_stripe_def pruning_constants Let_def)
qed

text \<open>The start of the next run of stripe \<open>s\<close> after a height of another stripe.\<close>

definition next_start :: "nat \<Rightarrow> nat \<Rightarrow> nat \<Rightarrow> nat" where
  "next_start n s h = (h div 4096 div 2 ^ n + (if s > stripe_at n h then 0 else 1)) * (4096 * 2 ^ n) + (s - 1) * 4096"

lemma next_start_spec:
  assumes "1 \<le> s" and "s \<le> 2 ^ n" and "stripe_at n h \<noteq> s"
  shows "h \<le> next_start n s h" and "stripe_at n (next_start n s h) = s"
    and "h \<le> k \<Longrightarrow> k < next_start n s h \<Longrightarrow> stripe_at n k \<noteq> s"
proof -
  define L where "L = (2 :: nat) ^ n"
  define q where "q = h div 4096"
  define c where "c = q div L + (if s > stripe_at n h then 0 else 1)"
  have L: "0 < L" by (simp add: L_def)
  have r: "stripe_at n h = q mod L + 1" by (simp add: stripe_at_def q_def L_def)
  have start: "next_start n s h = (c * L + (s - 1)) * 4096"
    by (simp add: next_start_def c_def q_def L_def algebra_simps)
  have s: "s - 1 < L" using assms(1,2) by (simp add: L_def)
  have q: "q = q div L * L + q mod L" by simp
  have "q < c * L + (s - 1)"
  proof (cases "s > stripe_at n h")
    case True
    then have "c * L = q div L * L" by (simp add: c_def)
    then show ?thesis using q r True by linarith
  next
    case False
    then have "c * L = q div L * L + L" by (simp add: c_def algebra_simps)
    moreover have "q mod L < L" using L by simp
    ultimately show ?thesis using q by linarith
  qed
  then show "h \<le> next_start n s h" unfolding start q_def by (simp add: div_less_iff_less_mult)
  show "stripe_at n (next_start n s h) = s"
  proof -
    have "(c * L + (s - 1)) mod L = s - 1" using s by (subst mod_mult_self3) simp
    then show ?thesis using assms(1) unfolding start stripe_at_def L_def [symmetric] by simp
  qed
  show "stripe_at n k \<noteq> s" if "h \<le> k" "k < next_start n s h"
  proof
    assume k: "stripe_at n k = s"
    define p where "p = k div 4096"
    have p: "q \<le> p" "p < c * L + (s - 1)" "p mod L = s - 1"
      using that k by (auto simp: p_def q_def start stripe_at_def L_def div_le_mono div_less_iff_less_mult)
    have pd: "p = p div L * L + (s - 1)" using p(3) by (metis div_mult_mod_eq)
    then have "p div L < c" using p(2) L by (metis add_less_cancel_right mult_less_cancel2)
    moreover have "q div L \<le> p div L" using p(1) by (rule div_le_mono)
    ultimately have "\<not> s > stripe_at n h" and eq: "p div L = q div L" by (auto simp: c_def split: if_splits)
    then have "s - 1 \<le> q mod L" using r by simp
    moreover have "q mod L \<le> s - 1"
      using p(1) eq pd q by (metis add_le_cancel_left)
    ultimately show False using r assms(1,3) by simp
  qed
qed

section \<open>The next heights\<close>

lemma next_start_bound:
  assumes "n \<le> 7" and "s \<le> 2 ^ n" and "h \<le> 500000001"
  shows "next_start n s h \<le> 502000000"
proof -
  define L where "L = (2 :: nat) ^ n"
  have L: "L \<le> 128" using power_increasing [OF assms(1), of "2 :: nat"] by (simp add: L_def)
  have "h div 4096 div L * (4096 * L) \<le> h"
    by (metis div_mult2_eq div_times_less_eq_dividend)
  moreover have "(s - 1) * 4096 \<le> 127 * 4096" using assms(2) L by (intro mult_le_mono1) (simp flip: L_def)
  moreover have "next_start n s h \<le> (h div 4096 div L + 1) * (4096 * L) + (s - 1) * 4096"
    by (simp add: next_start_def L_def)
  moreover have "(h div 4096 div L + 1) * (4096 * L) = h div 4096 div L * (4096 * L) + 4096 * L"
    by (simp add: algebra_simps)
  ultimately show ?thesis using L assms(3) by linarith
qed

lemma next_start_word:
  assumes "n \<le> 7" and "1 \<le> unat (s :: u32)" and "unat s \<le> 2 ^ n" and "unat h \<le> 500000001"
    and "c = drop_bit n (h div 4096) + (if s > ucast ((h div 4096 AND (push_bit n 1 - 1)) + 1) then 0 else 1)"
  shows "unat (c * ucast (push_bit n (ucast (4096 :: u64)) :: u32) + ucast ((s - 1) * ucast (4096 :: u64)) :: u64)
    = next_start n (unat s) (unat h)"
proof -
  have p: "(2 :: nat) ^ n \<le> 128" using power_increasing [OF assms(1), of "2 :: nat"] by simp
  have sz: "unat (ucast (push_bit n (ucast (4096 :: u64)) :: u32) :: u64) = 4096 * 2 ^ n"
    using p by (simp add: unsigned_ucast_eq take_bit_nat_eq_self unat_push_bit)
  have s1: "unat (s - 1) = unat s - 1" using assms(2) by (simp add: unat_sub word_le_nat_alt)
  then have "unat ((s - 1) * 4096) = (unat s - 1) * 4096"
    using unat_mult_nowrap [of "s - 1" 4096] assms(3) p by simp
  then have s2: "unat (ucast ((s - 1) * ucast (4096 :: u64)) :: u64) = (unat s - 1) * 4096"
    using assms(3) p by (simp add: unsigned_ucast_eq take_bit_nat_eq_self)
  define d where "d = (if unat s > stripe_at n (unat h) then 0 else 1 :: nat)"
  have "unat (drop_bit n (h div 4096)) = unat h div 4096 div 2 ^ n"
    by (simp add: unat_drop_bit unat_div_4096)
  moreover have "unat h div 4096 div 2 ^ n \<le> unat h"
    by (metis div_le_dividend le_trans)
  ultimately have c: "unat c = unat h div 4096 div 2 ^ n + d"
    using unat_add_nowrap [of "drop_bit n (h div 4096)" 1] assms(4) stripe_word [OF assms(1), of h]
    by (simp add: assms(5) d_def word_less_nat_alt)
  have val: "next_start n (unat s) (unat h) = unat c * (4096 * 2 ^ n) + (unat s - 1) * 4096"
    by (simp add: next_start_def c d_def)
  note b = next_start_bound [OF assms(1,3,4), unfolded val]
  have "unat (c * ucast (push_bit n (ucast (4096 :: u64)) :: u32)) = unat c * (4096 * 2 ^ n)"
    using unat_mult_nowrap [of c "ucast (push_bit n (ucast (4096 :: u64)) :: u32)"] b sz by simp
  then show ?thesis
    using unat_add_nowrap [of "c * ucast (push_bit n (ucast (4096 :: u64)) :: u32)" "ucast ((s - 1) * ucast (4096 :: u64))"] b s2 val by simp
qed

lemma next_unpruned_cases:
  assumes "make_pruning_seed stripe log_stripes = Some seed" and "log_stripes \<noteq> 0"
    and "unat h \<le> 500000001" and "unat bh \<le> 500000001"
  shows "unat (get_next_unpruned_block_height h bh seed) =
    (let n = unat log_stripes
     in if unat bh \<le> unat h + 5500 \<or> stripe_at n (unat h) = unat stripe then unat h
        else min (next_start n (unat stripe) (unat h)) (unat bh - 5500))"
proof -
  define n where "n = unat log_stripes"
  note parts = make_pruning_seed_parts [OF assms(1,2), folded n_def]
  have ls: "unat (ucast log_stripes :: u64) = n" by (simp add: n_def unsigned_ucast_eq take_bit_nat_eq_self)
  have st: "stripe \<noteq> 0" using parts(3) by auto
  have max: "h \<le> 500000000 + 1" "bh \<le> 500000000 + 1" using assms(3,4) by (simp_all add: word_le_nat_alt)
  have tip: "bh \<le> h + 5500 \<longleftrightarrow> unat bh \<le> unat h + 5500"
    using unat_add_nowrap [of h 5500] assms(3) by (simp add: word_le_nat_alt)
  define b where "b = (ucast ((h div 4096 AND (push_bit n 1 - 1)) + 1 :: u64) :: u32)"
  have b: "b = stripe \<longleftrightarrow> stripe_at n (unat h) = unat stripe"
    using stripe_word [OF parts(5), of h] by (simp add: b_def word_unat_eq_iff)
  define c where "c = drop_bit n (h div 4096) + (if stripe > b then 0 else 1)"
  define x where "x = (c * ucast (push_bit n (ucast (4096 :: u64)) :: u32) + ucast ((stripe - 1) * ucast (4096 :: u64)) :: u64)"
  have x: "unat x = next_start n (unat stripe) (unat h)"
    unfolding x_def using next_start_word [OF parts(5,3,4) assms(3) c_def [unfolded b_def]] .
  have xb: "unat x \<le> 502000000" unfolding x using parts(4,5) assms(3) by (intro next_start_bound)
  then have xt: "x + 5500 > bh \<longleftrightarrow> unat x + 5500 > unat bh"
    using unat_add_nowrap [of x 5500] by (simp add: word_less_nat_alt)
  have unfolded: "get_next_unpruned_block_height h bh seed =
    (if bh \<le> h + 5500 then h else if b = stripe then h
     else if x + 5500 > bh then (if bh < 5500 then 0 else bh - 5500) else if \<not> x \<ge> h then h else x)"
    by (simp only: get_next_unpruned_block_height_def Let_def pruning_constants parts(1,2) assms(2) st max ls
        b_def c_def x_def simp_thms if_True if_False)
  show ?thesis
  proof (cases "bh \<le> h + 5500 \<or> b = stripe")
    case True
    then show ?thesis using tip b by (auto simp: unfolded n_def Let_def)
  next
    case False
    then have ge: "unat h \<le> unat x"
      using next_start_spec(1) [OF parts(3,4), of "unat h"] b x by simp
    have "\<not> bh < 5500" "unat (bh - 5500) = unat bh - 5500"
      using False tip by (simp_all add: word_less_nat_alt unat_sub word_le_nat_alt)
    then show ?thesis
      using False ge tip b xt x by (auto simp: unfolded n_def [symmetric] Let_def word_le_nat_alt min_def)
  qed
qed

text \<open>
  C25. For every seed of two or more stripes and heights up to the maximal block number, the next unpruned height is the
  least height from the given one on whose block a node with that seed keeps: the block there is kept, and no block
  between is.
\<close>
theorem next_unpruned_least:
  assumes "make_pruning_seed stripe log_stripes = Some seed" and "log_stripes \<noteq> 0"
    and "h \<le> CRYPTONOTE_MAX_BLOCK_NUMBER + 1" and "bh \<le> CRYPTONOTE_MAX_BLOCK_NUMBER + 1"
  shows "h \<le> get_next_unpruned_block_height h bh seed
    \<and> has_unpruned_block (get_next_unpruned_block_height h bh seed) bh seed
    \<and> (\<forall>k. h \<le> k \<and> k < get_next_unpruned_block_height h bh seed \<longrightarrow> \<not> has_unpruned_block k bh seed)"
proof -
  define n where "n = unat log_stripes"
  note parts = make_pruning_seed_parts [OF assms(1,2), folded n_def]
  have max: "unat h \<le> 500000001" "unat bh \<le> 500000001"
    using assms(3,4) by (simp_all add: word_le_nat_alt CRYPTONOTE_MAX_BLOCK_NUMBER_def)
  define y where "y = get_next_unpruned_block_height h bh seed"
  note y = next_unpruned_cases [OF assms(1,2) max, folded n_def y_def, unfolded Let_def]
  note kept = has_unpruned_block_iff [OF assms(1,2), folded n_def]
  have bound: "next_start n (unat stripe) (unat h) \<le> 502000000"
    using parts(4,5) max(1) by (intro next_start_bound)
  have yb: "unat y \<le> 502000000" unfolding y using bound max by auto
  show ?thesis
    unfolding y_def [symmetric]
  proof (cases "unat bh \<le> unat h + 5500 \<or> stripe_at n (unat h) = unat stripe")
    case True
    then have "y = h" using y by (simp add: word_unat_eq_iff)
    then show "h \<le> y \<and> has_unpruned_block y bh seed \<and> (\<forall>k. h \<le> k \<and> k < y \<longrightarrow> \<not> has_unpruned_block k bh seed)"
      using True kept [of h bh] max by auto
  next
    case False
    then have yv: "unat y = min (next_start n (unat stripe) (unat h)) (unat bh - 5500)" using y by simp
    note ns = next_start_spec [OF parts(3,4), of "unat h"]
    have "unat h \<le> unat bh - 5500" using False by linarith
    then have "unat h \<le> unat y" using yv ns(1) False by simp
    moreover have "has_unpruned_block y bh seed"
      using kept [of y bh] yb yv ns(2) False by (auto simp: min_def split: if_splits)
    moreover have "\<not> has_unpruned_block k bh seed" if "h \<le> k" "k < y" for k
    proof -
      have k: "unat h \<le> unat k" "unat k < unat y" using that by (simp_all add: word_le_nat_alt word_less_nat_alt)
      then have "stripe_at n (unat k) \<noteq> unat stripe" using ns(3) [of "unat k"] yv False by simp
      moreover have "\<not> unat bh \<le> unat k + 5500" using k(2) yv by linarith
      ultimately show ?thesis using kept [of k bh] k(2) yb by simp
    qed
    ultimately show "h \<le> y \<and> has_unpruned_block y bh seed \<and> (\<forall>k. h \<le> k \<and> k < y \<longrightarrow> \<not> has_unpruned_block k bh seed)"
      by (auto simp: word_le_nat_alt)
  qed
qed

theorem next_unpruned_least_witness:
  "has_unpruned_block (get_next_unpruned_block_height 100 100000 386) 100000 386"
  using next_unpruned_least [of 3 3 386 100 100000]
  by (simp add: make_pruning_seed_def PRUNING_SEED_LOG_STRIPES_MASK_def PRUNING_SEED_LOG_STRIPES_SHIFT_def
      PRUNING_SEED_STRIPE_SHIFT_def CRYPTONOTE_MAX_BLOCK_NUMBER_def)

text \<open>The next pruned height of a node that keeps the given block is the end of the run of its stripe, or the tip.\<close>

lemma next_start_end_of_run:
  assumes "n \<noteq> 0" and "s' = stripe_at n h mod 2 ^ n + 1"
  shows "next_start n s' h = (h div 4096 + 1) * 4096" and "s' \<noteq> stripe_at n h"
proof -
  define L where "L = (2 :: nat) ^ n"
  have L: "2 \<le> L" using assms(1) self_le_power [of 2 n] by (simp add: L_def)
  define q where "q = h div 4096"
  have r: "stripe_at n h = q mod L + 1" by (simp add: stripe_at_def q_def L_def)
  have q: "q div L * L + q mod L = q" by simp
  have lt: "q mod L < L" using L by simp
  consider (last) "q mod L + 1 = L" "s' = 1" | (inner) "q mod L + 1 < L" "s' = q mod L + 2"
    using assms(2) r lt by (cases "q mod L + 1 = L") (auto simp: L_def [symmetric])
  then have "(q div L + (if s' > q mod L + 1 then 0 else 1)) * L + (s' - 1) = q + 1 \<and> s' \<noteq> q mod L + 1"
  proof cases
    case last
    then have "\<not> s' > q mod L + 1" "s' \<noteq> q mod L + 1" using L by auto
    moreover have "q div L * L + L = q + 1" using q last(1) by linarith
    then have "(q div L + 1) * L = q + 1" by (simp add: algebra_simps)
    ultimately show ?thesis using last(2) by simp
  next
    case inner
    then show ?thesis using q by simp
  qed
  moreover have "next_start n s' h = ((q div L + (if s' > q mod L + 1 then 0 else 1)) * L + (s' - 1)) * 4096"
    by (simp add: next_start_def r q_def [symmetric] L_def [symmetric] algebra_simps)
  ultimately show "next_start n s' h = (h div 4096 + 1) * 4096" "s' \<noteq> stripe_at n h"
    by (simp_all add: r q_def)
qed

lemma next_pruned_first:
  assumes "make_pruning_seed stripe log_stripes = Some seed" and "log_stripes \<noteq> 0"
    and "h \<le> bh" and "bh \<le> CRYPTONOTE_MAX_BLOCK_NUMBER + 1"
  obtains y where "get_next_pruned_block_height h bh seed = Some y" and "h \<le> y"
    and "\<And>k. h \<le> k \<Longrightarrow> k < y \<Longrightarrow> has_unpruned_block k bh seed"
    and "\<not> has_unpruned_block y bh seed \<or> unat bh \<le> unat y + 5500"
proof -
  define n where "n = unat log_stripes"
  note parts = make_pruning_seed_parts [OF assms(1,2), folded n_def]
  have n0: "n \<noteq> 0" using assms(2) by (simp add: n_def unat_eq_zero)
  have max: "unat h \<le> 500000001" "unat bh \<le> 500000001" "unat h \<le> unat bh"
    using assms(3,4) by (auto simp: word_le_nat_alt CRYPTONOTE_MAX_BLOCK_NUMBER_def)
  have ls: "unat (ucast log_stripes :: u64) = n" "(ucast (ucast log_stripes :: u64) :: u32) = log_stripes"
    by (simp_all add: n_def unsigned_ucast_eq take_bit_nat_eq_self) (rule bit_word_eqI, simp add: bit_simps)
  have st: "stripe \<noteq> 0" using parts(3) by auto
  note kept = has_unpruned_block_iff [OF assms(1,2), folded n_def]
  have tip: "bh \<le> h + 5500 \<longleftrightarrow> unat bh \<le> unat h + 5500"
    using unat_add_nowrap [of h 5500] max by (simp add: word_le_nat_alt)
  define b where "b = (ucast ((h div 4096 AND (push_bit n 1 - 1)) + 1 :: u64) :: u32)"
  have b: "unat b = stripe_at n (unat h)"
    using stripe_word [OF parts(5), of h] by (simp add: b_def)
  define s' where "s' = (ucast (1 + (ucast b AND (push_bit n 1 - 1)) :: u64) :: u32)"
  have unfolded: "get_next_pruned_block_height h bh seed =
    (if bh \<le> h + 5500 then Some bh else if b \<noteq> stripe then Some h
     else do { sd \<leftarrow> make_pruning_seed s' log_stripes; Some (get_next_unpruned_block_height h bh sd) })"
    by (simp only: get_next_pruned_block_height_def Let_def pruning_constants parts(1,2) assms(2) st ls
        b_def s'_def simp_thms if_True if_False)
  consider (tip) "bh \<le> h + 5500" | (pruned) "\<not> bh \<le> h + 5500" "b \<noteq> stripe" | (mine) "\<not> bh \<le> h + 5500" "b = stripe" by blast
  then show ?thesis
  proof cases
    case tip
    have "has_unpruned_block k bh seed" if "h \<le> k" "k < bh" for k
      using kept [of k bh] that tip \<open>bh \<le> h + 5500 \<longleftrightarrow> _\<close> max by (simp add: word_le_nat_alt word_less_nat_alt)
    then show ?thesis using that [of bh] unfolded tip assms(3) by simp
  next
    case pruned
    then have "\<not> has_unpruned_block h bh seed" using kept [of h bh] tip b max by (auto simp: word_unat_eq_iff)
    then show ?thesis using that [of h] unfolded pruned by (auto simp: not_less [symmetric])
  next
    case mine
    have m: "(push_bit n 1 - 1 :: u64) = mask n" by (simp add: mask_eq_exp_minus_1 push_bit_eq_mult)
    have L: "(2 :: nat) ^ n \<le> 128" using power_increasing [OF parts(5), of "2 :: nat"] by simp
    moreover have "unat b mod 2 ^ n < 2 ^ n" by simp
    ultimately have small: "unat b mod 2 ^ n < 128" by linarith
    have "unat (ucast b AND mask n :: u64) = unat b mod 2 ^ n"
      by (simp add: unat_and_mask unsigned_ucast_eq take_bit_nat_eq_self)
    then have "unat (1 + (ucast b AND mask n) :: u64) = unat b mod 2 ^ n + 1"
      using unat_add_nowrap [of 1 "ucast b AND mask n :: u64"] small by simp
    then have s': "unat s' = stripe_at n (unat h) mod 2 ^ n + 1"
      using small unfolding s'_def m by (simp add: unsigned_ucast_eq take_bit_nat_eq_self b)
    note run = next_start_end_of_run [OF n0 s']
    have "unat s' \<le> 2 ^ n" using s' by (simp add: Suc_leI)
    moreover have "unat (push_bit n 1 :: u64) = 2 ^ n" by (subst unat_push_bit) (use L in simp_all)
    ultimately obtain sd where sd: "make_pruning_seed s' log_stripes = Some sd"
      using parts(5) s' L unfolding make_pruning_seed_def PRUNING_SEED_LOG_STRIPES_MASK_def n_def
      by (auto simp: word_le_nat_alt word_less_nat_alt unsigned_ucast_eq take_bit_nat_eq_self)
    define y where "y = get_next_unpruned_block_height h bh sd"
    have y: "unat y = min ((unat h div 4096 + 1) * 4096) (unat bh - 5500)"
      using next_unpruned_cases [OF sd assms(2) max(1,2), folded n_def y_def] mine tip run by (simp add: Let_def)
    have hy: "unat h \<le> unat y" unfolding y using mine tip by auto
    have k: "has_unpruned_block k bh seed" if "h \<le> k" "k < y" for k
    proof -
      have "unat h \<le> unat k" "unat k < (unat h div 4096 + 1) * 4096"
        using that y by (simp_all add: word_le_nat_alt word_less_nat_alt)
      then have "unat k div 4096 = unat h div 4096"
        using div_le_mono [of "unat h" "unat k" 4096] div_less_iff_less_mult [of 4096 "unat k" "unat h div 4096 + 1"] by simp
      then show ?thesis using kept [of k bh] that y b mine max by (simp add: stripe_at_def word_less_nat_alt)
    qed
    have "\<not> has_unpruned_block y bh seed \<or> unat bh \<le> unat y + 5500"
    proof (cases "unat bh \<le> unat y + 5500")
      case False
      then have "unat y = next_start n (unat s') (unat h)" using y run by (auto simp: min_def split: if_splits)
      then have "stripe_at n (unat y) \<noteq> unat stripe"
        using next_start_spec(2) [of "unat s'" n "unat h"] s' run b mine \<open>unat s' \<le> 2 ^ n\<close> by simp
      moreover have "unat y + 5500 < 2 ^ 64" using False max(2) by simp
      ultimately show ?thesis using kept [of y bh] False by simp
    qed simp
    then show ?thesis
      using that [of y] unfolded mine sd k hy by (simp add: y_def word_le_nat_alt)
  qed
qed

end
