(* ===== verification/BlockQueue.thy ===== *)
theory BlockQueue
  imports Pruning
begin

text \<open>
  The queue of blocks to download (cryptonote_protocol/block_queue.cpp): spans of consecutive heights, each
  requested from one connection and filled when its blocks arrive. The \<open>std::set\<close> of spans is a list in the
  order of the start heights, which are its keys; the sets of hashes are sets represented by lists. Rates are
  floating point numbers and only used by the speed statistics; they and the log are left out.
\<close>

section \<open>The code\<close>

type_synonym uuid = bytes
type_synonym ptime = int

record block_complete_entry =
  entry_block :: bytes
  entry_txs :: "bytes list"

record span =
  start_block_height :: u64
  span_hashes :: "crypto_hash list"
  span_blocks :: "block_complete_entry list"
  connection_id :: uuid
  nblocks :: u64
  span_size :: u64
  span_time :: ptime

record block_queue =
  blocks :: "span list"
  requested_hashes :: "crypto_hash list"
  have_blocks :: "crypto_hash list"

definition filled_span :: "u64 \<Rightarrow> block_complete_entry list \<Rightarrow> uuid \<Rightarrow> u64 \<Rightarrow> span" where
  "filled_span height bcel conn sz =
     \<lparr>start_block_height = height, span_hashes = [], span_blocks = bcel, connection_id = conn,
      nblocks = of_nat (length bcel), span_size = sz, span_time = 0\<rparr>"

definition scheduled_span :: "u64 \<Rightarrow> u64 \<Rightarrow> uuid \<Rightarrow> ptime \<Rightarrow> span" where
  "scheduled_span height n conn time =
     \<lparr>start_block_height = height, span_hashes = [], span_blocks = [], connection_id = conn,
      nblocks = n, span_size = 0, span_time = time\<rparr>"

text \<open>\<open>std::set::insert\<close>, which keeps an element that is already there, and \<open>erase\<close> of an iterator.\<close>

fun insert_span :: "span \<Rightarrow> span list \<Rightarrow> span list" where
  "insert_span s [] = [s]"
| "insert_span s (t # ts) =
     (if start_block_height s < start_block_height t then s # t # ts
      else if start_block_height s = start_block_height t then t # ts
      else t # insert_span s ts)"

definition erase_block :: "span \<Rightarrow> block_queue \<Rightarrow> block_queue" where
  "erase_block j q =
     q\<lparr>requested_hashes := fold removeAll (span_hashes j) (requested_hashes q),
       have_blocks := fold removeAll (span_hashes j) (have_blocks q),
       blocks := filter (\<lambda>s. start_block_height s \<noteq> start_block_height j) (blocks q)\<rparr>"

text \<open>\<^const>\<open>None\<close> is the exception for an empty span.\<close>

definition add_scheduled :: "u64 \<Rightarrow> u64 \<Rightarrow> uuid \<Rightarrow> ptime \<Rightarrow> block_queue \<Rightarrow> block_queue option" where
  "add_scheduled height n conn time q =
     (if \<not> n > 0 then None
      else Some (q\<lparr>blocks := insert_span (scheduled_span height n conn time) (blocks q)\<rparr>))"

text \<open>The first loop erases every span of the connection, or only the ones that are not filled.\<close>

definition flush_spans :: "uuid \<Rightarrow> bool \<Rightarrow> block_queue \<Rightarrow> block_queue" where
  "flush_spans conn all q =
     fold (\<lambda>j q. if connection_id j = conn \<and> (all \<or> span_blocks j = []) then erase_block j q else q) (blocks q) q"

definition flush_stale_spans :: "uuid list \<Rightarrow> block_queue \<Rightarrow> block_queue" where
  "flush_stale_spans live_connections q =
     fold (\<lambda>j q. if span_blocks j = [] \<and> connection_id j \<notin> set live_connections then erase_block j q else q) (blocks q) q"

definition remove_span :: "u64 \<Rightarrow> block_queue \<Rightarrow> crypto_hash list option \<times> block_queue" where
  "remove_span height q =
     (case find (\<lambda>s. start_block_height s = height) (blocks q) of
        None \<Rightarrow> (None, q)
      | Some i \<Rightarrow> (Some (span_hashes i), erase_block i q))"

definition remove_spans :: "uuid \<Rightarrow> u64 \<Rightarrow> block_queue \<Rightarrow> block_queue" where
  "remove_spans conn height q =
     fold (\<lambda>j q. if connection_id j = conn \<and> start_block_height j \<le> height then erase_block j q else q) (blocks q) q"

definition set_span_hashes :: "u64 \<Rightarrow> uuid \<Rightarrow> crypto_hash list \<Rightarrow> block_queue \<Rightarrow> block_queue" where
  "set_span_hashes start_height conn hashes q =
     (case find (\<lambda>s. start_block_height s = start_height \<and> connection_id s = conn) (blocks q) of
        None \<Rightarrow> q
      | Some i \<Rightarrow>
          let q = erase_block i q
          in q\<lparr>requested_hashes := fold List.insert hashes (requested_hashes q),
               blocks := insert_span (i\<lparr>span_hashes := hashes\<rparr>) (blocks q)\<rparr>)"

definition add_filled :: "u64 \<Rightarrow> block_complete_entry list \<Rightarrow> uuid \<Rightarrow> u64 \<Rightarrow> block_queue \<Rightarrow> block_queue" where
  "add_filled height bcel conn sz q =
     (let (removed, q) = remove_span height q;
          q = q\<lparr>blocks := insert_span (filled_span height bcel conn sz) (blocks q)\<rparr>
      in case removed of
           None \<Rightarrow> q
         | Some hashes \<Rightarrow>
             set_span_hashes height conn hashes
               (q\<lparr>requested_hashes := fold List.insert hashes (requested_hashes q),
                  have_blocks := fold List.insert hashes (have_blocks q)\<rparr>))"

definition get_max_block_height :: "block_queue \<Rightarrow> u64" where
  "get_max_block_height q =
     fold (\<lambda>s height. let h = start_block_height s + nblocks s - 1 in if h > height then h else height) (blocks q) 0"

fun needed_loop :: "u64 \<Rightarrow> bool \<Rightarrow> u64 \<Rightarrow> span list \<Rightarrow> u64" where
  "needed_loop blockchain_height first last_needed_height [] = last_needed_height"
| "needed_loop blockchain_height first last_needed_height (s # rest) =
     (if start_block_height s + nblocks s - 1 < blockchain_height
      then needed_loop blockchain_height first last_needed_height rest
      else if start_block_height s \<noteq> last_needed_height \<or> (first \<and> span_blocks s = []) then last_needed_height
      else needed_loop blockchain_height False (start_block_height s + nblocks s) rest)"

definition get_next_needed_height :: "u64 \<Rightarrow> block_queue \<Rightarrow> u64" where
  "get_next_needed_height blockchain_height q =
     (if blocks q = [] then blockchain_height else needed_loop blockchain_height True blockchain_height (blocks q))"

definition requested :: "crypto_hash \<Rightarrow> block_queue \<Rightarrow> bool" where
  "requested hash q \<longleftrightarrow> hash \<in> set (requested_hashes q)"

definition have_block :: "crypto_hash \<Rightarrow> block_queue \<Rightarrow> bool" where
  "have_block hash q \<longleftrightarrow> hash \<in> set (have_blocks q)"

text \<open>The iterators are the hashes that are left.\<close>

fun skip_requested :: "block_queue \<Rightarrow> crypto_hash list \<Rightarrow> u64 \<Rightarrow> crypto_hash list \<times> u64" where
  "skip_requested q [] height = ([], height)"
| "skip_requested q (h # hs) height = (if requested h q then skip_requested q hs (height + 1) else (h # hs, height))"

fun take_span :: "u64 \<Rightarrow> u64 \<Rightarrow> u64 \<Rightarrow> u32 \<Rightarrow> crypto_hash list \<Rightarrow> u64 \<Rightarrow> crypto_hash list" where
  "take_span max_blocks blockchain_height span_start_height pruning_seed [] span_length = []"
| "take_span max_blocks blockchain_height span_start_height pruning_seed (h # hs) span_length =
     (if span_length < max_blocks \<and> has_unpruned_block (span_start_height + span_length) blockchain_height pruning_seed
      then h # take_span max_blocks blockchain_height span_start_height pruning_seed hs (span_length + 1)
      else [])"

definition reserve_span ::
  "u64 \<Rightarrow> u64 \<Rightarrow> u64 \<Rightarrow> uuid \<Rightarrow> u32 \<Rightarrow> u64 \<Rightarrow> crypto_hash list \<Rightarrow> ptime \<Rightarrow> block_queue \<Rightarrow> ((u64 \<times> u64) \<times> block_queue) option" where
  "reserve_span first_block_height last_block_height max_blocks conn pruning_seed blockchain_height block_hashes time q =
     (if last_block_height < first_block_height \<or> max_blocks = 0 then Some ((0, 0), q)
      else if of_nat (length block_hashes) > last_block_height then Some ((0, 0), q)
      else do {
        let block_hashes_start_height = last_block_height - of_nat (length block_hashes) + 1;
        let (_, span_start_height) = skip_requested q block_hashes block_hashes_start_height;
        let next_unpruned_height =
          (ucast (get_next_unpruned_block_height span_start_height blockchain_height pruning_seed) :: u32);
        let span_start_height =
          (if ucast next_unpruned_height > span_start_height
              \<and> ucast next_unpruned_height < span_start_height + CRYPTONOTE_PRUNING_STRIPE_SIZE
           then ucast next_unpruned_height else span_start_height);
        if span_start_height \<ge> of_nat (length block_hashes) + block_hashes_start_height then Some ((0, 0), q)
        else do {
          let (i, span_start_height) =
            skip_requested q (drop (unat (span_start_height - block_hashes_start_height)) block_hashes) span_start_height;
          let hashes = take_span max_blocks blockchain_height span_start_height pruning_seed i 0;
          let span_length = of_nat (length hashes);
          if span_length = 0 then Some ((0, 0), q)
          else do {
            q \<leftarrow> add_scheduled span_start_height span_length conn time q;
            Some ((span_start_height, span_length), set_span_hashes span_start_height conn hashes q)
          }
        }
      })"

text \<open>The outputs of a query that are only set when it succeeds are in an option.\<close>

definition get_next_span_if_scheduled :: "block_queue \<Rightarrow> (u64 \<times> u64) \<times> (crypto_hash list \<times> uuid \<times> ptime) option" where
  "get_next_span_if_scheduled q =
     (case blocks q of
        [] \<Rightarrow> ((0, 0), None)
      | i # _ \<Rightarrow>
          if span_blocks i \<noteq> [] then ((0, 0), None)
          else ((start_block_height i, nblocks i), Some (span_hashes i, connection_id i, span_time i)))"

definition reset_next_span_time :: "ptime \<Rightarrow> block_queue \<Rightarrow> block_queue option" where
  "reset_next_span_time t q =
     (case blocks q of
        [] \<Rightarrow> None
      | i # rest \<Rightarrow> if span_blocks i \<noteq> [] then None else Some (q\<lparr>blocks := i\<lparr>span_time := t\<rparr> # rest\<rparr>))"

definition get_next_span :: "bool \<Rightarrow> block_queue \<Rightarrow> (u64 \<times> block_complete_entry list \<times> uuid) option" where
  "get_next_span filled q =
     map_option (\<lambda>i. (start_block_height i, span_blocks i, connection_id i))
       (find (\<lambda>i. \<not> filled \<or> span_blocks i \<noteq> []) (blocks q))"

definition has_next_span_of :: "uuid \<Rightarrow> block_queue \<Rightarrow> (bool \<times> ptime) option" where
  "has_next_span_of conn q =
     (case blocks q of
        [] \<Rightarrow> None
      | i # _ \<Rightarrow> if connection_id i \<noteq> conn then None else Some (span_blocks i \<noteq> [], span_time i))"

definition has_next_span :: "u64 \<Rightarrow> block_queue \<Rightarrow> (bool \<times> ptime \<times> uuid) option" where
  "has_next_span height q =
     (case blocks q of
        [] \<Rightarrow> None
      | i # _ \<Rightarrow> if start_block_height i > height then None else Some (span_blocks i \<noteq> [], span_time i, connection_id i))"

definition get_data_size :: "block_queue \<Rightarrow> u64" where
  "get_data_size q = fold (\<lambda>s sz. sz + span_size s) (blocks q) 0"

definition get_num_filled_spans_prefix :: "block_queue \<Rightarrow> nat" where
  "get_num_filled_spans_prefix q = length (takeWhile (\<lambda>s. span_blocks s \<noteq> []) (blocks q))"

definition get_num_filled_spans :: "block_queue \<Rightarrow> nat" where
  "get_num_filled_spans q = length (filter (\<lambda>s. span_blocks s \<noteq> []) (blocks q))"

text \<open>\<^const>\<open>None\<close> is the last element of an empty vector, when a span without blocks has no hashes either.\<close>

fun last_known_loop :: "uuid \<Rightarrow> span list \<Rightarrow> crypto_hash \<Rightarrow> u64 \<Rightarrow> crypto_hash option" where
  "last_known_loop conn [] hash highest_height = Some hash"
| "last_known_loop conn (s # rest) hash highest_height =
     (let h = start_block_height s + nblocks s - 1
      in if connection_id s \<noteq> conn then last_known_loop conn rest hash highest_height
         else if h > highest_height \<and> of_nat (length (span_hashes s)) = nblocks s then
           (if span_hashes s = [] then None else last_known_loop conn rest (last (span_hashes s)) h)
         else last_known_loop conn rest hash highest_height)"

definition get_last_known_hash :: "uuid \<Rightarrow> block_queue \<Rightarrow> crypto_hash option" where
  "get_last_known_hash conn q = last_known_loop conn (blocks q) (replicate 32 0) 0"

definition has_spans :: "uuid \<Rightarrow> block_queue \<Rightarrow> bool" where
  "has_spans conn q = list_ex (\<lambda>s. connection_id s = conn) (blocks q)"

text \<open>The calls that change the queue; a call that throws leaves it as it is.\<close>

datatype queue_op =
    Add_filled u64 "block_complete_entry list" uuid u64
  | Add_scheduled u64 u64 uuid ptime
  | Flush_spans uuid bool
  | Flush_stale_spans "uuid list"
  | Remove_span u64
  | Remove_spans uuid u64
  | Reserve_span u64 u64 u64 uuid u32 u64 "crypto_hash list" ptime
  | Reset_next_span_time ptime
  | Set_span_hashes u64 uuid "crypto_hash list"

definition empty_queue :: block_queue where
  "empty_queue = \<lparr>blocks = [], requested_hashes = [], have_blocks = []\<rparr>"

fun queue_call :: "queue_op \<Rightarrow> block_queue \<Rightarrow> block_queue" where
  "queue_call (Add_filled height bcel conn sz) q = add_filled height bcel conn sz q"
| "queue_call (Add_scheduled height n conn time) q = (case add_scheduled height n conn time q of None \<Rightarrow> q | Some q \<Rightarrow> q)"
| "queue_call (Flush_spans conn all) q = flush_spans conn all q"
| "queue_call (Flush_stale_spans live) q = flush_stale_spans live q"
| "queue_call (Remove_span height) q = snd (remove_span height q)"
| "queue_call (Remove_spans conn height) q = remove_spans conn height q"
| "queue_call (Reserve_span first last_height mx conn seed bh hashes time) q =
     (case reserve_span first last_height mx conn seed bh hashes time q of None \<Rightarrow> q | Some (_, q) \<Rightarrow> q)"
| "queue_call (Reset_next_span_time t) q = (case reset_next_span_time t q of None \<Rightarrow> q | Some q \<Rightarrow> q)"
| "queue_call (Set_span_hashes height conn hashes) q = set_span_hashes height conn hashes q"

section \<open>The invariant\<close>

definition spans_ordered :: "span list \<Rightarrow> bool" where
  "spans_ordered ss = sorted_wrt (<) (map start_block_height ss)"

abbreviation known_hashes :: "span list \<Rightarrow> crypto_hash set" where
  "known_hashes ss \<equiv> \<Union> (set ` span_hashes ` set ss)"

definition queue_ok :: "block_queue \<Rightarrow> bool" where
  "queue_ok q \<longleftrightarrow> spans_ordered (blocks q) \<and> set (requested_hashes q) \<subseteq> known_hashes (blocks q)
     \<and> set (have_blocks q) \<subseteq> set (requested_hashes q)"

lemma set_fold_removeAll [simp]: "set (fold removeAll xs ys) = set ys - set xs"
  by (induction xs arbitrary: ys) auto

lemma set_fold_insert [simp]: "set (fold List.insert xs ys) = set xs \<union> set ys"
  by (induction xs arbitrary: ys) auto

lemma set_insert_span:
  "set (insert_span s ss) = (if start_block_height s \<in> start_block_height ` set ss then set ss else insert s (set ss))"
  if "spans_ordered ss"
  using that by (induction s ss rule: insert_span.induct) (auto simp: spans_ordered_def)

lemma insert_span_ordered: "spans_ordered ss \<Longrightarrow> spans_ordered (insert_span s ss)"
proof (induction s ss rule: insert_span.induct)
  case (2 s t ts)
  have "\<forall>x \<in> set (insert_span s ts). start_block_height t < start_block_height x"
    if "start_block_height t < start_block_height s"
    using that 2 by (auto simp: set_insert_span spans_ordered_def split: if_splits)
  then show ?case using 2 by (fastforce simp: spans_ordered_def)
qed (simp add: spans_ordered_def)

lemma filter_ordered: "spans_ordered ss \<Longrightarrow> spans_ordered (filter P ss)"
  unfolding spans_ordered_def by (induction ss) auto

lemma ordered_unique:
  assumes "spans_ordered ss" and "s \<in> set ss" and "t \<in> set ss" and "start_block_height s = start_block_height t"
  shows "s = t"
proof -
  have "distinct (map start_block_height ss)"
    using assms(1) strict_sorted_iff unfolding spans_ordered_def by blast
  then show ?thesis using assms(2-) by (simp add: distinct_map inj_on_def)
qed

lemma erase_block_ok:
  assumes "queue_ok q" and "j \<in> set (blocks q)"
  shows "queue_ok (erase_block j q)"
proof -
  have "set (requested_hashes q) - set (span_hashes j)
    \<subseteq> known_hashes (filter (\<lambda>s. start_block_height s \<noteq> start_block_height j) (blocks q))"
    using assms ordered_unique [OF _ assms(2)] by (fastforce simp: queue_ok_def)
  then show ?thesis
    using assms(1) by (auto simp: queue_ok_def erase_block_def filter_ordered)
qed

lemma erase_fold_ok:
  assumes "queue_ok q" and "set js \<subseteq> set (blocks q)" and "spans_ordered js"
  shows "queue_ok (fold (\<lambda>j q. if P j then erase_block j q else q) js q)"
  using assms
proof (induction js arbitrary: q)
  case (Cons j js)
  let ?q = "if P j then erase_block j q else q"
  have "queue_ok ?q" using Cons.prems erase_block_ok by simp
  moreover have "set js \<subseteq> set (blocks ?q)"
    using Cons.prems by (auto simp: erase_block_def spans_ordered_def)
  ultimately show ?case using Cons.IH [of ?q] Cons.prems(3) by (simp add: spans_ordered_def)
qed simp

lemma find_in: "find P xs = Some x \<Longrightarrow> x \<in> set xs \<and> P x"
  by (auto simp: find_Some_iff)

lemma insert_span_ok: "queue_ok q \<Longrightarrow> queue_ok (q\<lparr>blocks := insert_span s (blocks q)\<rparr>)"
  by (auto simp: queue_ok_def insert_span_ordered set_insert_span)

lemma erased_start: "start_block_height j \<notin> start_block_height ` set (blocks (erase_block j q))"
  by (auto simp: erase_block_def)

lemma set_span_hashes_found:
  assumes "queue_ok q"
    and "find (\<lambda>s. start_block_height s = height \<and> connection_id s = conn) (blocks q) = Some i"
  shows "queue_ok (set_span_hashes height conn hashes q)"
    and "set (requested_hashes (set_span_hashes height conn hashes q)) = set hashes \<union> (set (requested_hashes q) - set (span_hashes i))"
    and "i\<lparr>span_hashes := hashes\<rparr> \<in> set (blocks (set_span_hashes height conn hashes q))"
proof -
  have i: "i \<in> set (blocks q)" using find_in [OF assms(2)] by simp
  note ok = erase_block_ok [OF assms(1) i]
  then have "spans_ordered (blocks (erase_block i q))" by (simp add: queue_ok_def)
  note ins = set_insert_span [OF this, of "i\<lparr>span_hashes := hashes\<rparr>"]
  have new: "set (insert_span (i\<lparr>span_hashes := hashes\<rparr>) (blocks (erase_block i q)))
    = insert (i\<lparr>span_hashes := hashes\<rparr>) (set (blocks (erase_block i q)))"
    using ins erased_start [of i q] by simp
  have def: "set_span_hashes height conn hashes q =
    (erase_block i q)\<lparr>requested_hashes := fold List.insert hashes (requested_hashes (erase_block i q)),
      blocks := insert_span (i\<lparr>span_hashes := hashes\<rparr>) (blocks (erase_block i q))\<rparr>"
    using assms(2) by (simp add: set_span_hashes_def Let_def)
  show "queue_ok (set_span_hashes height conn hashes q)"
    unfolding def using ok new by (auto simp: queue_ok_def insert_span_ordered)
  show "i\<lparr>span_hashes := hashes\<rparr> \<in> set (blocks (set_span_hashes height conn hashes q))"
    unfolding def using new by simp
  show "set (requested_hashes (set_span_hashes height conn hashes q)) = set hashes \<union> (set (requested_hashes q) - set (span_hashes i))"
    unfolding def by (simp add: erase_block_def)
qed

lemma set_span_hashes_ok: "queue_ok q \<Longrightarrow> queue_ok (set_span_hashes height conn hashes q)"
proof (cases "find (\<lambda>s. start_block_height s = height \<and> connection_id s = conn) (blocks q)")
  case (Some i)
  then show "queue_ok q \<Longrightarrow> ?thesis" by (rule set_span_hashes_found(1) [rotated])
qed (simp add: set_span_hashes_def)

lemma add_scheduled_ok: "queue_ok q \<Longrightarrow> add_scheduled h n conn t q = Some q' \<Longrightarrow> queue_ok q'"
  by (auto simp: add_scheduled_def insert_span_ok split: if_splits)

lemma remove_span_ok: "queue_ok q \<Longrightarrow> queue_ok (snd (remove_span h q))"
  by (auto simp: remove_span_def split: option.split dest: find_in intro: erase_block_ok)

lemma known_hashes_filter:
  assumes "\<And>s. s \<in> set ss \<Longrightarrow> \<not> P s \<Longrightarrow> span_hashes s = []"
  shows "known_hashes (filter P ss) = known_hashes ss"
proof
  show "known_hashes ss \<subseteq> known_hashes (filter P ss)"
  proof
    fix x assume "x \<in> known_hashes ss"
    then obtain s where s: "s \<in> set ss" "x \<in> set (span_hashes s)" by auto
    then have "P s" using assms [of s] by (cases "P s") auto
    then show "x \<in> known_hashes (filter P ss)" using s by auto
  qed
qed auto

text \<open>
  When blocks arrive, their hashes are entered before the new span has them; the span is found again because
  the old one with its height is gone.
\<close>

lemma add_filled_ok:
  assumes "queue_ok q"
  shows "queue_ok (add_filled height bcel conn sz q)"
proof -
  obtain removed q1 where r: "remove_span height q = (removed, q1)" by force
  have q1: "queue_ok q1" using remove_span_ok [OF assms, of height] r by simp
  let ?s = "filled_span height bcel conn sz"
  define q2 where "q2 = q1\<lparr>blocks := insert_span ?s (blocks q1)\<rparr>"
  have q2: "queue_ok q2" unfolding q2_def using q1 by (rule insert_span_ok)
  show ?thesis
  proof (cases removed)
    case None
    then show ?thesis using r q2 by (simp add: add_filled_def q2_def Let_def)
  next
    case (Some hashes)
    define q3 where "q3 = q2\<lparr>requested_hashes := fold List.insert hashes (requested_hashes q2),
                  have_blocks := fold List.insert hashes (have_blocks q2)\<rparr>"
    have "start_block_height ?s \<notin> start_block_height ` set (blocks q1)"
    proof -
      obtain i where i: "find (\<lambda>s. start_block_height s = height) (blocks q) = Some i" and q1: "q1 = erase_block i q"
        using r Some by (auto simp: remove_span_def split: option.splits)
      have "start_block_height i = height" using find_in [OF i] by simp
      then show ?thesis using erased_start [of i q] unfolding q1 by (simp add: filled_span_def)
    qed
    then have mem: "?s \<in> set (blocks q2)"
      using set_insert_span [of "blocks q1" ?s] q1 by (simp add: q2_def queue_ok_def)
    have ord: "spans_ordered (blocks q3)" using q2 by (simp add: q3_def queue_ok_def)
    have "find (\<lambda>s. start_block_height s = height \<and> connection_id s = conn) (blocks q3) = Some ?s"
    proof (cases "find (\<lambda>s. start_block_height s = height \<and> connection_id s = conn) (blocks q3)")
      case None
      then have "\<not> (start_block_height ?s = height \<and> connection_id ?s = conn)"
        using mem by (simp add: find_None_iff q3_def)
      then show ?thesis by (simp add: filled_span_def)
    next
      case (Some i)
      then show ?thesis
        using find_in [OF Some] ordered_unique [OF ord, of i ?s] mem by (simp add: q3_def filled_span_def)
    qed
    then have res: "set_span_hashes height conn hashes q3 =
      (let q = erase_block ?s q3 in q\<lparr>requested_hashes := fold List.insert hashes (requested_hashes q),
               blocks := insert_span (?s\<lparr>span_hashes := hashes\<rparr>) (blocks q)\<rparr>)"
      by (simp add: set_span_hashes_def)
    have e: "erase_block ?s q3 = q3\<lparr>blocks := filter (\<lambda>s. start_block_height s \<noteq> height) (blocks q2)\<rparr>"
      by (simp add: erase_block_def filled_span_def q3_def)
    have ordf: "spans_ordered (filter (\<lambda>s. start_block_height s \<noteq> height) (blocks q2))"
      using q2 by (simp add: queue_ok_def filter_ordered)
    have empty: "span_hashes x = []" if "x \<in> set (blocks q2)" and "start_block_height x = height" for x
    proof -
      have "x = ?s" using ordered_unique [OF _ that(1) mem] that(2) q2 by (simp add: queue_ok_def filled_span_def)
      then show ?thesis by (simp add: filled_span_def)
    qed
    then have kn: "known_hashes (filter (\<lambda>s. start_block_height s \<noteq> height) (blocks q2)) = known_hashes (blocks q2)"
      by (intro known_hashes_filter) auto
    have blk: "set (insert_span (?s\<lparr>span_hashes := hashes\<rparr>) (filter (\<lambda>s. start_block_height s \<noteq> height) (blocks q2)))
      = insert (?s\<lparr>span_hashes := hashes\<rparr>) (set (filter (\<lambda>s. start_block_height s \<noteq> height) (blocks q2)))"
      using set_insert_span [OF ordf, of "?s\<lparr>span_hashes := hashes\<rparr>"] by (auto simp: filled_span_def)
    have sub: "set (requested_hashes q2) \<subseteq> known_hashes (blocks q2)" "set (have_blocks q2) \<subseteq> set (requested_hashes q2)"
      using q2 by (auto simp: queue_ok_def)
    have "queue_ok (set_span_hashes height conn hashes q3)"
      unfolding res e Let_def queue_ok_def using sub kn blk insert_span_ordered [OF ordf]
      by (simp add: q3_def) blast
    then show ?thesis using r Some by (simp add: add_filled_def q2_def q3_def Let_def)
  qed
qed

lemma reserve_span_ok: "queue_ok q \<Longrightarrow> reserve_span a b c conn seed bh hs t q = Some (r, q') \<Longrightarrow> queue_ok q'"
  unfolding reserve_span_def Let_def
  by (auto simp: bind_eq_Some_conv add_scheduled_ok set_span_hashes_ok split: if_splits prod.splits)

lemma reset_time_ok: "queue_ok q \<Longrightarrow> reset_next_span_time t q = Some q' \<Longrightarrow> queue_ok q'"
  by (fastforce simp: reset_next_span_time_def queue_ok_def spans_ordered_def split: list.splits if_splits)

interpretation queue: machine queue_call queue_ok
proof
  show "queue_ok (queue_call op q)" if ok: "queue_ok q" for op q
  proof (cases op)
    case (Flush_spans conn all)
    then show ?thesis using ok erase_fold_ok [OF ok] by (simp add: flush_spans_def queue_ok_def)
  next
    case (Flush_stale_spans live)
    then show ?thesis using ok erase_fold_ok [OF ok] by (simp add: flush_stale_spans_def queue_ok_def)
  next
    case (Remove_spans conn height)
    then show ?thesis using ok erase_fold_ok [OF ok] by (simp add: remove_spans_def queue_ok_def)
  next
    case (Reserve_span a b c conn seed bh hs t)
    then show ?thesis using ok by (auto split: option.split intro: reserve_span_ok)
  next
    case (Reset_next_span_time t)
    then show ?thesis using ok by (auto split: option.split intro: reset_time_ok)
  next
    case (Add_scheduled h n conn t)
    then show ?thesis using ok by (auto split: option.split intro: add_scheduled_ok)
  qed (use ok in \<open>simp_all add: add_filled_ok remove_span_ok set_span_hashes_ok\<close>)
qed

section \<open>Reserving\<close>

lemma skip_requested_drop:
  assumes "skip_requested q hs h = (r, h')"
  obtains k where "k \<le> length hs" and "r = drop k hs" and "h' = h + of_nat k" and "r \<noteq> [] \<longrightarrow> \<not> requested (hd r) q"
proof -
  have "\<exists>k \<le> length hs. r = drop k hs \<and> h' = h + of_nat k \<and> (r \<noteq> [] \<longrightarrow> \<not> requested (hd r) q)"
    using assms
  proof (induction q hs h rule: skip_requested.induct)
    case (2 q x xs h)
    show ?case
    proof (cases "requested x q")
      case True
      then obtain k where "k \<le> length xs" "r = drop k xs" "h' = h + 1 + of_nat k" "r \<noteq> [] \<longrightarrow> \<not> requested (hd r) q"
        using 2(1) [OF True] 2(2) by auto
      then show ?thesis by (intro exI [of _ "Suc k"]) simp
    next
      case False
      then show ?thesis using 2(2) by (intro exI [of _ 0]) auto
    qed
  qed simp
  then show thesis by (elim exE conjE) (rule that)
qed

lemma take_span_take:
  "\<exists>n \<le> length hs. take_span m bh st seed hs sl = take n hs \<and> (n = 0 \<or> unat sl + n \<le> unat m)
     \<and> (\<forall>j < n. has_unpruned_block (st + sl + of_nat j) bh seed)"
  if "unat sl + length hs < 2 ^ 64"
  using that
proof (induction m bh st seed hs sl rule: take_span.induct)
  case (2 m bh st seed x xs sl)
  show ?case
  proof (cases "sl < m \<and> has_unpruned_block (st + sl) bh seed")
    case True
    have sl: "unat (sl + 1) = unat sl + 1" using 2(2) by (simp add: unat_word_ariths)
    then obtain n where n: "n \<le> length xs" "take_span m bh st seed xs (sl + 1) = take n xs"
      "n = 0 \<or> unat sl + 1 + n \<le> unat m" "\<forall>j < n. has_unpruned_block (st + (sl + 1) + of_nat j) bh seed"
      using 2 True by auto
    have "has_unpruned_block (st + sl + of_nat j) bh seed" if "j < Suc n" for j
      using that n(4) True by (cases j) (auto simp: algebra_simps)
    then show ?thesis
      using n True by (intro exI [of _ "Suc n"]) (auto simp: word_less_nat_alt)
  qed (intro exI [of _ 0], auto)
qed simp

lemma start_of_hashes:
  fixes last_height :: u64
  assumes "unat last_height < 2 ^ 63" and "l \<le> unat last_height" and "j \<le> l"
  shows "unat (last_height - of_nat l + 1 + of_nat j) = unat last_height - l + 1 + j"
proof -
  have "unat (of_nat l :: u64) = l" using assms by (intro of_nat_inverse) auto
  then have "unat (last_height - of_nat l) = unat last_height - l"
    using assms by (subst unat_sub) (auto simp: word_le_nat_alt)
  then show ?thesis using assms by (simp add: unat_word_ariths unat_of_nat)
qed

lemma reserve_parts:
  assumes "reserve_span first last_height m conn seed bh hs t q = Some ((h, n), q')" and "n \<noteq> 0"
    and "unat last_height < 2 ^ 63" and "length hs \<le> unat last_height"
  obtains k where "unat h = unat last_height - length hs + 1 + k" and "k < length hs" and "\<not> requested (hs ! k) q"
    and "k + unat n \<le> length hs" and "n \<le> m"
    and "\<forall>j < unat n. has_unpruned_block (h + of_nat j) bh seed"
    and "q' = set_span_hashes h conn (take (unat n) (drop k hs))
           (q\<lparr>blocks := insert_span (scheduled_span h n conn t) (blocks q)\<rparr>)"
proof -
  define base where "base = last_height - of_nat (length hs) + 1"
  note plus' = start_of_hashes [OF assms(3,4)]
  have base: "unat base = unat last_height - length hs + 1" using plus' [of 0] unfolding base_def by simp
  then have plus: "unat (base + of_nat j) = unat base + j" if "j \<le> length hs" for j
    using plus' [OF that] unfolding base_def by simp
  have lim: "unat base + length hs < 2 ^ 64" using base assms(3,4) by simp
  obtain r s1 where s1: "skip_requested q hs base = (r, s1)" by force
  define np where "np = (ucast (ucast (get_next_unpruned_block_height s1 bh seed) :: u32) :: u64)"
  define s2 where "s2 = (if np > s1 \<and> np < s1 + CRYPTONOTE_PRUNING_STRIPE_SIZE then np else s1)"
  obtain i s3 where s3: "skip_requested q (drop (unat (s2 - base)) hs) s2 = (i, s3)" by force
  define tk where "tk = take_span m bh s3 seed i 0"
  have eq: "reserve_span first last_height m conn seed bh hs t q =
    (if last_height < first \<or> m = 0 then Some ((0, 0), q)
     else if of_nat (length hs) > last_height then Some ((0, 0), q)
     else if s2 \<ge> of_nat (length hs) + base then Some ((0, 0), q)
     else if (of_nat (length tk) :: u64) = 0 then Some ((0, 0), q)
     else do {
       q \<leftarrow> add_scheduled s3 (of_nat (length tk)) conn t q;
       Some ((s3, of_nat (length tk)), set_span_hashes s3 conn tk q)
     })"
    by (simp add: reserve_span_def Let_def base_def [symmetric] s1 np_def [symmetric] s2_def [symmetric] s3
        tk_def [symmetric] split del: if_split cong: if_cong)
  have guards: "\<not> s2 \<ge> of_nat (length hs) + base" "h = s3" "n = of_nat (length tk)"
    "q' = set_span_hashes s3 conn tk (q\<lparr>blocks := insert_span (scheduled_span s3 n conn t) (blocks q)\<rparr>)"
    using assms(1,2) unfolding eq by (auto simp: add_scheduled_def split: if_splits)
  obtain k1 where k1: "k1 \<le> length hs" "s1 = base + of_nat k1" using s1 by (rule skip_requested_drop)
  have "unat s1 \<ge> unat base" using plus [OF k1(1)] k1(2) by simp
  then have lo: "unat s2 \<ge> unat base" unfolding s2_def by (auto simp: word_less_nat_alt)
  have hi: "unat s2 < unat base + length hs"
    using guards(1) plus [of "length hs"] by (simp add: word_le_nat_alt add.commute)
  define d where "d = unat (s2 - base)"
  have d: "unat s2 = unat base + d" "d < length hs"
    using lo hi unfolding d_def by (auto simp: unat_sub word_le_nat_alt)
  obtain k2 where k2: "k2 \<le> length (drop d hs)" "i = drop k2 (drop d hs)" "s3 = s2 + of_nat k2"
    "i \<noteq> [] \<longrightarrow> \<not> requested (hd i) q"
    using s3 unfolding d_def [symmetric] by (rule skip_requested_drop)
  have "unat (0 :: u64) + length i < 2 ^ 64" using k2(2) lim by simp
  from take_span_take [OF this, of m bh s3 seed]
  obtain l where l: "l \<le> length i" "tk = take l i" "l = 0 \<or> l \<le> unat m"
    "\<forall>j < l. has_unpruned_block (s3 + of_nat j) bh seed"
    unfolding tk_def by auto
  have n: "unat n = l"
    using guards(3) l(1,2) k2(2) lim by (auto intro!: of_nat_inverse)
  have ne: "i \<noteq> []" using n l(1) assms(2) unat_eq_zero [of n] by auto
  have "s2 = base + of_nat d" unfolding d_def by simp
  then have s3: "s3 = base + of_nat (d + k2)" using k2(3) by simp
  have i: "i = drop (d + k2) hs" using k2(2) by (simp add: add.commute)
  show thesis
  proof (rule that [of "d + k2"])
    show "unat h = unat last_height - length hs + 1 + (d + k2)"
      unfolding guards(2) s3 base [symmetric] using k2(1) d(2) by (intro plus) simp
    show "d + k2 < length hs" using ne i by simp
    then show "\<not> requested (hs ! (d + k2)) q" using k2(4) ne unfolding i by (simp add: hd_drop_conv_nth)
    have "length i = length hs - (d + k2)" unfolding i by simp
    then show "d + k2 + unat n \<le> length hs" using l(1) ne unfolding n by (cases i) auto
    show "n \<le> m" using l(3) n assms(2) unat_eq_zero [of n] by (auto simp: word_le_nat_alt)
    show "\<forall>j < unat n. has_unpruned_block (h + of_nat j) bh seed" using l(4) unfolding n guards(2) .
    show "q' = set_span_hashes h conn (take (unat n) (drop (d + k2) hs))
           (q\<lparr>blocks := insert_span (scheduled_span h n conn t) (blocks q)\<rparr>)"
      unfolding guards(2,4) n i [symmetric] l(2) ..
  qed
qed

lemma scheduled_found:
  assumes "queue_ok q" and "\<forall>s \<in> set (blocks q). start_block_height s = h \<longrightarrow> connection_id s = conn"
  shows "\<exists>i. find (\<lambda>s. start_block_height s = h \<and> connection_id s = conn)
           (insert_span (scheduled_span h n conn t) (blocks q)) = Some i"
proof -
  have "\<exists>s \<in> set (insert_span (scheduled_span h n conn t) (blocks q)). start_block_height s = h \<and> connection_id s = conn"
    using assms set_insert_span [of "blocks q" "scheduled_span h n conn t"]
    by (auto simp: queue_ok_def scheduled_span_def)
  then have "find (\<lambda>s. start_block_height s = h \<and> connection_id s = conn)
      (insert_span (scheduled_span h n conn t) (blocks q)) \<noteq> None"
    unfolding find_None_iff by blast
  then show ?thesis by simp
qed

text \<open>Two spans never start at the same height, so a span of another peer keeps a new one out.\<close>

lemma insert_span_taken:
  assumes "spans_ordered ts" and "s \<in> set ts" and "start_block_height s = start_block_height r"
  shows "insert_span r ts = ts"
  using assms by (induction ts) (auto simp: spans_ordered_def)

lemma reserve_taken:
  assumes "queue_ok q" and "s \<in> set (blocks q)" and "start_block_height s = h" and "connection_id s \<noteq> conn"
  shows "set_span_hashes h conn xs (q\<lparr>blocks := insert_span (scheduled_span h n conn t) (blocks q)\<rparr>) = q"
proof -
  have ord: "spans_ordered (blocks q)" using assms(1) by (simp add: queue_ok_def)
  then have "insert_span (scheduled_span h n conn t) (blocks q) = blocks q"
    using insert_span_taken assms(2,3) by (simp add: scheduled_span_def)
  moreover have "r = s" if "r \<in> set (blocks q)" "start_block_height r = h" for r
    using ord that assms(2,3) by (auto simp: spans_ordered_def strict_sorted_iff distinct_map dest: inj_onD)
  then have "find (\<lambda>r. start_block_height r = h \<and> connection_id r = conn) (blocks q) = None"
    using assms(4) by (auto simp: find_None_iff)
  ultimately show ?thesis by (simp add: set_span_hashes_def)
qed

text \<open>
  C23. The block queue stays well formed. Whatever sequence of calls is made on it from the empty queue, the spans
  are kept in strictly increasing order of their start height, every hash that counts as requested is in the
  hashes of some span, and every hash that counts as downloaded counts as requested.
\<close>

theorem block_queue_ok:
  "let q = fold queue_call ops empty_queue
   in sorted_wrt (<) (map start_block_height (blocks q))
      \<and> (\<forall>h. requested h q \<longrightarrow> (\<exists>s. s \<in> set (blocks q) \<and> h \<in> set (span_hashes s)))
      \<and> (\<forall>h. have_block h q \<longrightarrow> requested h q)"
proof -
  have "queue_ok empty_queue" by (simp add: queue_ok_def empty_queue_def spans_ordered_def)
  from queue.run_inv [OF this, of ops] show ?thesis
    by (auto simp: Let_def queue_ok_def requested_def have_block_def spans_ordered_def)
qed

theorem block_queue_ok_witness:
  "requested [7] (fold queue_call [Add_scheduled 5 2 [1] 0, Set_span_hashes 5 [1] [[7], [8]], Remove_span 9] empty_queue)
   \<and> (\<exists>s. s \<in> set (blocks (fold queue_call [Add_scheduled 5 2 [1] 0, Set_span_hashes 5 [1] [[7], [8]], Remove_span 9] empty_queue))
        \<and> [7] \<in> set (span_hashes s))"
proof -
  have r: "requested [7] (fold queue_call [Add_scheduled 5 2 [1] 0, Set_span_hashes 5 [1] [[7], [8]], Remove_span 9] empty_queue)"
    by code_simp
  then show ?thesis
    using block_queue_ok [of "[Add_scheduled 5 2 [1] 0, Set_span_hashes 5 [1] [[7], [8]], Remove_span 9]"]
    unfolding Let_def by blast
qed

text \<open>
  C22. What is reserved for a peer is what it can serve, from a hash on that nobody asked for. When a reservation out of the hashes
  that end at the last height answers a start and a positive length, the first hash of the span was not
  requested, the span lies within the hashes and is no longer than asked for, and the peer has kept every block
  of it. Unless a span of another peer starts there, its hashes are all requested afterwards. If one does, the
  reservation is answered all the same, but nothing of it is recorded: the queue is the one before.
\<close>

theorem reserve_span_correct:
  assumes "queue_ok q" and "unat last_height < 2 ^ 63" and "length hs \<le> unat last_height"
    and "reserve_span first last_height m conn seed bh hs t q = Some ((h, n), q')" and "n \<noteq> 0"
  shows "\<exists>k. unat h = unat last_height - length hs + 1 + k \<and> k + unat n \<le> length hs \<and> n \<le> m
    \<and> \<not> requested (hs ! k) q
    \<and> (\<forall>j < unat n. has_unpruned_block (h + of_nat j) bh seed)
    \<and> ((\<forall>s \<in> set (blocks q). start_block_height s = h \<longrightarrow> connection_id s = conn)
         \<longrightarrow> (\<forall>x \<in> set (take (unat n) (drop k hs)). requested x q'))
    \<and> ((\<exists>s \<in> set (blocks q). start_block_height s = h \<and> connection_id s \<noteq> conn) \<longrightarrow> q' = q)"
proof -
  obtain k where k: "unat h = unat last_height - length hs + 1 + k" "k < length hs" "\<not> requested (hs ! k) q"
    "k + unat n \<le> length hs" "n \<le> m" "\<forall>j < unat n. has_unpruned_block (h + of_nat j) bh seed"
    "q' = set_span_hashes h conn (take (unat n) (drop k hs))
           (q\<lparr>blocks := insert_span (scheduled_span h n conn t) (blocks q)\<rparr>)"
    using assms(4,5,2,3) by (rule reserve_parts)
  have "requested x q'" if alone: "\<forall>s \<in> set (blocks q). start_block_height s = h \<longrightarrow> connection_id s = conn"
    and x: "x \<in> set (take (unat n) (drop k hs))" for x
  proof -
    obtain i where i: "find (\<lambda>s. start_block_height s = h \<and> connection_id s = conn)
      (blocks (q\<lparr>blocks := insert_span (scheduled_span h n conn t) (blocks q)\<rparr>)) = Some i"
      using scheduled_found [OF assms(1) alone] by auto
    show ?thesis
      unfolding requested_def k(7) set_span_hashes_found(2) [OF insert_span_ok [OF assms(1)] i] using x by blast
  qed
  moreover have "q' = q" if "s \<in> set (blocks q)" "start_block_height s = h" "connection_id s \<noteq> conn" for s
    unfolding k(7) using assms(1) that by (rule reserve_taken)
  ultimately show ?thesis using k by blast
qed

theorem reserve_span_correct_witness:
  "(\<exists>q'. reserve_span 1 3 2 [2] 0 10 [[1], [2], [3]] 0 \<lparr>blocks = [(scheduled_span 1 2 [1] 0)\<lparr>span_hashes := [[1], [2]]\<rparr>],
      requested_hashes = [[1], [2]], have_blocks = []\<rparr> = Some ((3, 1), q') \<and> requested [3] q')
   \<and> reserve_span 1 3 2 [2] 0 10 [[1], [2], [3]] 0 \<lparr>blocks = [scheduled_span 1 3 [1] 0], requested_hashes = [], have_blocks = []\<rparr>
      = Some ((1, 2), \<lparr>blocks = [scheduled_span 1 3 [1] 0], requested_hashes = [], have_blocks = []\<rparr>)"
proof
  let ?q = "\<lparr>blocks = [(scheduled_span 1 2 [1] 0)\<lparr>span_hashes := [[1], [2]]\<rparr>],
      requested_hashes = [[1], [2]], have_blocks = []\<rparr>"
  have some: "map_option fst (reserve_span 1 3 2 [2] 0 10 [[1], [2], [3]] 0 ?q) = Some (3, 1)" by code_simp
  then obtain q' where q': "reserve_span 1 3 2 [2] 0 10 [[1], [2], [3]] 0 ?q = Some ((3, 1), q')" by auto
  have ok: "queue_ok ?q" by (simp add: queue_ok_def spans_ordered_def)
  have lim: "unat (3 :: u64) < 2 ^ 63" "length [[1], [2], [3 :: u8]] \<le> unat (3 :: u64)" by simp_all
  obtain k where k: "unat (3 :: u64) = unat (3 :: u64) - length [[1], [2], [3 :: u8]] + 1 + k"
    and req: "\<forall>x \<in> set (take (unat (1 :: u64)) (drop k [[1], [2], [3 :: u8]])). requested x q'"
    using reserve_span_correct [OF ok lim q'] by (auto simp: scheduled_span_def)
  have "k = 2" using k by simp
  then have "requested [3] q'" using req by simp
  then show "\<exists>q'. reserve_span 1 3 2 [2] 0 10 [[1], [2], [3]] 0 ?q = Some ((3, 1), q') \<and> requested [3] q'" using q' by blast
next
  let ?q = "\<lparr>blocks = [scheduled_span 1 3 [1] 0], requested_hashes = [], have_blocks = []\<rparr>"
  have some: "map_option fst (reserve_span 1 3 2 [2] 0 10 [[1], [2], [3]] 0 ?q) = Some (1, 2)" by code_simp
  then obtain q' where q': "reserve_span 1 3 2 [2] 0 10 [[1], [2], [3]] 0 ?q = Some ((1, 2), q')" by auto
  have ok: "queue_ok ?q" by (simp add: queue_ok_def spans_ordered_def)
  have lim: "unat (3 :: u64) < 2 ^ 63" "length [[1], [2], [3 :: u8]] \<le> unat (3 :: u64)" by simp_all
  have "q' = ?q" using reserve_span_correct [OF ok lim q'] by (auto simp: scheduled_span_def)
  then show "reserve_span 1 3 2 [2] 0 10 [[1], [2], [3]] 0 ?q = Some ((1, 2), ?q)" using q' by simp
qed

lemma needed_loop_covered:
  assumes "\<forall>s \<in> set ss. unat (start_block_height s) + unat (nblocks s) < 2 ^ 64" and "bh \<le> l"
  shows "bh \<le> needed_loop bh first l ss
    \<and> (\<forall>h. l \<le> h \<and> h < needed_loop bh first l ss
          \<longrightarrow> (\<exists>s \<in> set ss. start_block_height s \<le> h \<and> h < start_block_height s + nblocks s))
    \<and> (first \<and> l < needed_loop bh first l ss \<longrightarrow> (\<exists>s \<in> set ss. start_block_height s = l \<and> span_blocks s \<noteq> []))"
  using assms
proof (induction bh first l ss rule: needed_loop.induct)
  case (2 bh first l s rest)
  let ?e = "start_block_height s + nblocks s"
  have "unat ?e = unat (start_block_height s) + unat (nblocks s)"
    using 2(3) by (intro unat_add_lem [THEN iffD1]) simp
  then have e: "start_block_height s \<le> ?e" by (simp add: word_le_nat_alt)
  consider "?e - 1 < bh" | "\<not> ?e - 1 < bh" "start_block_height s \<noteq> l \<or> (first \<and> span_blocks s = [])"
    | "\<not> ?e - 1 < bh" "start_block_height s = l" "first \<longrightarrow> span_blocks s \<noteq> []"
    by blast
  then show ?case
  proof cases
    case 1
    then show ?thesis using 2(1) [OF 1] 2(3,4) by auto
  next
    case 3
    have "bh \<le> ?e" using e 3(2) 2(4) by simp
    then have ih: "bh \<le> needed_loop bh False ?e rest"
      "\<forall>h. ?e \<le> h \<and> h < needed_loop bh False ?e rest
          \<longrightarrow> (\<exists>s \<in> set rest. start_block_height s \<le> h \<and> h < start_block_height s + nblocks s)"
      using 2(2) [OF 3(1)] 3(2,3) 2(3) by auto
    have r: "needed_loop bh first l (s # rest) = needed_loop bh False ?e rest" using 3 by auto
    have "\<exists>t \<in> set (s # rest). start_block_height t \<le> h \<and> h < start_block_height t + nblocks t"
      if "l \<le> h" "h < needed_loop bh False ?e rest" for h
      using that ih(2) 3(2) by (cases "h < ?e") auto
    then show ?thesis unfolding r using ih(1) 3(2,3) by auto
  qed (use 2(4) in auto)
qed auto

text \<open>
  The height to download next is the end of a gapless run of spans. No height before it, from the height of
  the chain on, is without a span that holds it, and it is past the height of the chain only if a span that starts
  there already has its blocks.
\<close>

theorem next_needed_height_covered:
  assumes "\<forall>s \<in> set (blocks q). unat (start_block_height s) + unat (nblocks s) < 2 ^ 64"
  shows "bh \<le> get_next_needed_height bh q
    \<and> (\<forall>h. bh \<le> h \<and> h < get_next_needed_height bh q
          \<longrightarrow> (\<exists>s \<in> set (blocks q). start_block_height s \<le> h \<and> h < start_block_height s + nblocks s))
    \<and> (bh < get_next_needed_height bh q \<longrightarrow> (\<exists>s \<in> set (blocks q). start_block_height s = bh \<and> span_blocks s \<noteq> []))"
  using needed_loop_covered [OF assms, of bh bh True] by (auto simp: get_next_needed_height_def)

theorem next_needed_height_covered_witness:
  "let q = \<lparr>blocks = [filled_span 4 [] [1] 0\<lparr>nblocks := 3, span_blocks := [\<lparr>entry_block = [], entry_txs = []\<rparr>]\<rparr>, scheduled_span 7 2 [2] 0],
        requested_hashes = [], have_blocks = []\<rparr>
   in get_next_needed_height 4 q = 9
      \<and> (\<exists>s \<in> set (blocks q). start_block_height s \<le> 8 \<and> 8 < start_block_height s + nblocks s)"
proof -
  let ?q = "\<lparr>blocks = [filled_span 4 [] [1] 0\<lparr>nblocks := 3, span_blocks := [\<lparr>entry_block = [], entry_txs = []\<rparr>]\<rparr>, scheduled_span 7 2 [2] 0],
        requested_hashes = [], have_blocks = []\<rparr>"
  have nine: "get_next_needed_height 4 ?q = 9" by code_simp
  have "\<forall>s \<in> set (blocks ?q). unat (start_block_height s) + unat (nblocks s) < 2 ^ 64"
    by (simp add: filled_span_def scheduled_span_def)
  from next_needed_height_covered [OF this, of 4]
  have "4 \<le> (8 :: u64) \<and> 8 < get_next_needed_height 4 ?q
    \<longrightarrow> (\<exists>s \<in> set (blocks ?q). start_block_height s \<le> 8 \<and> 8 < start_block_height s + nblocks s)"
    by blast
  then have "\<exists>s \<in> set (blocks ?q). start_block_height s \<le> 8 \<and> 8 < start_block_height s + nblocks s"
    unfolding nine by simp
  then show ?thesis using nine unfolding Let_def by blast
qed

end
