(* ===== verification/Storage.thy ===== *)
theory Storage
  imports Address Rollback
begin

text \<open>
  Keeping the full node list across restarts (cryptonote_core/full_node_list.cpp): \<open>store\<close> writes the state
  into the database after a block and \<open>load\<close> reads it when the node starts. A member that a reader leaves
  uninitialised has the value of a parameter, \<open>u\<close> for a swarm and \<open>qv\<close> for the version of a quorum.
\<close>

section \<open>The code\<close>

text \<open>The varints of a field, at the width of its type.\<close>

definition serialize_varint_store :: "'a::len word \<Rightarrow> bytes" where
  "serialize_varint_store v = write_varint (ucast v)"

definition serialize_varint_load :: "'a::len word reader" where
  "serialize_varint_load bs = (let (_, v, rest) = read_varint_loop LENGTH('a) 0 0 0 bs in Some (ucast v, rest))"

definition contribution_store :: "contribution_t \<Rightarrow> bytes" where
  "contribution_store c = serialize_varint_store (ct_version c) @ ct_key_image_pub_key c @ ct_key_image c
     @ serialize_varint_store (ct_amount c)"

definition contribution_load :: "contribution_t reader" where
  "contribution_load bs = do {
     (v, bs) \<leftarrow> serialize_varint_load bs;
     (pub, bs) \<leftarrow> serialize_blob_load 32 bs;
     (image, bs) \<leftarrow> serialize_blob_load 32 bs;
     (a, bs) \<leftarrow> serialize_varint_load bs;
     Some (\<lparr>ct_version = v, ct_key_image_pub_key = pub, ct_key_image = image, ct_amount = a\<rparr>, bs)
   }"

definition contributor_store :: "contributor_t \<Rightarrow> bytes" where
  "contributor_store c = serialize_varint_store (cr_version c) @ serialize_varint_store (cr_amount c)
     @ serialize_varint_store (cr_reserved c) @ address_store (cr_address c)
     @ (if cr_version c \<ge> 2 then do_serialize_container_store contribution_store (locked_contributions c) else [])"

definition contributor_load :: "contributor_t reader" where
  "contributor_load bs = do {
     (v, bs) \<leftarrow> serialize_varint_load bs;
     (a, bs) \<leftarrow> serialize_varint_load bs;
     (r, bs) \<leftarrow> serialize_varint_load bs;
     (addr, bs) \<leftarrow> address_load bs;
     (locked, bs) \<leftarrow> (if v \<ge> 2 then do_serialize_container_load contribution_load bs else Some ([], bs));
     Some (\<lparr>cr_version = v, cr_amount = a, cr_reserved = r, cr_address = addr, locked_contributions = locked\<rparr>, bs)
   }"

definition info_store :: "full_node_info \<Rightarrow> bytes" where
  "info_store i = serialize_varint_store (info_version i) @ serialize_varint_store (registration_height i)
     @ serialize_varint_store (requested_unlock_height i) @ serialize_varint_store (last_reward_block_height i)
     @ serialize_varint_store (last_reward_transaction_index i)
     @ do_serialize_container_store contributor_store (contributors i)
     @ serialize_varint_store (total_contributed i) @ serialize_varint_store (total_reserved i)
     @ serialize_varint_store (staking_requirement i) @ serialize_varint_store (portions_for_operator i)
     @ address_store (operator_address i)
     @ (if info_version i \<ge> 1 then serialize_varint_store (swarm_id i) else [])
     @ serialize_varint_store (dummy i)"

definition info_load :: "u64 \<Rightarrow> full_node_info reader" where
  "info_load u bs = do {
     (v, bs) \<leftarrow> serialize_varint_load bs;
     (rh, bs) \<leftarrow> serialize_varint_load bs;
     (uh, bs) \<leftarrow> serialize_varint_load bs;
     (lh, bs) \<leftarrow> serialize_varint_load bs;
     (li, bs) \<leftarrow> serialize_varint_load bs;
     (cs, bs) \<leftarrow> do_serialize_container_load contributor_load bs;
     (tc, bs) \<leftarrow> serialize_varint_load bs;
     (tr, bs) \<leftarrow> serialize_varint_load bs;
     (sr, bs) \<leftarrow> serialize_varint_load bs;
     (po, bs) \<leftarrow> serialize_varint_load bs;
     (addr, bs) \<leftarrow> address_load bs;
     (swarm, bs) \<leftarrow> (if v \<ge> 1 then serialize_varint_load bs else Some (u, bs));
     (d, bs) \<leftarrow> serialize_varint_load bs;
     Some (\<lparr>info_version = v, registration_height = rh, requested_unlock_height = uh, last_reward_block_height = lh,
       last_reward_transaction_index = li, contributors = cs, total_contributed = tc, total_reserved = tr,
       staking_requirement = sr, portions_for_operator = po, swarm_id = swarm, operator_address = addr, dummy = d\<rparr>, bs)
   }"

type_synonym full_node_pubkey_info = "public_key \<times> full_node_info"

definition pubkey_info_store :: "full_node_pubkey_info \<Rightarrow> bytes" where
  "pubkey_info_store p = fst p @ info_store (snd p)"

definition pubkey_info_load :: "u64 \<Rightarrow> full_node_pubkey_info reader" where
  "pubkey_info_load u bs = do {
     (key, bs) \<leftarrow> serialize_blob_load 32 bs;
     (i, bs) \<leftarrow> info_load u bs;
     Some ((key, i), bs)
   }"

definition blacklist_entry_store :: "key_image_blacklist_entry \<Rightarrow> bytes" where
  "blacklist_entry_store e = serialize_varint_store (be_version e) @ be_key_image e @ serialize_varint_store (be_unlock_height e)"

definition blacklist_entry_load :: "key_image_blacklist_entry reader" where
  "blacklist_entry_load bs = do {
     (v, bs) \<leftarrow> serialize_varint_load bs;
     (image, bs) \<leftarrow> serialize_blob_load 32 bs;
     (h, bs) \<leftarrow> serialize_varint_load bs;
     Some (\<lparr>be_version = v, be_key_image = image, be_unlock_height = h\<rparr>, bs)
   }"

text \<open>An event is preceded by the tag of its type; a boolean is one byte.\<close>

fun event_store :: "rollback_event \<Rightarrow> bytes" where
  "event_store (rollback_change h key info) = 0xa1 # serialize_varint_store h @ key @ info_store info"
| "event_store (rollback_new h key) = 0xa2 # serialize_varint_store h @ key"
| "event_store (prevent_rollback h) = 0xa3 # serialize_varint_store h"
| "event_store (rollback_key_image_blacklist h entry was_adding) =
     0xa4 # serialize_varint_store h @ blacklist_entry_store entry @ [if was_adding then 1 else 0]"
| "event_store (rollback_key_image_unlock h key) = 0xa5 # serialize_varint_store h @ key"

definition event_load :: "u64 \<Rightarrow> rollback_event reader" where
  "event_load u bs = do {
     (t, bs) \<leftarrow> (serialize_uint_load 1 bs :: (u8 \<times> bytes) option);
     if t = 0xa1 then do {
       (h, bs) \<leftarrow> serialize_varint_load bs;
       (key, bs) \<leftarrow> serialize_blob_load 32 bs;
       (info, bs) \<leftarrow> info_load u bs;
       Some (rollback_change h key info, bs)
     }
     else if t = 0xa2 then do {
       (h, bs) \<leftarrow> serialize_varint_load bs;
       (key, bs) \<leftarrow> serialize_blob_load 32 bs;
       Some (rollback_new h key, bs)
     }
     else if t = 0xa3 then do {
       (h, bs) \<leftarrow> serialize_varint_load bs;
       Some (prevent_rollback h, bs)
     }
     else if t = 0xa4 then do {
       (h, bs) \<leftarrow> serialize_varint_load bs;
       (entry, bs) \<leftarrow> blacklist_entry_load bs;
       (b, bs) \<leftarrow> serialize_blob_load 1 bs;
       Some (rollback_key_image_blacklist h entry (b \<noteq> [0]), bs)
     }
     else if t = 0xa5 then do {
       (h, bs) \<leftarrow> serialize_varint_load bs;
       (key, bs) \<leftarrow> serialize_blob_load 32 bs;
       Some (rollback_key_image_unlock h key, bs)
     }
     else None
   }"

record quorum_state_for_serialization =
  qs_version :: u8
  qs_height :: u64
  qs_state :: quorum_state

definition quorum_store :: "quorum_state_for_serialization \<Rightarrow> bytes" where
  "quorum_store q = serialize_uint_store 1 (qs_version q) @ serialize_uint_store 8 (qs_height q)
     @ do_serialize_container_store (\<lambda>k. k) (quorum_nodes (qs_state q))
     @ do_serialize_container_store (\<lambda>k. k) (nodes_to_test (qs_state q))"

definition quorum_load :: "quorum_state_for_serialization reader" where
  "quorum_load bs = do {
     (v, bs) \<leftarrow> serialize_uint_load 1 bs;
     (h, bs) \<leftarrow> serialize_uint_load 8 bs;
     (ns, bs) \<leftarrow> do_serialize_container_load (serialize_blob_load 32) bs;
     (ts, bs) \<leftarrow> do_serialize_container_load (serialize_blob_load 32) bs;
     Some (\<lparr>qs_version = v, qs_height = h, qs_state = \<lparr>quorum_nodes = ns, nodes_to_test = ts\<rparr>\<rparr>, bs)
   }"

record data_members_for_serialization =
  dm_version :: u8
  dm_height :: u64
  dm_quorum_states :: "quorum_state_for_serialization list"
  dm_infos :: "full_node_pubkey_info list"
  dm_events :: "rollback_event list"
  dm_key_image_blacklist :: "key_image_blacklist_entry list"

definition data_store :: "data_members_for_serialization \<Rightarrow> bytes" where
  "data_store d = serialize_varint_store (dm_version d)
     @ do_serialize_container_store quorum_store (dm_quorum_states d)
     @ do_serialize_container_store pubkey_info_store (dm_infos d)
     @ do_serialize_container_store event_store (dm_events d)
     @ serialize_uint_store 8 (dm_height d)
     @ (if dm_version d \<ge> 2 then do_serialize_container_store blacklist_entry_store (dm_key_image_blacklist d) else [])"

definition data_load :: "u64 \<Rightarrow> data_members_for_serialization reader" where
  "data_load u bs = do {
     (v, bs) \<leftarrow> serialize_varint_load bs;
     (qs, bs) \<leftarrow> do_serialize_container_load quorum_load bs;
     (infos, bs) \<leftarrow> do_serialize_container_load (pubkey_info_load u) bs;
     (events, bs) \<leftarrow> do_serialize_container_load (event_load u) bs;
     (h, bs) \<leftarrow> serialize_uint_load 8 bs;
     (l, bs) \<leftarrow> (if v \<ge> 2 then do_serialize_container_load blacklist_entry_load bs else Some ([], bs));
     Some (\<lparr>dm_version = v, dm_height = h, dm_quorum_states = qs, dm_infos = infos, dm_events = events,
       dm_key_image_blacklist = l\<rparr>, bs)
   }"

text \<open>
  The pointer to the database, \<^const>\<open>None\<close> when it is null, and the blob in it, if there is one. Loading
  starts from a cleared state, which a failure leaves behind.
\<close>

type_synonym full_node_db = "bytes option option"

definition data_to_store :: "u8 \<Rightarrow> chain_view \<Rightarrow> transient_state \<Rightarrow> data_members_for_serialization" where
  "data_to_store qv chain st =
     \<lparr>dm_version = get_min_full_node_info_version_for_hf (hard_fork_version chain (state_height st - 1)),
      dm_height = state_height st,
      dm_quorum_states = map (\<lambda>(h, q). \<lparr>qs_version = qv, qs_height = h, qs_state = q\<rparr>) (quorum_states st),
      dm_infos = full_nodes_infos st,
      dm_events = rollback_events st,
      dm_key_image_blacklist = key_image_blacklist st\<rparr>"

definition store_state :: "u8 \<Rightarrow> chain_view \<Rightarrow> transient_state \<Rightarrow> full_node_db \<Rightarrow> bool \<times> full_node_db" where
  "store_state qv chain st db =
     (if hard_fork_version chain (current_height chain) < network_version_9_full_nodes then (True, db)
      else case db of
        None \<Rightarrow> (False, db)
      | Some _ \<Rightarrow> (True, Some (Some (data_store (data_to_store qv chain st)))))"

definition restore_state :: "data_members_for_serialization \<Rightarrow> transient_state \<Rightarrow> transient_state" where
  "restore_state d st =
     (let st = st\<lparr>state_height := dm_height d, key_image_blacklist := dm_key_image_blacklist d\<rparr>;
          st = st\<lparr>quorum_states := fold (\<lambda>q. set_quorum (qs_height q) (qs_state q)) (dm_quorum_states d) (quorum_states st)\<rparr>;
          st = fold (\<lambda>(key, info). put_node key info) (dm_infos d) st
      in st\<lparr>rollback_events := rollback_events st @ dm_events d\<rparr>)"

definition load_state :: "u64 \<Rightarrow> chain_view \<Rightarrow> full_node_db \<Rightarrow> bool \<times> transient_state" where
  "load_state u chain db =
     (let st = clear chain
      in case db of
        None \<Rightarrow> (False, st)
      | Some None \<Rightarrow> (False, st)
      | Some (Some blob) \<Rightarrow>
          (case parse_binary (data_load u) blob of
             None \<Rightarrow> (False, st)
           | Some data_in \<Rightarrow> (True, restore_state data_in st)))"

section \<open>Well-typed values\<close>

text \<open>
  The values that are read back as they were written. The members that depend on the version of their record have
  their default when the version is older, which for a swarm is the uninitialised value.
\<close>

definition valid_contribution :: "contribution_t \<Rightarrow> bool" where
  "valid_contribution c \<longleftrightarrow> length (ct_key_image_pub_key c) = 32 \<and> length (ct_key_image c) = 32"

definition valid_list :: "('a \<Rightarrow> bool) \<Rightarrow> 'a list \<Rightarrow> bool" where
  "valid_list P xs \<longleftrightarrow> list_all P xs \<and> length xs < 2 ^ 64"

definition valid_contributor :: "contributor_t \<Rightarrow> bool" where
  "valid_contributor c \<longleftrightarrow> valid_address (cr_address c) \<and> valid_list valid_contribution (locked_contributions c)
     \<and> (cr_version c < 2 \<longrightarrow> locked_contributions c = [])"

definition valid_info :: "u64 \<Rightarrow> full_node_info \<Rightarrow> bool" where
  "valid_info u i \<longleftrightarrow> valid_list valid_contributor (contributors i) \<and> valid_address (operator_address i)
     \<and> (info_version i < 1 \<longrightarrow> swarm_id i = u)"

definition valid_blacklist_entry :: "key_image_blacklist_entry \<Rightarrow> bool" where
  "valid_blacklist_entry e \<longleftrightarrow> length (be_key_image e) = 32"

fun valid_event :: "u64 \<Rightarrow> rollback_event \<Rightarrow> bool" where
  "valid_event u (rollback_change h key info) \<longleftrightarrow> length key = 32 \<and> valid_info u info"
| "valid_event u (rollback_new h key) \<longleftrightarrow> length key = 32"
| "valid_event u (prevent_rollback h) \<longleftrightarrow> True"
| "valid_event u (rollback_key_image_blacklist h entry was_adding) \<longleftrightarrow> valid_blacklist_entry entry"
| "valid_event u (rollback_key_image_unlock h key) \<longleftrightarrow> length key = 32"

abbreviation valid_keys :: "public_key list \<Rightarrow> bool" where
  "valid_keys \<equiv> valid_list (\<lambda>k. length k = 32)"

definition valid_quorum :: "quorum_state \<Rightarrow> bool" where
  "valid_quorum q \<longleftrightarrow> valid_keys (quorum_nodes q) \<and> valid_keys (nodes_to_test q)"

definition valid_data :: "u64 \<Rightarrow> data_members_for_serialization \<Rightarrow> bool" where
  "valid_data u d \<longleftrightarrow> valid_list (\<lambda>q. valid_quorum (qs_state q)) (dm_quorum_states d)
     \<and> valid_list (\<lambda>p. length (fst p) = 32 \<and> valid_info u (snd p)) (dm_infos d)
     \<and> valid_list (valid_event u) (dm_events d) \<and> valid_list valid_blacklist_entry (dm_key_image_blacklist d)
     \<and> (dm_version d < 2 \<longrightarrow> dm_key_image_blacklist d = [])"

text \<open>The state that is kept: its lists of valid values, with the keys of the two maps unique and in order.\<close>

definition valid_state :: "u64 \<Rightarrow> transient_state \<Rightarrow> bool" where
  "valid_state u st \<longleftrightarrow>
     valid_list (\<lambda>(h, q). valid_quorum q) (quorum_states st) \<and> sorted_wrt (<) (map fst (quorum_states st))
     \<and> valid_list (\<lambda>(k, i). length k = 32 \<and> valid_info u i) (full_nodes_infos st) \<and> distinct (map fst (full_nodes_infos st))
     \<and> valid_list (valid_event u) (rollback_events st) \<and> valid_list valid_blacklist_entry (key_image_blacklist st)"

section \<open>The contract of the readers and writers\<close>

context element_codec
begin

lemma container_load_store:
  "valid_list valid xs \<Longrightarrow> do_serialize_container_load load (do_serialize_container_store store xs @ rest) = Some (xs, rest)"
  by (intro container_round_trip) (auto simp: valid_list_def list_all_iff)

end

lemma varint_load_store [simp]:
  "LENGTH('a) \<le> 64 \<Longrightarrow> serialize_varint_load (serialize_varint_store v @ rest) = Some (v :: 'a::len word, rest)"
proof -
  assume len: "LENGTH('a) \<le> 64"
  have "unat v < 2 ^ LENGTH('a)" by (rule unsigned_less)
  also have "\<dots> \<le> 2 ^ 64" using len by (rule power_increasing) simp
  finally have u: "unat (ucast v :: u64) = unat v" by (simp add: unsigned_ucast_eq take_bit_nat_eq_self)
  obtain r where "read_varint_loop LENGTH('a) 0 0 0 (write_varint (ucast v) @ rest) = (int (length (write_varint (ucast v))), r, rest)"
    "unat r = unat v"
    using read_write_loop [of "ucast v" 0 "LENGTH('a)" 0 0 rest] len u unsigned_less [of v] by auto
  moreover from this(2) have "r = ucast v" using u by (simp add: word_unat_eq_iff)
  moreover have "ucast (ucast v :: u64) = v"
  proof -
    have "ucast (ucast v :: u64) = (word_of_nat (unat (ucast v :: u64)) :: 'a word)" by simp
    also have "\<dots> = v" unfolding u by simp
    finally show ?thesis .
  qed
  ultimately show ?thesis
    by (simp add: serialize_varint_load_def serialize_varint_store_def)
qed

lemma varint_store_not_Nil [simp]: "serialize_varint_store v \<noteq> []"
  by (simp add: serialize_varint_store_def)

lemmas load_simps [simp] = blob_round_trip address_round_trip_reader

interpretation contribution: element_codec contribution_store contribution_load valid_contribution
proof
  show "contribution_load (contribution_store x @ rest) = Some (x, rest)" if "valid_contribution x" for x rest
    using that by (simp add: contribution_load_def contribution_store_def valid_contribution_def)
  show "contribution_store x \<noteq> []" for x by (simp add: contribution_store_def)
qed

interpretation contributor: element_codec contributor_store contributor_load valid_contributor
proof
  show "contributor_load (contributor_store x @ rest) = Some (x, rest)" if "valid_contributor x" for x rest
    using that
    by (cases x) (auto simp: contributor_load_def contributor_store_def valid_contributor_def contribution.container_load_store not_le)
  show "contributor_store x \<noteq> []" for x by (simp add: contributor_store_def)
qed

interpretation info: element_codec info_store "info_load u" "valid_info u" for u
proof
  show "info_load u (info_store x @ rest) = Some (x, rest)" if "valid_info u x" for x rest
    using that
    by (cases x) (auto simp: info_load_def info_store_def valid_info_def contributor.container_load_store not_le)
  show "info_store x \<noteq> []" for x by (simp add: info_store_def)
qed

interpretation pubkey_info: element_codec pubkey_info_store "pubkey_info_load u" "\<lambda>p. length (fst p) = 32 \<and> valid_info u (snd p)" for u
proof
  show "pubkey_info_load u (pubkey_info_store x @ rest) = Some (x, rest)"
    if "length (fst x) = 32 \<and> valid_info u (snd x)" for x rest
    using that by (simp add: pubkey_info_load_def pubkey_info_store_def info.load_store)
  show "pubkey_info_store x \<noteq> []" for x by (simp add: pubkey_info_store_def info_store_def)
qed

interpretation blacklist_entry: element_codec blacklist_entry_store blacklist_entry_load valid_blacklist_entry
proof
  show "blacklist_entry_load (blacklist_entry_store x @ rest) = Some (x, rest)" if "valid_blacklist_entry x" for x rest
    using that by (simp add: blacklist_entry_load_def blacklist_entry_store_def valid_blacklist_entry_def)
  show "blacklist_entry_store x \<noteq> []" for x by (simp add: blacklist_entry_store_def)
qed

lemma byte_load [simp]:
  "serialize_uint_load (Suc 0) (t # bs) = Some (t :: u8, bs)" "serialize_blob_load (Suc 0) (t # bs) = Some ([t], bs)"
  by (simp_all add: serialize_uint_load_def serialize_blob_load_def)

lemma byte_mask [simp]: "(v :: u8) AND 255 = v"
proof -
  have "(255 :: u8) = - 1" by simp
  then show ?thesis by (simp only: and.right_neutral)
qed

interpretation event: element_codec event_store "event_load u" "valid_event u" for u
proof
  show "event_load u (event_store x @ rest) = Some (x, rest)" if "valid_event u x" for x rest
    using that
    by (cases x) (simp_all add: event_load_def info.load_store blacklist_entry.load_store)
  show "event_store x \<noteq> []" for x by (cases x) simp_all
qed

interpretation quorum: element_codec quorum_store quorum_load "\<lambda>q. valid_quorum (qs_state q)"
proof
  show "quorum_load (quorum_store x @ rest) = Some (x, rest)" if "valid_quorum (qs_state x)" for x rest
    using that by (simp add: quorum_load_def quorum_store_def valid_quorum_def key_codec.container_load_store uint_round_trip)
  show "quorum_store x \<noteq> []" for x by (simp add: quorum_store_def flip: length_0_conv)
qed

interpretation data: element_codec data_store "data_load u" "valid_data u" for u
proof
  show "data_load u (data_store x @ rest) = Some (x, rest)" if "valid_data u x" for x rest
    using that
    by (cases x) (auto simp: data_load_def data_store_def valid_data_def not_le quorum.container_load_store uint_round_trip
        pubkey_info.container_load_store event.container_load_store blacklist_entry.container_load_store)
  show "data_store x \<noteq> []" for x by (simp add: data_store_def)
qed

section \<open>Filling the maps\<close>

lemma quorums_filled:
  "sorted_wrt (<) (map fst (old @ qs)) \<Longrightarrow>
   fold (\<lambda>q. set_quorum (qs_height q) (qs_state q)) (map (\<lambda>(h, q). \<lparr>qs_version = qv, qs_height = h, qs_state = q\<rparr>) qs) old = old @ qs"
proof (induction qs arbitrary: old)
  case (Cons p qs)
  obtain h q where p: "p = (h, q)" by force
  have "\<forall>x \<in> set old. fst x < h" using Cons.prems p by (auto simp: sorted_wrt_append)
  then have "set_quorum h q old = old @ [p]" using set_quorum_old [of old h q "[]"] p by simp
  then show ?case using Cons p by simp
qed simp

lemma update_new: "k \<notin> fst ` set l \<Longrightarrow> AList.update k v l = l @ [(k, v)]"
  by (induction l) auto

lemma put_nodes_fields:
  "fold (\<lambda>(key, info). put_node key info) ps st
   = st\<lparr>full_nodes_infos := fold (\<lambda>(key, info). AList.update key info) ps (full_nodes_infos st)\<rparr>"
  by (induction ps arbitrary: st) (auto simp: put_node_def)

lemma nodes_filled: "distinct (map fst (old @ ps)) \<Longrightarrow> fold (\<lambda>(key, info). AList.update key info) ps old = old @ ps"
proof (induction ps arbitrary: old)
  case (Cons p ps)
  then have "AList.update (fst p) (snd p) old = old @ [p]" by (cases p) (simp add: update_new)
  then show ?case using Cons by (simp add: split_beta)
qed simp

section \<open>Restarting\<close>

definition storage_version :: "chain_view \<Rightarrow> transient_state \<Rightarrow> u8" where
  "storage_version chain st = get_min_full_node_info_version_for_hf (hard_fork_version chain (state_height st - 1))"

text \<open>
  What is kept of a state: locked contributions of new contributors only, the swarm of a node from its version 1 on, and
  the blacklist from the hard fork on that brings it. The types demand no more than the lengths of keys and lists.
\<close>

definition typed_contributor :: "contributor_t \<Rightarrow> bool" where
  "typed_contributor c \<longleftrightarrow> valid_address (cr_address c) \<and> valid_list valid_contribution (locked_contributions c)"

definition typed_info :: "full_node_info \<Rightarrow> bool" where
  "typed_info i \<longleftrightarrow> valid_list typed_contributor (contributors i) \<and> valid_address (operator_address i)"

fun typed_event :: "rollback_event \<Rightarrow> bool" where
  "typed_event (rollback_change h key info) \<longleftrightarrow> length key = 32 \<and> typed_info info"
| "typed_event e \<longleftrightarrow> valid_event 0 e"

definition typed_state :: "transient_state \<Rightarrow> bool" where
  "typed_state st \<longleftrightarrow>
     valid_list (\<lambda>(h, q). valid_quorum q) (quorum_states st) \<and> sorted_wrt (<) (map fst (quorum_states st))
     \<and> valid_list (\<lambda>(k, i). length k = 32 \<and> typed_info i) (full_nodes_infos st) \<and> distinct (map fst (full_nodes_infos st))
     \<and> valid_list typed_event (rollback_events st) \<and> valid_list valid_blacklist_entry (key_image_blacklist st)"

definition kept_contributor :: "contributor_t \<Rightarrow> contributor_t" where
  "kept_contributor c = (if cr_version c \<ge> 2 then c else c\<lparr>locked_contributions := []\<rparr>)"

definition kept_info :: "u64 \<Rightarrow> full_node_info \<Rightarrow> full_node_info" where
  "kept_info u i = i\<lparr>contributors := map kept_contributor (contributors i), swarm_id := (if info_version i \<ge> 1 then swarm_id i else u)\<rparr>"

fun kept_event :: "u64 \<Rightarrow> rollback_event \<Rightarrow> rollback_event" where
  "kept_event u (rollback_change h key info) = rollback_change h key (kept_info u info)"
| "kept_event u e = e"

definition kept_state :: "u64 \<Rightarrow> chain_view \<Rightarrow> transient_state \<Rightarrow> transient_state" where
  "kept_state u chain st = st\<lparr>full_nodes_infos := map (\<lambda>(k, i). (k, kept_info u i)) (full_nodes_infos st),
     rollback_events := map (kept_event u) (rollback_events st),
     key_image_blacklist := (if storage_version chain st \<ge> 2 then key_image_blacklist st else [])\<rparr>"

lemma container_store_map:
  "(\<And>x. store (f x) = store x) \<Longrightarrow> do_serialize_container_store store (map f xs) = do_serialize_container_store store xs"
  by (simp add: do_serialize_container_store_def comp_def)

text \<open>Nothing else is written, and what is kept can be read back.\<close>

lemma kept_contributor_store: "contributor_store (kept_contributor c) = contributor_store c"
  by (simp add: kept_contributor_def contributor_store_def)

lemma kept_info_store: "info_store (kept_info u i) = info_store i"
  by (simp add: kept_info_def info_store_def container_store_map [of contributor_store kept_contributor, OF kept_contributor_store])

lemma kept_event_store: "event_store (kept_event u e) = event_store e"
  by (cases e) (simp_all add: kept_info_store)

lemma kept_info_valid: "typed_info i \<Longrightarrow> valid_info u (kept_info u i)"
  by (auto simp: typed_info_def valid_info_def kept_info_def kept_contributor_def typed_contributor_def valid_contributor_def
      valid_list_def list_all_iff not_le)

lemma kept_event_valid: "typed_event e \<Longrightarrow> valid_event u (kept_event u e)"
  by (cases e) (simp_all add: kept_info_valid)

lemma kept_state_valid: "typed_state st \<Longrightarrow> valid_state u (kept_state u chain st)"
  by (auto simp: typed_state_def valid_state_def kept_state_def valid_list_def list_all_iff comp_def case_prod_beta'
      kept_info_valid kept_event_valid)

lemma kept_state_store: "data_store (data_to_store qv chain (kept_state u chain st)) = data_store (data_to_store qv chain st)"
proof -
  have "do_serialize_container_store pubkey_info_store (map (\<lambda>(k, i). (k, kept_info u i)) ps)
      = do_serialize_container_store pubkey_info_store ps" for ps
    by (rule container_store_map) (auto simp: pubkey_info_store_def kept_info_store)
  moreover have "do_serialize_container_store event_store (map (kept_event u) es) = do_serialize_container_store event_store es" for es
    by (rule container_store_map) (simp add: kept_event_store)
  ultimately show ?thesis
    by (simp add: kept_state_def data_store_def data_to_store_def storage_version_def)
qed

text \<open>A state that has nothing a version leaves out is kept as it is.\<close>

lemma valid_kept_info: "valid_info u i \<Longrightarrow> typed_info i \<and> kept_info u i = i"
proof -
  assume i: "valid_info u i"
  then have "map kept_contributor (contributors i) = contributors i"
    by (intro map_idI) (auto simp: valid_info_def valid_list_def list_all_iff valid_contributor_def kept_contributor_def not_le)
  then show ?thesis
    using i by (auto simp: valid_info_def typed_info_def kept_info_def valid_list_def list_all_iff valid_contributor_def typed_contributor_def not_le)
qed

lemma valid_kept_event: "valid_event u e \<Longrightarrow> typed_event e \<and> kept_event u e = e"
  by (cases e) (auto simp: valid_kept_info dest: valid_kept_info)

lemma valid_kept_state:
  assumes "valid_state u st"
  shows "kept_state u chain st = (if storage_version chain st \<ge> 2 then st else st\<lparr>key_image_blacklist := []\<rparr>)"
proof -
  have "map (\<lambda>(k, i). (k, kept_info u i)) (full_nodes_infos st) = full_nodes_infos st"
    using assms valid_kept_info by (intro map_idI) (force simp: valid_state_def valid_list_def list_all_iff)
  moreover have "map (kept_event u) (rollback_events st) = rollback_events st"
    using assms valid_kept_event by (intro map_idI) (simp add: valid_state_def valid_list_def list_all_iff)
  ultimately show ?thesis by (simp add: kept_state_def)
qed

lemma data_to_store_valid:
  "valid_state u st \<Longrightarrow> storage_version chain st < 2 \<longrightarrow> key_image_blacklist st = [] \<Longrightarrow> valid_data u (data_to_store qv chain st)"
  by (auto simp: valid_state_def valid_data_def data_to_store_def storage_version_def valid_list_def list_all_iff split_beta)

lemma restored_state:
  assumes "valid_state u st"
  shows "restore_state (data_to_store qv chain st) (clear chain') = st"
proof -
  have "sorted_wrt (<) (map fst ([] @ quorum_states st))" "distinct (map fst ([] @ full_nodes_infos st))"
    using assms by (simp_all add: valid_state_def)
  from quorums_filled [OF this(1), of qv] nodes_filled [OF this(2)] show ?thesis
    by (simp add: restore_state_def clear_def data_to_store_def put_nodes_fields Let_def)
qed

lemma load_stored:
  assumes "typed_state st"
  shows "load_state u chain' (Some (Some (data_store (data_to_store qv chain st)))) = (True, kept_state u chain st)"
proof -
  let ?st = "kept_state u chain st"
  have v: "valid_state u ?st" using assms by (rule kept_state_valid)
  moreover have "storage_version chain ?st < 2 \<longrightarrow> key_image_blacklist ?st = []"
    by (simp add: kept_state_def storage_version_def not_le [symmetric])
  ultimately have "parse_binary (data_load u) (data_store (data_to_store qv chain ?st)) = Some (data_to_store qv chain ?st)"
    by (intro data.parse_binary_store data_to_store_valid)
  then show ?thesis using restored_state [OF v] by (simp add: load_state_def kept_state_store)
qed

text \<open>A small state.\<close>

definition test_address :: account_public_address where
  "test_address = \<lparr>m_spend_public_key = replicate 32 1, m_view_public_key = replicate 32 2\<rparr>"

definition test_info :: "u8 \<Rightarrow> full_node_info" where
  "test_info v = empty_info\<lparr>info_version := v, staking_requirement := 100, operator_address := test_address,
     contributors := [\<lparr>cr_version = v, cr_amount = 0, cr_reserved = 100, cr_address = test_address, locked_contributions = []\<rparr>]\<rparr>"

definition test_contribution :: contribution_t where
  "test_contribution = \<lparr>ct_version = 2, ct_key_image_pub_key = replicate 32 3, ct_key_image = replicate 32 4, ct_amount = 100\<rparr>"

definition test_state :: transient_state where
  "test_state = \<lparr>full_nodes_infos = [(replicate 32 7, test_info 2)],
     key_image_blacklist = [\<lparr>be_version = 2, be_key_image = replicate 32 5, be_unlock_height = 300\<rparr>],
     quorum_states = [(4, \<lparr>quorum_nodes = [replicate 32 7], nodes_to_test = []\<rparr>), (9, \<lparr>quorum_nodes = [], nodes_to_test = []\<rparr>)],
     rollback_events = [prevent_rollback 3, rollback_new 8 (replicate 32 7)], state_height = 10\<rparr>"

lemma valid_test_state: "valid_state u test_state"
  by (simp add: valid_state_def test_state_def valid_list_def valid_quorum_def valid_info_def valid_contributor_def
      test_info_def test_address_def valid_address_def valid_blacklist_entry_def)

lemma typed_test_state: "typed_state test_state" "typed_state (test_state\<lparr>full_nodes_infos := [(replicate 32 7, test_info 0)]\<rparr>)"
  by (simp_all add: typed_state_def test_state_def valid_list_def valid_quorum_def typed_info_def typed_contributor_def
      test_info_def test_address_def valid_address_def valid_blacklist_entry_def)

text \<open>A contribution to a node keeps the version and the address of the contributor and locks its key images.\<close>

lemma add_locked_contributor:
  "n < length (contributors info) \<Longrightarrow>
   \<exists>l. contributors (add_locked n cs info) ! n = (contributors info ! n)\<lparr>locked_contributions := locked_contributions (contributors info ! n) @ l\<rparr>"
proof (induction n cs info rule: add_locked.induct)
  case (2 n c rest info)
  show ?case
  proof (cases "total_num_locked_contributions info < MAX_KEY_IMAGES_PER_CONTRIBUTOR * MAX_NUMBER_OF_CONTRIBUTORS")
    case True
    let ?c = "contributors info ! n"
    let ?i = "set_contributor n (?c\<lparr>locked_contributions := locked_contributions ?c @ [c]\<rparr>) info"
    have "n < length (contributors ?i)" using 2(2) by (simp add: set_contributor_def)
    from 2(1) [OF True refl this] obtain l where
      "contributors (add_locked n rest ?i) ! n = (contributors ?i ! n)\<lparr>locked_contributions := locked_contributions (contributors ?i ! n) @ l\<rparr>"
      by blast
    then show ?thesis using True 2(2) by (intro exI [of _ "c # l"]) (simp add: set_contributor_def Let_def)
  next
    case False
    then show ?thesis by (intro exI [of _ "[]"]) simp
  qed
qed (intro exI [of _ "[]"], simp)

lemma total_locked_map:
  "map locked_contributions (contributors i) = map locked_contributions (contributors j)
   \<Longrightarrow> total_num_locked_contributions i = total_num_locked_contributions j"
proof -
  have "total_num_locked_contributions k = fold (\<lambda>l result. result + word_of_nat (length l)) (map locked_contributions (contributors k)) 0" for k
    by (simp add: total_num_locked_contributions_def fold_map comp_def)
  then show "map locked_contributions (contributors i) = map locked_contributions (contributors j) \<Longrightarrow> ?thesis" by simp
qed

lemma case_if_pair:
  "(case if P then (a, b) else (c, d) of (x, y) \<Rightarrow> f x y) = f (if P then a else c) (if P then b else d)"
  by simp

lemma apply_contribution_locks:
  fixes h :: u64 and idx :: u32
  assumes "n < length (contributors info)" and "hf \<ge> network_version_11_infinite_staking" and "pc_locked_contributions parsed \<noteq> []"
    and "total_num_locked_contributions info < MAX_KEY_IMAGES_PER_CONTRIBUTOR * MAX_NUMBER_OF_CONTRIBUTORS"
  defines "c \<equiv> contributors (apply_contribution hf h idx parsed n info) ! n"
  shows "cr_version c = cr_version (contributors info ! n)" and "cr_address c = cr_address (contributors info ! n)"
    and "locked_contributions c \<noteq> []"
proof -
  let ?c = "contributors info ! n"
  obtain c' info' where
    e: "apply_contribution hf h idx parsed n info = add_locked n (pc_locked_contributions parsed) (set_contributor n c' info')"
    and c': "cr_version c' = cr_version ?c" "cr_address c' = cr_address ?c" "locked_contributions c' = locked_contributions ?c"
    and i': "contributors info' = contributors info"
    by (rule that, unfold apply_contribution_def Let_def, subst case_if_pair, subst if_P [OF assms(2)], rule refl) simp_all
  define j where "j = set_contributor n c' info'"
  have j: "n < length (contributors j)" "contributors j ! n = c'" using assms(1) i' by (simp_all add: j_def set_contributor_def)
  have "map locked_contributions (contributors j) = map locked_contributions (contributors info)"
    using c'(3) assms(1) i' by (intro nth_equalityI) (auto simp: j_def set_contributor_def nth_list_update)
  then have room: "total_num_locked_contributions j < MAX_KEY_IMAGES_PER_CONTRIBUTOR * MAX_NUMBER_OF_CONTRIBUTORS"
    using assms(4) total_locked_map by metis
  obtain x xs where cs: "pc_locked_contributions parsed = x # xs" using assms(3) by (cases "pc_locked_contributions parsed") auto
  let ?k = "set_contributor n (c'\<lparr>locked_contributions := locked_contributions c' @ [x]\<rparr>) j"
  have k: "n < length (contributors ?k)" "contributors ?k ! n = c'\<lparr>locked_contributions := locked_contributions c' @ [x]\<rparr>"
    using j(1) by (simp_all add: set_contributor_def)
  obtain l where "c = (contributors ?k ! n)\<lparr>locked_contributions := locked_contributions (contributors ?k ! n) @ l\<rparr>"
    using add_locked_contributor [OF k(1), of xs] room j unfolding c_def e j_def [symmetric] cs by (auto simp: Let_def)
  then show "cr_version c = cr_version ?c" "cr_address c = cr_address ?c" "locked_contributions c \<noteq> []"
    using c' k(2) by simp_all
qed

text \<open>
  C7. A restart restores the full node list. What is stored after a block is loaded again with its nodes, quorums,
  rollback events and height. What the versions leave out is lost: locked contributions of contributors of an old
  version, the swarm of a node of the oldest version, which is uninitialised afterwards, and the blacklist of key
  images before the hard fork that brings infinite staking. A state whose old nodes have none of these is the same
  again, but for the blacklist.
\<close>

theorem stored_state_restored:
  assumes "typed_state st" and "hard_fork_version chain (current_height chain) \<ge> network_version_9_full_nodes"
  shows "\<exists>db. store_state qv chain st (Some old) = (True, db) \<and> load_state u chain' db = (True, kept_state u chain st)
    \<and> (valid_state u st \<longrightarrow>
         load_state u chain' db = (True, if get_min_full_node_info_version_for_hf (hard_fork_version chain (state_height st - 1)) \<ge> 2
           then st else st\<lparr>key_image_blacklist := []\<rparr>))"
  using load_stored [OF assms(1)] valid_kept_state [of u st chain, unfolded storage_version_def] assms(2)
  by (simp add: store_state_def not_le [symmetric])

theorem stored_state_restored_witness:
  "(\<exists>db. store_state 0 (small_chain\<lparr>hard_fork_version := \<lambda>_. 11\<rparr>) test_state (Some None) = (True, db)
     \<and> load_state 9 small_chain db = (True, test_state))
   \<and> (\<exists>db. store_state 0 (small_chain\<lparr>hard_fork_version := \<lambda>_. 11\<rparr>) (test_state\<lparr>full_nodes_infos := [(replicate 32 7, test_info 0)]\<rparr>)
        (Some None) = (True, db)
     \<and> load_state 9 small_chain db = (True, test_state\<lparr>full_nodes_infos := [(replicate 32 7, (test_info 0)\<lparr>swarm_id := 9\<rparr>)]\<rparr>))"
proof
  have hf: "hard_fork_version (small_chain\<lparr>hard_fork_version := \<lambda>_. 11\<rparr>) (current_height (small_chain\<lparr>hard_fork_version := \<lambda>_. 11\<rparr>))
      \<ge> network_version_9_full_nodes"
    by (simp add: network_version_9_full_nodes_def)
  have two: "get_min_full_node_info_version_for_hf 11 = 2"
    by (simp add: get_min_full_node_info_version_for_hf_def network_version_9_full_nodes_def network_version_10_bulletproofs_def)
  show "\<exists>db. store_state 0 (small_chain\<lparr>hard_fork_version := \<lambda>_. 11\<rparr>) test_state (Some None) = (True, db)
     \<and> load_state 9 small_chain db = (True, test_state)"
    using stored_state_restored [OF typed_test_state(1) hf, of 0 None 9 small_chain] valid_test_state [of 9] by (simp add: two) blast
  have old: "kept_state 9 (small_chain\<lparr>hard_fork_version := \<lambda>_. 11\<rparr>) (test_state\<lparr>full_nodes_infos := [(replicate 32 7, test_info 0)]\<rparr>)
      = test_state\<lparr>full_nodes_infos := [(replicate 32 7, (test_info 0)\<lparr>swarm_id := 9\<rparr>)]\<rparr>"
    by (simp add: kept_state_def storage_version_def two) (simp add: test_state_def kept_info_def test_info_def kept_contributor_def)
  show "\<exists>db. store_state 0 (small_chain\<lparr>hard_fork_version := \<lambda>_. 11\<rparr>) (test_state\<lparr>full_nodes_infos := [(replicate 32 7, test_info 0)]\<rparr>)
        (Some None) = (True, db)
     \<and> load_state 9 small_chain db = (True, test_state\<lparr>full_nodes_infos := [(replicate 32 7, (test_info 0)\<lparr>swarm_id := 9\<rparr>)]\<rparr>)"
    using stored_state_restored [OF typed_test_state(2) hf, of 0 None 9 small_chain] unfolding old by blast
qed

text \<open>
  C37. Key images are forgotten by a restart. A contributor that was registered before the hard fork of infinite
  staking keeps its old version when it contributes after it. Its contribution is locked, but locked contributions
  are written for new versions only: what is read back is the contributor without them.
\<close>

theorem old_contributor_stake_forgotten:
  assumes "n < length (contributors info)" and "cr_version (contributors info ! n) < 2"
    and "valid_address (cr_address (contributors info ! n))" and "hf \<ge> network_version_11_infinite_staking"
    and "pc_locked_contributions parsed \<noteq> []"
    and "total_num_locked_contributions info < MAX_KEY_IMAGES_PER_CONTRIBUTOR * MAX_NUMBER_OF_CONTRIBUTORS"
  shows "let c = contributors (apply_contribution hf h idx parsed n info) ! n
    in locked_contributions c \<noteq> []
       \<and> contributor_load (contributor_store c @ rest) = Some (c\<lparr>locked_contributions := []\<rparr>, rest)"
proof -
  let ?c = "contributors (apply_contribution hf h idx parsed n info) ! n"
  note locks = apply_contribution_locks [OF assms(1,4,5,6), of h idx]
  have "contributor_store ?c = contributor_store (?c\<lparr>locked_contributions := []\<rparr>)"
    using locks(1) assms(2) by (simp add: contributor_store_def not_le [symmetric])
  moreover have "valid_contributor (?c\<lparr>locked_contributions := []\<rparr>)"
    using locks(2) assms(3) by (simp add: valid_contributor_def valid_list_def)
  ultimately show ?thesis using locks(3) contributor.load_store by (simp add: Let_def)
qed

theorem old_contributor_stake_forgotten_witness:
  "let c = contributors (apply_contribution 11 20 0
       \<lparr>pc_address = test_address, transferred = 100, pc_tx_key = [], pc_locked_contributions = [test_contribution]\<rparr> 0 (test_info 1)) ! 0
   in locked_contributions c \<noteq> [] \<and> contributor_load (contributor_store c @ []) = Some (c\<lparr>locked_contributions := []\<rparr>, [])"
  by (rule old_contributor_stake_forgotten)
    (simp_all add: test_info_def test_address_def valid_address_def network_version_11_infinite_staking_def
      total_num_locked_contributions_def MAX_KEY_IMAGES_PER_CONTRIBUTOR_def MAX_NUMBER_OF_CONTRIBUTORS_def)

end
