(* ===== verification/Money.thy ===== *)
theory Money
  imports Text
begin

text \<open>
  Amounts as text (cryptonote_basic/cryptonote_format_utils.cpp): an amount in atomic units is printed with a
  decimal point, and parsed again. The conversion of a number by boost and the removal of white space at the ends
  are parameters, \<open>lexical_cast\<close> and \<open>trim\<close>; the default decimal point, a global variable, is an argument.
\<close>

section \<open>The code\<close>

definition CRYPTONOTE_DISPLAY_DECIMAL_POINT :: u32 where "CRYPTONOTE_DISPLAY_DECIMAL_POINT = 9"

text \<open>\<^const>\<open>None\<close> is the exception.\<close>

definition set_default_decimal_point :: "u32 \<Rightarrow> u32 option" where
  "set_default_decimal_point decimal_point = (if decimal_point \<in> {9, 6, 3, 0} then Some decimal_point else None)"

definition get_unit :: "u32 \<Rightarrow> u32 \<Rightarrow> string option" where
  "get_unit default_decimal_point decimal_point =
     (let decimal_point = (if decimal_point = - 1 then default_decimal_point else decimal_point)
      in if decimal_point = 9 then Some ''antd''
         else if decimal_point = 6 then Some ''megarok''
         else if decimal_point = 3 then Some ''kilorok''
         else if decimal_point = 0 then Some ''rok''
         else None)"

definition print_money :: "u32 \<Rightarrow> u64 \<Rightarrow> u32 \<Rightarrow> string" where
  "print_money default_decimal_point amount decimal_point =
     (let decimal_point = (if decimal_point = - 1 then default_decimal_point else decimal_point);
          s = to_string_u64 amount;
          s = (if length s < unat (decimal_point + 1) then replicate (unat (decimal_point + 1) - length s) CHR ''0'' @ s else s)
      in if decimal_point > 0
         then take (length s - unat decimal_point) s @ ''.'' @ drop (length s - unat decimal_point) s
         else s)"

definition is_digit :: "char \<Rightarrow> bool" where
  "is_digit c \<longleftrightarrow> (let n = of_char c :: nat in 48 \<le> n \<and> n \<le> 57)"

definition get_u64_from_string :: "(string \<Rightarrow> u64 option) \<Rightarrow> string \<Rightarrow> u64 option" where
  "get_u64_from_string lexical_cast str_id = (if \<not> list_all is_digit str_id then None else lexical_cast str_id)"

text \<open>The loop that drops zeros at the end while the fraction is too long.\<close>

fun drop_zeros :: "nat \<Rightarrow> string \<Rightarrow> nat \<Rightarrow> string \<times> nat" where
  "drop_zeros default_decimal_point str_amount 0 = (str_amount, 0)"
| "drop_zeros default_decimal_point str_amount (Suc fraction) =
     (if default_decimal_point < Suc fraction \<and> last str_amount = CHR ''0''
      then drop_zeros default_decimal_point (butlast str_amount) fraction
      else (str_amount, Suc fraction))"

definition parse_amount :: "(string \<Rightarrow> u64 option) \<Rightarrow> (string \<Rightarrow> string) \<Rightarrow> u32 \<Rightarrow> string \<Rightarrow> u64 option" where
  "parse_amount lexical_cast trim default_decimal_point text =
     (let str_amount = trim text;
          dp = unat default_decimal_point
      in do {
        (str_amount, fraction_size) \<leftarrow>
          (if CHR ''.'' \<in> set str_amount
           then let point_index = length (takeWhile (\<lambda>c. c \<noteq> CHR ''.'') str_amount);
                    (str_amount, fraction_size) = drop_zeros dp str_amount (length str_amount - point_index - 1)
                in if dp < fraction_size then None
                   else Some (take point_index str_amount @ drop (Suc point_index) str_amount, fraction_size)
           else Some (str_amount, 0));
        if str_amount = [] then None
        else get_u64_from_string lexical_cast
          (if fraction_size < dp then str_amount @ replicate (dp - fraction_size) CHR ''0'' else str_amount)
      })"

section \<open>The value of digits\<close>

definition digits_val :: "string \<Rightarrow> nat" where
  "digits_val s = foldl (\<lambda>v c. 10 * v + (of_char c - 48)) 0 s"

text \<open>What is relied on of boost: digits are converted when their value fits, and nothing of a plain amount is trimmed.\<close>

definition converts :: "(string \<Rightarrow> u64 option) \<Rightarrow> bool" where
  "converts lexical_cast \<longleftrightarrow> (\<forall>s. s \<noteq> [] \<and> list_all is_digit s \<longrightarrow>
     lexical_cast s = (if digits_val s < 2 ^ 64 then Some (of_nat (digits_val s)) else None))"

definition trims :: "(string \<Rightarrow> string) \<Rightarrow> bool" where
  "trims trim \<longleftrightarrow> (\<forall>s. list_all (\<lambda>c. is_digit c \<or> c = CHR ''.'') s \<longrightarrow> trim s = s)"

lemma digits_val_append: "digits_val (s @ t) = digits_val s * 10 ^ length t + digits_val t"
proof -
  have "foldl (\<lambda>v c. 10 * v + (of_char c - 48)) a t = a * 10 ^ length t + foldl (\<lambda>v c. 10 * v + (of_char c - 48)) 0 t" for a :: nat
  proof (induction t rule: rev_induct)
    case (snoc c t)
    then show ?case by (simp add: algebra_simps)
  qed simp
  then show ?thesis unfolding digits_val_def foldl_append by blast
qed

lemma digits_val_zeros [simp]: "digits_val (replicate n CHR ''0'') = 0"
proof (induction n)
  case (Suc n)
  have "digits_val (replicate (Suc n) CHR ''0'') = digits_val [CHR ''0''] * 10 ^ n + digits_val (replicate n CHR ''0'')"
    using digits_val_append [of "[CHR ''0'']" "replicate n CHR ''0''"] by simp
  then show ?case using Suc by (simp add: digits_val_def)
qed (simp add: digits_val_def)

lemma digit_char: "d < 10 \<Longrightarrow> is_digit (digit_char d) \<and> digits_val [digit_char d] = d"
proof -
  assume "d < 10"
  then have "d \<in> set [0..<10]" by simp
  moreover have "list_all (\<lambda>d. is_digit (digit_char d) \<and> digits_val [digit_char d] = d) [0..<10]" by code_simp
  ultimately show ?thesis by (simp only: list_all_iff)
qed

lemma decimal_digits: "list_all is_digit (decimal n) \<and> digits_val (decimal n) = n \<and> decimal n \<noteq> []"
proof (induction n rule: decimal.induct)
  case (1 n)
  show ?case
  proof (cases "n < 10")
    case True
    then show ?thesis using digit_char [of n] by (simp add: decimal.simps [of n])
  next
    case False
    have "decimal n = decimal (n div 10) @ [digit_char (n mod 10)]" using False by (subst decimal.simps) simp
    then show ?thesis using 1 [OF False] digit_char [of "n mod 10"] by (simp add: digits_val_append)
  qed
qed

section \<open>Parsing\<close>

lemma drop_zeros_fraction:
  "drop_zeros dp (p @ f) (length f) = (let f' = take dp f @ rev (dropWhile (\<lambda>c. c = CHR ''0'') (rev (drop dp f))) in (p @ f', length f'))"
proof (induction f rule: rev_induct)
  case (snoc x f)
  show ?case
  proof (cases "dp \<le> length f")
    case True
    then show ?thesis using snoc by (auto simp: Let_def butlast_append)
  next
    case False
    then show ?thesis by (auto simp: Let_def)
  qed
qed simp

lemma digit_not_point: "is_digit c \<Longrightarrow> c \<noteq> CHR ''.''"
  by (auto simp: is_digit_def)

lemma digit_zero [simp]: "is_digit CHR ''0''"
  by (simp add: is_digit_def)

lemma split_at_point:
  assumes "list_all is_digit i"
  shows "length (takeWhile (\<lambda>c. c \<noteq> CHR ''.'') (i @ CHR ''.'' # f)) = length i"
  using assms by (induction i) (auto dest: digit_not_point)

lemma parse_digits:
  assumes "converts lexical_cast" and "list_all is_digit s" and "s \<noteq> []"
  shows "get_u64_from_string lexical_cast (s @ replicate n CHR ''0'')
    = (if digits_val s * 10 ^ n < 2 ^ 64 then Some (of_nat (digits_val s * 10 ^ n)) else None)"
proof -
  have d: "list_all is_digit (s @ replicate n CHR ''0'')" using assms(2) by (auto simp: list_all_iff)
  have "digits_val (s @ replicate n CHR ''0'') = digits_val s * 10 ^ n" by (simp add: digits_val_append)
  then show ?thesis
    using assms(1,3) d unfolding converts_def get_u64_from_string_def by (metis Nil_is_append_conv)
qed

lemma parse_amount_fraction:
  fixes decimal_point :: u32
  assumes "converts lexical_cast" and "trims trim" and "list_all is_digit i" and "list_all is_digit f"
  defines "dp \<equiv> unat decimal_point"
  shows "parse_amount lexical_cast trim decimal_point (i @ ''.'' @ f) =
    (if i @ take dp f = [] \<or> \<not> list_all (\<lambda>c. c = CHR ''0'') (drop dp f) then None
     else let v = digits_val (i @ take dp f) * 10 ^ (dp - length f)
          in if v < 2 ^ 64 then Some (of_nat v) else None)"
proof -
  let ?f = "take dp f @ rev (dropWhile (\<lambda>c. c = CHR ''0'') (rev (drop dp f)))"
  have trim: "trim (i @ CHR ''.'' # f) = i @ CHR ''.'' # f"
  proof -
    have "list_all (\<lambda>c. is_digit c \<or> c = CHR ''.'') (i @ CHR ''.'' # f)" using assms(3,4) by (auto simp: list_all_iff)
    then show ?thesis using assms(2) unfolding trims_def by blast
  qed
  have z: "drop_zeros dp (i @ CHR ''.'' # f) (length f) = (i @ CHR ''.'' # ?f, length ?f)"
    using drop_zeros_fraction [of dp "i @ ''.''" f] by (simp add: Let_def)
  have zeros: "dropWhile (\<lambda>c. c = CHR ''0'') (rev (drop dp f)) = [] \<longleftrightarrow> list_all (\<lambda>c. c = CHR ''0'') (drop dp f)"
    by (auto simp: list_all_iff)
  show ?thesis
  proof (cases "list_all (\<lambda>c. c = CHR ''0'') (drop dp f)")
    case True
    then have f': "?f = take dp f" using zeros by simp
    have "list_all is_digit (i @ take dp f)" using assms(3,4) by (auto simp: list_all_iff dest: in_set_takeD)
    note digits = parse_digits [OF assms(1) this, of "dp - length f"]
    show ?thesis
    proof (cases "i @ take dp f = []")
      case False
      then show ?thesis
        using digits True z trim unfolding f' parse_amount_def dp_def [symmetric]
        by (auto simp: split_at_point [OF assms(3)] Let_def)
    qed (use z trim in \<open>simp add: f' parse_amount_def dp_def [symmetric] Let_def\<close>)
  next
    case False
    then have "dropWhile (\<lambda>c. c = CHR ''0'') (rev (drop dp f)) \<noteq> []" using zeros by simp
    moreover from this have "dp < length f" by (cases "dp < length f") auto
    ultimately have "dp < length ?f" by simp
    then show ?thesis
      using False z trim unfolding parse_amount_def dp_def [symmetric]
      by (simp add: split_at_point [OF assms(3)] Let_def)
  qed
qed

lemma print_money_parts:
  assumes "set_default_decimal_point dp = Some dp'"
  obtains i f where "list_all is_digit i" and "list_all is_digit f" and "i \<noteq> []" and "length f = unat dp"
    and "digits_val (i @ f) = unat amount" and "print_money dp amount (- 1) = (if dp = 0 then i @ f else i @ ''.'' @ f)"
proof -
  define n where "n = unat dp"
  have dp: "unat (dp + 1) = Suc n" "dp = 0 \<longleftrightarrow> n = 0" "0 < dp \<longleftrightarrow> 0 < n"
    using assms by (auto simp: set_default_decimal_point_def n_def split: if_splits)
  let ?s = "to_string_u64 amount"
  define s where "s = (if length ?s < Suc n then replicate (Suc n - length ?s) CHR ''0'' @ ?s else ?s)"
  have s: "list_all is_digit s" "digits_val s = unat amount" "Suc n \<le> length s"
    using decimal_digits [of "unat amount"]
    by (auto simp: s_def to_string_u64_def digits_val_append list_all_iff)
  show thesis
  proof (rule that [of "take (length s - n) s" "drop (length s - n) s"])
    show "list_all is_digit (take (length s - n) s)" "list_all is_digit (drop (length s - n) s)"
      using s(1) by (auto simp: list_all_iff dest: in_set_takeD in_set_dropD)
    show "take (length s - n) s \<noteq> []" using s(3) by auto
    show "length (drop (length s - n) s) = unat dp" using s(3) by (simp add: n_def [symmetric])
    show "digits_val (take (length s - n) s @ drop (length s - n) s) = unat amount" using s(2) by simp
    show "print_money dp amount (- 1) = (if dp = 0 then take (length s - n) s @ drop (length s - n) s
        else take (length s - n) s @ ''.'' @ drop (length s - n) s)"
      unfolding print_money_def Let_def if_P [OF refl [of "- 1"]] dp(1) n_def [symmetric] s_def [symmetric]
      using dp(2,3) by simp
  qed
qed

text \<open>
  C26. Amounts are printed and parsed as decimal fractions. For every setting of the decimal point, a printed amount
  parses back to itself. More generally digits with a point parse to their value in atomic units when it fits into
  64 bits; digits beyond the setting are accepted only if they are zeros, and without a digit parsing fails.
\<close>

theorem amount_text_correct:
  assumes "converts lexical_cast" and "trims trim" and "set_default_decimal_point dp = Some dp'"
    and "list_all is_digit i" and "list_all is_digit f"
  shows "parse_amount lexical_cast trim dp (print_money dp amount (- 1)) = Some amount
    \<and> parse_amount lexical_cast trim dp (i @ ''.'' @ f) =
      (if i @ take (unat dp) f = [] \<or> \<not> list_all (\<lambda>c. c = CHR ''0'') (drop (unat dp) f) then None
       else let v = digits_val (i @ take (unat dp) f) * 10 ^ (unat dp - length f)
            in if v < 2 ^ 64 then Some (of_nat v) else None)"
proof
  obtain j g where p: "list_all is_digit j" "list_all is_digit g" "j \<noteq> []" "length g = unat dp"
    "digits_val (j @ g) = unat amount" "print_money dp amount (- 1) = (if dp = 0 then j @ g else j @ ''.'' @ g)"
    using assms(3) by (rule print_money_parts)
  have fits: "digits_val (j @ g) < 2 ^ 64" using unat_u64_less [of amount] by (simp add: p(5))
  show "parse_amount lexical_cast trim dp (print_money dp amount (- 1)) = Some amount"
  proof (cases "dp = 0")
    case True
    then have g: "g = []" using p(4) by simp
    have "trim j = j" using assms(2) p(1) by (auto simp: trims_def list_all_iff)
    moreover have "CHR ''.'' \<notin> set j" using p(1) digit_not_point by (auto simp: list_all_iff)
    ultimately show ?thesis
      using True p parse_digits [OF assms(1) p(1,3), of 0] fits by (simp add: g parse_amount_def Let_def)
  next
    case False
    then show ?thesis
      using parse_amount_fraction [OF assms(1,2) p(1,2), of dp] p fits by (simp add: Let_def)
  qed
qed (rule parse_amount_fraction [OF assms(1,2,4,5)])

theorem amount_text_correct_witness:
  "parse_amount (\<lambda>s. if digits_val s < 2 ^ 64 then Some (of_nat (digits_val s)) else None) (\<lambda>s. s) 9 ''1.5'' = Some 1500000000"
  using amount_text_correct [of "\<lambda>s. if digits_val s < 2 ^ 64 then Some (of_nat (digits_val s)) else None" "\<lambda>s. s" 9 9 "''1''" "''5''"]
  by (simp add: converts_def trims_def set_default_decimal_point_def is_digit_def digits_val_def)

end
