(* ===== verification/TxPool.thy ===== *)
theory TxPool
  imports BlockReward "HOL-Library.AList"
begin

text \<open>
  The transaction pool (cryptonote_core/tx_pool.cpp): which key images the transactions of the pool spend, and
  the test for duplicates of deregistrations and unlock requests. The \<open>std::unordered_map\<close> from key images to the
  hashes of the transactions that spend them is an association list; the counter of changes is left out.
\<close>

section \<open>The code\<close>

definition MIN_RELAY_TIME :: int where "MIN_RELAY_TIME = 60 * 5"
definition MAX_RELAY_TIME :: int where "MAX_RELAY_TIME = 60 * 60 * 4"

text \<open>The division of C++ truncates towards zero; the result is converted to 64 bits.\<close>

definition get_relay_delay :: "int \<Rightarrow> int \<Rightarrow> u64" where
  "get_relay_delay now received =
     (let n = now - received + MIN_RELAY_TIME;
          d = sgn n * (\<bar>n\<bar> div MIN_RELAY_TIME) * MIN_RELAY_TIME
      in of_int (if d > MAX_RELAY_TIME then MAX_RELAY_TIME else d))"

definition CRYPTONOTE_COINBASE_BLOB_RESERVED_SIZE :: u64 where "CRYPTONOTE_COINBASE_BLOB_RESERVED_SIZE = 600"

definition get_transaction_weight_limit :: "u8 \<Rightarrow> u64" where
  "get_transaction_weight_limit ver =
     (if ver \<ge> network_version_10_bulletproofs
      then get_min_block_weight ver div 2 - CRYPTONOTE_COINBASE_BLOB_RESERVED_SIZE
      else get_min_block_weight ver - CRYPTONOTE_COINBASE_BLOB_RESERVED_SIZE)"

type_synonym spent_key_images = "(key_image \<times> crypto_hash list) list"

definition images_at :: "key_image \<Rightarrow> spent_key_images \<Rightarrow> crypto_hash list" where
  "images_at k m = (case map_of m k of None \<Rightarrow> [] | Some s \<Rightarrow> s)"

text \<open>The result is the flag that is returned and the map, also when the loop returns early.\<close>

fun insert_key_images :: "txin_v list \<Rightarrow> crypto_hash \<Rightarrow> bool \<Rightarrow> spent_key_images \<Rightarrow> bool \<times> spent_key_images" where
  "insert_key_images [] i kept_by_block m = (True, m)"
| "insert_key_images (txin_to_key _ _ k # ins) i kept_by_block m =
     (let s = images_at k m
      in if \<not> (kept_by_block \<or> s = []) then (False, AList.update k s m)
         else if i \<in> set s then (False, AList.update k s m)
         else insert_key_images ins i kept_by_block (AList.update k (i # s) m))"
| "insert_key_images (_ # ins) i kept_by_block m = (False, m)"

fun remove_transaction_keyimages :: "txin_v list \<Rightarrow> crypto_hash \<Rightarrow> spent_key_images \<Rightarrow> bool \<times> spent_key_images" where
  "remove_transaction_keyimages [] actual_hash m = (True, m)"
| "remove_transaction_keyimages (txin_to_key _ _ k # ins) actual_hash m =
     (case map_of m k of
        None \<Rightarrow> (False, m)
      | Some s \<Rightarrow>
          if s = [] then (False, m)
          else if actual_hash \<notin> set s then (False, m)
          else let s = removeAll actual_hash s
               in remove_transaction_keyimages ins actual_hash (if s = [] then AList.delete k m else AList.update k s m))"
| "remove_transaction_keyimages (_ # ins) actual_hash m = (False, m)"

definition have_tx_keyimg_as_spent :: "key_image \<Rightarrow> spent_key_images \<Rightarrow> bool" where
  "have_tx_keyimg_as_spent k m \<longleftrightarrow> map_of m k \<noteq> None"

fun have_tx_keyimges_as_spent :: "txin_v list \<Rightarrow> spent_key_images \<Rightarrow> bool" where
  "have_tx_keyimges_as_spent [] m = False"
| "have_tx_keyimges_as_spent (txin_to_key _ _ k # ins) m = (if have_tx_keyimg_as_spent k m then True else have_tx_keyimges_as_spent ins m)"
| "have_tx_keyimges_as_spent (_ # ins) m = True"

text \<open>The same with a set of key images, for the transactions of a block template.\<close>

fun have_key_images :: "key_image list \<Rightarrow> txin_v list \<Rightarrow> bool" where
  "have_key_images k_images [] = False"
| "have_key_images k_images (txin_to_key _ _ k # ins) = (if k \<in> set k_images then True else have_key_images k_images ins)"
| "have_key_images k_images (_ # ins) = False"

fun append_key_images :: "key_image list \<Rightarrow> txin_v list \<Rightarrow> bool \<times> key_image list" where
  "append_key_images k_images [] = (True, k_images)"
| "append_key_images k_images (txin_to_key _ _ k # ins) =
     (if k \<in> set k_images then (False, k_images) else append_key_images (k # k_images) ins)"
| "append_key_images k_images (_ # ins) = (False, k_images)"

text \<open>The transactions of the pool are in \<open>pool_txs\<close>.\<close>

fun unlock_duplicated :: "key_image \<Rightarrow> transaction list \<Rightarrow> bool" where
  "unlock_duplicated ki [] = False"
| "unlock_duplicated ki (pool_tx # rest) =
     (if get_type pool_tx \<noteq> type_key_image_unlock then unlock_duplicated ki rest
      else case get_tx_key_image_unlock_from_tx_extra (extra pool_tx) of
        None \<Rightarrow> True
      | Some pool_unlock \<Rightarrow> if ki = unlock_key_image pool_unlock then True else unlock_duplicated ki rest)"

definition have_duplicated_non_standard_tx :: "transaction \<Rightarrow> transaction list \<Rightarrow> bool" where
  "have_duplicated_non_standard_tx tx pool_txs =
     (case get_type tx of
        type_standard \<Rightarrow> False
      | type_deregister \<Rightarrow>
          (case get_full_node_deregister_from_tx_extra (extra tx) of
             None \<Rightarrow> True
           | Some deregister \<Rightarrow>
               list_ex (\<lambda>pool_tx. get_type pool_tx = type_deregister
                 \<and> (case get_full_node_deregister_from_tx_extra (extra pool_tx) of
                      None \<Rightarrow> False
                    | Some d \<Rightarrow> dereg_block_height d = dereg_block_height deregister
                        \<and> dereg_full_node_index d = dereg_full_node_index deregister)) pool_txs)
      | type_key_image_unlock \<Rightarrow>
          (case get_tx_key_image_unlock_from_tx_extra (extra tx) of
             None \<Rightarrow> True
           | Some unlock \<Rightarrow> unlock_duplicated (unlock_key_image unlock) pool_txs)
      | type_count \<Rightarrow> True)"

section \<open>The map as a relation\<close>

text \<open>The pairs of a key image and a transaction that spends it; every key image in the map has one.\<close>

definition spends :: "spent_key_images \<Rightarrow> (key_image \<times> crypto_hash) set" where
  "spends m = {(k, i). i \<in> set (images_at k m)}"

definition images_ok :: "spent_key_images \<Rightarrow> bool" where
  "images_ok m \<longleftrightarrow> distinct (map fst m) \<and> (\<forall>k s. map_of m k = Some s \<longrightarrow> s \<noteq> [])"

primrec is_to_key :: "txin_v \<Rightarrow> bool" where
  "is_to_key (txin_gen _) = False"
| "is_to_key (txin_to_script _ _ _) = False"
| "is_to_key (txin_to_scripthash _ _ _ _ _) = False"
| "is_to_key (txin_to_key _ _ _) = True"

primrec image_of :: "txin_v \<Rightarrow> key_image" where
  "image_of (txin_gen _) = []"
| "image_of (txin_to_script _ _ _) = []"
| "image_of (txin_to_scripthash _ _ _ _ _) = []"
| "image_of (txin_to_key _ _ k) = k"

lemma images_at_update [simp]: "images_at k (AList.update k' s m) = (if k = k' then s else images_at k m)"
  by (simp add: images_at_def update_conv')

lemma images_at_delete [simp]: "images_at k (AList.delete k' m) = (if k = k' then [] else images_at k m)"
  by (simp add: images_at_def delete_conv')

lemma images_ok_update: "images_ok m \<Longrightarrow> s \<noteq> [] \<Longrightarrow> images_ok (AList.update k s m)"
  by (auto simp: images_ok_def update_conv' distinct_update split: if_splits)

lemma images_ok_delete: "images_ok m \<Longrightarrow> images_ok (AList.delete k m)"
  by (auto simp: images_ok_def delete_conv' distinct_delete split: if_splits)

lemma spent_iff: "images_ok m \<Longrightarrow> have_tx_keyimg_as_spent k m \<longleftrightarrow> images_at k m \<noteq> []"
  by (auto simp: have_tx_keyimg_as_spent_def images_ok_def images_at_def split: option.split)

lemma insert_step: "spends (AList.update k (i # images_at k m) m) = insert (k, i) (spends m)"
  by (auto simp: spends_def split: if_splits)

lemma insert_outcome:
  "images_ok m \<Longrightarrow> fst (insert_key_images ins i kept m) \<longleftrightarrow>
     list_all is_to_key ins \<and> distinct (map image_of ins)
     \<and> (\<forall>k \<in> set (map image_of ins). if kept then (k, i) \<notin> spends m else k \<notin> Domain (spends m))"
proof (induction ins i kept m rule: insert_key_images.induct)
  case (2 a b k ins i kept m)
  show ?case
  proof (cases "(kept \<or> images_at k m = []) \<and> i \<notin> set (images_at k m)")
    case True
    let ?m = "AList.update k (i # images_at k m) m"
    have ok: "images_ok ?m" using 2(2) by (simp add: images_ok_update)
    have ih: "fst (insert_key_images ins i kept ?m) \<longleftrightarrow> list_all is_to_key ins \<and> distinct (map image_of ins)
      \<and> (\<forall>k \<in> set (map image_of ins). if kept then (k, i) \<notin> spends ?m else k \<notin> Domain (spends ?m))"
      using 2(1) [OF refl _ _ ok] True by auto
    have k: "if kept then (k, i) \<notin> spends m else k \<notin> Domain (spends m)" using True by (auto simp: spends_def)
    have "insert_key_images (txin_to_key a b k # ins) i kept m = insert_key_images ins i kept ?m" using True by (auto simp: Let_def)
    then show ?thesis using ih k unfolding insert_step by (auto split: if_splits)
  next
    case False
    then have "\<not> (if kept then (k, i) \<notin> spends m else k \<notin> Domain (spends m))"
      by (cases "images_at k m") (auto simp: spends_def)
    then show ?thesis using False by (auto simp: Let_def)
  qed
qed auto

lemma insert_result:
  "images_ok m \<Longrightarrow> insert_key_images ins i kept m = (True, m') \<Longrightarrow>
   images_ok m' \<and> spends m' = set (map image_of ins) \<times> {i} \<union> spends m"
proof (induction ins i kept m rule: insert_key_images.induct)
  case (2 a b k ins i kept m)
  then have g: "kept \<or> images_at k m = []" "i \<notin> set (images_at k m)"
    and r: "insert_key_images ins i kept (AList.update k (i # images_at k m) m) = (True, m')"
    by (auto simp: Let_def split: if_splits)
  have "images_ok (AList.update k (i # images_at k m) m)" using 2(2) by (simp add: images_ok_update)
  from 2(1) [OF refl _ g(2) this r] g(1) show ?case by (auto simp: insert_step)
qed auto

text \<open>Removing, for a transaction that is in the pool.\<close>

lemma remove_step:
  assumes "images_ok m" and "map_of m k = Some s" and "i \<in> set s"
  defines "m1 \<equiv> if removeAll i s = [] then AList.delete k m else AList.update k (removeAll i s) m"
  shows "images_ok m1" and "spends m1 = spends m - {(k, i)}"
proof -
  show "images_ok m1" using assms(1) by (simp add: m1_def images_ok_update images_ok_delete)
  have s: "images_at k m = s" using assms(2) by (simp add: images_at_def)
  show "spends m1 = spends m - {(k, i)}"
    using s unfolding m1_def spends_def by (auto split: if_splits) (metis Diff_iff empty_iff insert_iff list.set(1) set_removeAll)+
qed

lemma remove_result:
  "images_ok m \<Longrightarrow> list_all is_to_key ins \<Longrightarrow> distinct (map image_of ins) \<Longrightarrow> set (map image_of ins) \<times> {i} \<subseteq> spends m \<Longrightarrow>
   \<exists>m'. remove_transaction_keyimages ins i m = (True, m') \<and> images_ok m' \<and> spends m' = spends m - set (map image_of ins) \<times> {i}"
proof (induction ins i m rule: remove_transaction_keyimages.induct)
  case (2 a b k ins i m)
  have "i \<in> set (images_at k m)" using 2(5) by (auto simp: spends_def)
  then obtain s where s: "map_of m k = Some s" "i \<in> set s"
    by (cases "map_of m k") (auto simp: images_at_def)
  let ?m = "if removeAll i s = [] then AList.delete k m else AList.update k (removeAll i s) m"
  note step = remove_step [OF 2(2) s]
  have "set (map image_of ins) \<times> {i} \<subseteq> spends ?m" using 2(4,5) unfolding step(2) by auto
  moreover have "s \<noteq> []" using s(2) by auto
  ultimately obtain m' where m': "remove_transaction_keyimages ins i ?m = (True, m')" "images_ok m'"
    "spends m' = spends ?m - set (map image_of ins) \<times> {i}"
    using 2(1) [OF s(1) _ _ refl step(1)] 2(3,4) s(2) by auto
  have "remove_transaction_keyimages (txin_to_key a b k # ins) i m = (True, m')"
    using s \<open>s \<noteq> []\<close> m'(1) by (simp add: Let_def)
  then show ?case using m'(2,3) step(2) by auto
qed auto

lemma spent_inputs:
  assumes "images_ok m"
  shows "have_tx_keyimges_as_spent ins m \<longleftrightarrow> \<not> list_all is_to_key ins \<or> set (map image_of ins) \<inter> Domain (spends m) \<noteq> {}"
proof -
  have "have_tx_keyimg_as_spent k m \<longleftrightarrow> k \<in> Domain (spends m)" for k
    using spent_iff [OF assms] by (cases "images_at k m") (auto simp: spends_def)
  then show ?thesis by (induction ins m rule: have_tx_keyimges_as_spent.induct) auto
qed

text \<open>
  C24. The key images of the pool refine a relation between key images and transactions. Adding a transaction
  succeeds exactly if its inputs have different key images that no transaction of the pool spends - for a
  transaction from a popped block, that it does not spend itself already - and adds its pairs. Taking the
  transaction out again succeeds and removes exactly these pairs. A transaction counts as a double spend if one of
  its key images is in the relation.
\<close>

theorem key_images_refine:
  assumes "images_ok m"
  shows "(fst (insert_key_images ins i kept m) \<longleftrightarrow> list_all is_to_key ins \<and> distinct (map image_of ins)
       \<and> (if kept then set (map image_of ins) \<times> {i} \<inter> spends m = {} else set (map image_of ins) \<inter> Domain (spends m) = {}))
     \<and> (have_tx_keyimges_as_spent ins m \<longleftrightarrow> \<not> list_all is_to_key ins \<or> set (map image_of ins) \<inter> Domain (spends m) \<noteq> {})
     \<and> (\<forall>m'. insert_key_images ins i kept m = (True, m') \<longrightarrow>
          images_ok m' \<and> spends m' = set (map image_of ins) \<times> {i} \<union> spends m
          \<and> (\<exists>m''. remove_transaction_keyimages ins i m' = (True, m'') \<and> images_ok m'' \<and> spends m'' = spends m))"
proof (intro conjI allI impI)
  show "fst (insert_key_images ins i kept m) \<longleftrightarrow> list_all is_to_key ins \<and> distinct (map image_of ins)
       \<and> (if kept then set (map image_of ins) \<times> {i} \<inter> spends m = {} else set (map image_of ins) \<inter> Domain (spends m) = {})"
    unfolding insert_outcome [OF assms] by (auto split: if_splits)
  show "have_tx_keyimges_as_spent ins m \<longleftrightarrow> \<not> list_all is_to_key ins \<or> set (map image_of ins) \<inter> Domain (spends m) \<noteq> {}"
    by (rule spent_inputs [OF assms])
next
  fix m' assume r: "insert_key_images ins i kept m = (True, m')"
  from insert_result [OF assms r] show ok: "images_ok m'" and sp: "spends m' = set (map image_of ins) \<times> {i} \<union> spends m" by auto
  have o: "list_all is_to_key ins" "distinct (map image_of ins)" "set (map image_of ins) \<times> {i} \<inter> spends m = {}"
    using insert_outcome [OF assms, of ins i kept] r by (auto split: if_splits)
  have "set (map image_of ins) \<times> {i} \<subseteq> spends m'" unfolding sp by blast
  from remove_result [OF ok o(1,2) this] show "\<exists>m''. remove_transaction_keyimages ins i m' = (True, m'') \<and> images_ok m'' \<and> spends m'' = spends m"
    using sp o(3) by (elim exE conjE) (intro exI conjI, assumption+, blast)
qed

theorem key_images_refine_witness:
  "images_ok [([5], [[1]])] \<and> \<not> fst (insert_key_images [txin_to_key 0 [] [5]] [2] False [([5], [[1]])])
   \<and> fst (insert_key_images [txin_to_key 0 [] [5], txin_to_key 0 [] [6]] [2] True [([5], [[1]])])"
proof -
  have ok: "images_ok [([5], [[1]])]" by (simp add: images_ok_def)
  have sp: "spends [([5], [[1]])] = {([5], [1])}" by (auto simp: spends_def images_at_def split: if_splits)
  show ?thesis
    using key_images_refine [OF ok, of "[txin_to_key 0 [] [5]]" "[2]" False]
      key_images_refine [OF ok, of "[txin_to_key 0 [] [5], txin_to_key 0 [] [6]]" "[2]" True] ok
    unfolding sp by auto
qed

end
