(* ===== verification/Spec2Isabelle.thy ===== *)
theory Spec2Isabelle
  imports Difficulty HardFork Node Registration TreeHash Checkpoints BlockQueue Storage Money TxPool
begin

text \<open>
  A verification development for the antd node, a CryptoNote daemon in C++ with staking full nodes. All file
  names below are relative to the directory src of the repository.

  \<^bold>\<open>The program and its parts.\<close> A node keeps a chain of blocks of transactions. Every transaction carries an
  \<^emph>\<open>extra\<close> field with tagged records: keys, nonces, and the registrations, contributions, unlock requests and
  deregistrations of full nodes. The full node list follows the chain block by block: registrations and
  contributions build up full nodes with locked stakes, each block pays one winner from a round-robin queue,
  quorums of nodes are drawn with a seeded generator to vote nodes out that stop sending uptime proofs, and nodes
  are distributed over swarms. Every change is recorded as an event, so that blocks can be popped again. The block
  reward is split between the miner, the winner and the control wallet. The hard fork table says which version of
  the rules holds at a height, the difficulty how much work a block needs.

  \<^bold>\<open>Conventions.\<close> A w-bit unsigned integer is a word of that width, so that wrap-around is the one of the machine;
  byte strings are lists of 8-bit words. Structs are records, \<open>std::map\<close> and \<open>std::unordered_map\<close> are
  association lists, output parameters are components of the result. \<^const>\<open>None\<close> is an exception, a failed
  read, a \<open>return false\<close>, a failed assertion or an access out of range, as the comment of each definition says. What lies outside
  of the modelled code is a parameter: hashes, signatures, key derivations and the decoding of hidden amounts
  (\<open>crypto_env\<close>, \<open>staking_crypto\<close>), the stored chain (\<open>chain_db\<close>, \<open>chain_view\<close>), the core as the quorum cop sees it
  (\<open>cop_core\<close>), the clock, and the functions of boost. Standard library functions the code uses (the Mersenne twister,
  vector resizing, sorting, decimal printing) are modelled as the language defines them.

  \<^bold>\<open>Theories.\<close>
  \<^item> \<open>Prelude\<close>: word lemmas, 128-bit values, little-endian byte strings, the locale \<open>machine\<close> of invariants along runs.
  \<^item> \<open>IntUtil\<close> (contrib/epee/include/int-util.h): 64 by 64 bit multiplication and 128-bit division out of 32-bit
    limbs; exact products, quotients and remainders, with the locale \<open>wide_arith\<close> as their contract.
  \<^item> \<open>Difficulty\<close> (src/cryptonote_basic/difficulty.cpp): hash test and next difficulty in the 64-bit and the wide
    version; both are proved equal to their arithmetic meaning and to each other.
  \<^item> \<open>FullNodeRules\<close> (src/cryptonote_core/full_node_rules.cpp): portions and amounts of stakes, minimum contributions.
  \<^item> \<open>Varint\<close>, \<open>Archive\<close> (src/common/varint.h, src/serialization): the binary format, with the locales \<open>codec\<close> and
    \<open>element_codec\<close> as the contract of a serialised type.
  \<^item> \<open>TxExtra\<close> (src/cryptonote_basic/tx_extra.h, cryptonote_format_utils.cpp): all fields of the extra field; parsing
    inverts storing, sorting permutes fields, removing and adding do exactly that.
  \<^item> \<open>Transaction\<close> (src/cryptonote_basic/cryptonote_basic.h): prefixes of transactions, their format and money checks.
  \<^item> \<open>BlockReward\<close> (src/cryptonote_core/cryptonote_tx_utils.cpp): the reward, its split and the miner transaction.
  \<^item> \<open>HardFork\<close> (src/cryptonote_basic/hardfork.cpp): fork table and window of votes; counts are always those of the window.
  \<^item> \<open>Shuffle\<close>, \<open>Staking\<close>, \<open>Swarm\<close>, \<open>FullNodeList\<close> (src/cryptonote_core/full_node_list.cpp): the generator and the
    shuffle, the records and transactions of stakes, swarm assignment, and the state with every operation on it. The
    locale \<open>list_invariant\<close> says what an invariant of the list has to be kept by.
  \<^item> \<open>Funding\<close>, \<open>Rollback\<close>, \<open>Winners\<close>: the stakes of every node add up, popping blocks restores the state, and
    winners rotate over blocks with any transactions. The miner transaction built for a winner is accepted.
  \<^item> \<open>Deregister\<close>, \<open>QuorumCop\<close> (src/cryptonote_core/full_node_deregister.cpp, full_node_quorum_cop.cpp): votes, the vote
    pool, and the votes a node casts.
  \<^item> \<open>Node\<close>: list and vote pool together as a step relation, with invariants of all reachable states.
  \<^item> \<open>Text\<close>, \<open>Base58\<close>, \<open>Address\<close> (contrib/epee/include/string_tools.h, src/common/base58.cpp,
    src/cryptonote_basic/cryptonote_basic_impl.cpp): hexadecimal and Base58 text and the addresses printed with it.
  \<^item> \<open>Registration\<close> (src/cryptonote_core/full_node_list.cpp): the arguments and the command of a registration.
  \<^item> \<open>Pruning\<close> (src/common/pruning.cpp): stripes of pruned chains; the next kept and the next pruned height are the first ones.
  \<^item> \<open>TreeHash\<close> (src/crypto/tree-hash.c): the root over the transactions of a block; the in-place loops compute the full
    tree, and the root determines the transactions among lists of one length. The assertions on the count are part of it.
  \<^item> \<open>Checkpoints\<close> (src/checkpoints/checkpoints.cpp): ordered lists that refine a partial map from heights to hashes.
  \<^item> \<open>BlockQueue\<close> (src/cryptonote_protocol/block_queue.cpp): the spans of blocks being downloaded; the queue is
    well formed after any calls, and what is reserved for a peer starts with a hash that was not requested and is kept by that peer;
    when another peer has a span at the same height nothing is recorded.
  \<^item> \<open>Storage\<close> (store and load of src/cryptonote_core/full_node_list.cpp): the binary format of the full node list, a
    restart that restores it but for what the versions leave out, and the locked stakes a restart forgets. The hooks for a new
    block and for a detached chain end with a call of \<open>store\<close>.
  \<^item> \<open>Money\<close> (print_money and parse_amount of src/cryptonote_basic/cryptonote_format_utils.cpp): amounts as decimal
    fractions in both directions.
  \<^item> \<open>TxPool\<close> (src/cryptonote_core/tx_pool.cpp): the key images the transactions of the pool spend, which refine a
    relation between key images and transactions.

  \<^bold>\<open>Bounds.\<close> Loops are structural recursions or functions with a termination proof. The rejection loop of the
  generator is a \<open>partial_function\<close> on options, of which the properties state when it returns. No fuel is used.

  \<^bold>\<open>Not modelled.\<close> Cryptography (src/crypto, src/ringct, src/multisig, src/device) enters as parameters: its
  correctness is not a matter of these definitions. The database drivers, the network layer, remote procedure
  calls, the wallets, the daemon and the utilities are input and output around the modelled code. Of blockchain.cpp
  only what drives the modelled parts is here; the checks of ring signatures need the cryptography. The conversion of
  a percentage string, the speeds of the block queue and the order of the transaction pool by fee per weight compute
  in floating point. Mnemonics are word lists of natural languages.
\<close>

end
